(* ===== verification/Prelude.thy ===== *)
theory Prelude
  imports Main "HOL-Library.Word" "HOL-Library.Monad_Syntax"
begin

text \<open>
  Shared ground of the development: the names of the machine types, the collections of rewrite
  rules that the component theories fill, and the generic facts on lists, options and words that
  more than one component uses.

  A computation that may have no defined result in C (a NULL dereference, an index outside its
  array, a loop that never ends) returns \<open>None\<close>; a defined result is \<open>Some\<close>. Operations are
  chained with the \<open>do\<close> notation of the option monad, the state passed explicitly.
\<close>

type_synonym u32 = "32 word"

unbundle bit_operations_syntax

named_theorems ptr_simps \<open>reads and writes through list pointers\<close>
named_theorems ring_rules \<open>how the list operations act on rings\<close>
named_theorems frame_simps \<open>which fields of the kernel state an operation leaves alone\<close>
named_theorems kernel_defs \<open>unfoldings of the kernel's small helper operations\<close>

subsection \<open>Loops with a counter\<close>

text \<open>A \<^verbatim>\<open>for\<close> loop whose body may be undefined, over the list of values of its counter.\<close>

fun for_each :: "'a list \<Rightarrow> ('a \<Rightarrow> 's \<Rightarrow> 's option) \<Rightarrow> 's \<Rightarrow> 's option" where
  "for_each [] body s = Some s"
| "for_each (x # xs) body s = do {
     s \<leftarrow> body x s;
     for_each xs body s
   }"

lemma for_each_append: "for_each (xs @ ys) body s = Option.bind (for_each xs body s) (for_each ys body)"
  by (induction xs arbitrary: s) (auto simp: bind_assoc split: Option.bind_splits)

lemma for_each_invariant:
  assumes "I [] s"
    and "\<And>pre x rest s. xs = pre @ x # rest \<Longrightarrow> I pre s \<Longrightarrow> \<exists>s'. body x s = Some s' \<and> I (pre @ [x]) s'"
  shows "\<exists>s'. for_each xs body s = Some s' \<and> I xs s'"
proof -
  have "\<exists>s'. for_each rest body s = Some s' \<and> I xs s'" if "xs = pre @ rest" "I pre s" for pre rest s
    using that
  proof (induction rest arbitrary: pre s)
    case Nil
    then show ?case by simp
  next
    case (Cons x rest)
    obtain s1 where s1: "body x s = Some s1" "I (pre @ [x]) s1"
      using assms(2)[OF Cons.prems] by blast
    from Cons.IH[of "pre @ [x]" s1] Cons.prems(1) s1 show ?case by simp
  qed
  from this[of "[]" xs s] assms(1) show ?thesis by simp
qed

subsection \<open>Options and lists\<close>

lemma bind_eq_Some_iff: "Option.bind m f = Some y \<longleftrightarrow> (\<exists>x. m = Some x \<and> f x = Some y)"
  by (cases m) auto

lemma distinct_remove1_split:
  assumes "distinct (as @ x # bs)"
  shows "remove1 x (as @ x # bs) = as @ bs"
  using assms by (simp add: remove1_append)

lemma snoc_exists:
  obtains ys y where "x # xs = ys @ [y]"
  by (cases "x # xs" rule: rev_cases) auto

lemma last_Cons_in_set: "last (x # xs) \<in> insert x (set xs)"
  by (metis last_in_set list.distinct(1) list.simps(15))

lemma find_map: "find P (map f xs) = map_option f (find (P \<circ> f) xs)"
  by (induction xs) auto

lemma find_eq: "find ((=) e) xs = (if e \<in> set xs then Some e else None)"
  by (induction xs) auto

lemma find_unique:
  assumes "x \<in> set xs" "P x" "\<forall>y\<in>set xs. P y \<longrightarrow> y = x"
  shows "find P xs = Some x"
proof -
  from assms(1,2) have "find P xs \<noteq> None" by (auto simp: find_None_iff)
  then obtain y where y: "find P xs = Some y" by blast
  then have "P y" and "y \<in> set xs" by (auto simp: find_Some_iff)
  with assms(3) have "y = x" by blast
  with y show ?thesis by simp
qed

lemma remove1_filter: "distinct xs \<Longrightarrow> remove1 x xs = filter (\<lambda>y. y \<noteq> x) xs"
  by (induction xs) (auto simp: filter_id_conv intro!: sym[of "filter _ _"])

lemma filter_other: "x \<notin> set xs \<Longrightarrow> filter (\<lambda>y. y \<noteq> x) xs = xs"
  by (induction xs) auto

text \<open>
  Two lists that split the same finite set between them, without repetition: the way a table is
  split between its free list and its list of entries in use.
\<close>

definition splits_upto :: "nat \<Rightarrow> nat list \<Rightarrow> nat list \<Rightarrow> bool" where
  "splits_upto n xs ys \<longleftrightarrow> distinct (xs @ ys) \<and> set xs \<union> set ys = {..<n}"

lemma splits_upto_length: "splits_upto n xs ys \<Longrightarrow> length xs + length ys = n"
proof -
  assume a: "splits_upto n xs ys"
  then have "length (xs @ ys) = card (set (xs @ ys))"
    by (simp only: splits_upto_def distinct_card)
  also have "\<dots> = n" using a by (simp add: splits_upto_def)
  finally show ?thesis by simp
qed

lemma splits_upto_less: "splits_upto n xs ys \<Longrightarrow> x \<in> set xs \<or> x \<in> set ys \<Longrightarrow> x < n"
  by (auto simp: splits_upto_def)

lemma splits_upto_move: "splits_upto n (x # xs) ys \<Longrightarrow> splits_upto n xs (x # ys)"
  by (auto simp: splits_upto_def)

lemma splits_upto_back:
  assumes "splits_upto n xs ys" "y \<in> set ys"
  shows "splits_upto n (y # xs) (remove1 y ys)"
  using assms by (auto simp: splits_upto_def)

end
