(* ===== verification/Lists.thy ===== *)
theory Lists
  imports Prelude
begin

text \<open>
  The intrusive doubly linked lists of \<^verbatim>\<open>os/include/os/list.h\<close> and the helpers on them in
  \<^verbatim>\<open>os/include/os/util.h\<close>. A \<^verbatim>\<open>list_head\<close> is a node of a type \<open>'n\<close>; its two pointer
  fields live in a heap, so that aliasing (one node reached through its neighbours and through
  the structure that contains it) is explicit. A pointer \<^verbatim>\<open>list_head *\<close> is \<open>'n option\<close> with
  \<open>None\<close> for NULL; reading or writing a field through NULL has no defined result.

  A list is a ring: a sentinel and the elements after it, linked both ways. \<open>ring h c xs\<close> says
  that the heap holds the ring of sentinel \<open>c\<close> and elements \<open>xs\<close>; \<open>rings h R\<close> says that it
  holds all the rings of the map \<open>R\<close>, pairwise disjoint. The lemmas of this theory show what each
  C function does to such a map.
\<close>

section \<open>Heap and pointers\<close>

type_synonym 'n ptr = "'n option"

record 'n lheap =
  l_next :: "'n \<Rightarrow> 'n ptr"
  l_prev :: "'n \<Rightarrow> 'n ptr"

definition get_next :: "'n ptr \<Rightarrow> 'n lheap \<Rightarrow> 'n ptr option" where
  "get_next p h = (case p of None \<Rightarrow> None | Some n \<Rightarrow> Some (l_next h n))"

definition get_prev :: "'n ptr \<Rightarrow> 'n lheap \<Rightarrow> 'n ptr option" where
  "get_prev p h = (case p of None \<Rightarrow> None | Some n \<Rightarrow> Some (l_prev h n))"

definition set_next :: "'n ptr \<Rightarrow> 'n ptr \<Rightarrow> 'n lheap \<Rightarrow> 'n lheap option" where
  "set_next p v h = (case p of None \<Rightarrow> None
     | Some n \<Rightarrow> Some (h\<lparr>l_next := (l_next h)(n := v)\<rparr>))"

definition set_prev :: "'n ptr \<Rightarrow> 'n ptr \<Rightarrow> 'n lheap \<Rightarrow> 'n lheap option" where
  "set_prev p v h = (case p of None \<Rightarrow> None
     | Some n \<Rightarrow> Some (h\<lparr>l_prev := (l_prev h)(n := v)\<rparr>))"

section \<open>The operations of list.h\<close>

definition INIT_LIST_HEAD :: "'n ptr \<Rightarrow> 'n lheap \<Rightarrow> 'n lheap option" where
  "INIT_LIST_HEAD list h = do {
     h \<leftarrow> set_next list list h;
     set_prev list list h
   }"

definition list_add_raw :: "'n ptr \<Rightarrow> 'n ptr \<Rightarrow> 'n ptr \<Rightarrow> 'n lheap \<Rightarrow> 'n lheap option" where
  "list_add_raw new prev next h = do {
     h \<leftarrow> set_prev next new h;
     h \<leftarrow> set_next new next h;
     h \<leftarrow> set_prev new prev h;
     set_next prev new h
   }"

definition list_add :: "'n ptr \<Rightarrow> 'n ptr \<Rightarrow> 'n lheap \<Rightarrow> 'n lheap option" where
  "list_add new head h = do {
     next \<leftarrow> get_next head h;
     list_add_raw new head next h
   }"

definition list_add_tail :: "'n ptr \<Rightarrow> 'n ptr \<Rightarrow> 'n lheap \<Rightarrow> 'n lheap option" where
  "list_add_tail new head h = do {
     prev \<leftarrow> get_prev head h;
     list_add_raw new prev head h
   }"

definition list_del_raw :: "'n ptr \<Rightarrow> 'n ptr \<Rightarrow> 'n lheap \<Rightarrow> 'n lheap option" where
  "list_del_raw prev next h = do {
     h \<leftarrow> set_prev next prev h;
     set_next prev next h
   }"

definition list_del :: "'n ptr \<Rightarrow> 'n lheap \<Rightarrow> 'n lheap option" where
  "list_del entry h = do {
     prev \<leftarrow> get_prev entry h;
     next \<leftarrow> get_next entry h;
     list_del_raw prev next h
   }"

definition list_is_last :: "'n ptr \<Rightarrow> 'n ptr \<Rightarrow> 'n lheap \<Rightarrow> bool option" where
  "list_is_last list head h = do {
     next \<leftarrow> get_next list h;
     Some (next = head)
   }"

definition list_empty :: "'n ptr \<Rightarrow> 'n lheap \<Rightarrow> bool option" where
  "list_empty head h = do {
     next \<leftarrow> get_next head h;
     Some (next = head)
   }"

definition list_next :: "'n ptr \<Rightarrow> 'n lheap \<Rightarrow> 'n ptr option" where
  "list_next current h = do {
     e \<leftarrow> list_empty current h;
     if e then Some None else get_next current h
   }"

definition list_prev :: "'n ptr \<Rightarrow> 'n lheap \<Rightarrow> 'n ptr option" where
  "list_prev current h = do {
     e \<leftarrow> list_empty current h;
     if e then Some None else get_prev current h
   }"

text \<open>
  \<^verbatim>\<open>list_for_each\<close> and its converse as the list of nodes they visit, in order. The loop follows
  the pointers until it is back at the sentinel; on a chain that never returns to it, or that
  meets NULL, there is no result.
\<close>

partial_function (option) list_for_each_from ::
  "'n lheap \<Rightarrow> 'n ptr \<Rightarrow> 'n \<Rightarrow> 'n list option" where
  "list_for_each_from h pos head =
     (if pos = Some head then Some []
      else case pos of None \<Rightarrow> None
      | Some n \<Rightarrow> do {
          rest \<leftarrow> list_for_each_from h (l_next h n) head;
          Some (n # rest)
        })"

definition list_for_each :: "'n lheap \<Rightarrow> 'n \<Rightarrow> 'n list option" where
  "list_for_each h head = list_for_each_from h (l_next h head) head"

partial_function (option) list_for_each_prev_from ::
  "'n lheap \<Rightarrow> 'n ptr \<Rightarrow> 'n \<Rightarrow> 'n list option" where
  "list_for_each_prev_from h pos head =
     (if pos = Some head then Some []
      else case pos of None \<Rightarrow> None
      | Some n \<Rightarrow> do {
          rest \<leftarrow> list_for_each_prev_from h (l_prev h n) head;
          Some (n # rest)
        })"

definition list_for_each_prev :: "'n lheap \<Rightarrow> 'n \<Rightarrow> 'n list option" where
  "list_for_each_prev h head = list_for_each_prev_from h (l_prev h head) head"

section \<open>The list helpers of util.h\<close>

definition LIST_HEAD_NULL :: "'n ptr \<Rightarrow> 'n lheap \<Rightarrow> 'n lheap option" where
  "LIST_HEAD_NULL l h = do {
     h \<leftarrow> set_next l None h;
     set_prev l None h
   }"

definition list_null :: "'n ptr \<Rightarrow> 'n lheap \<Rightarrow> bool option" where
  "list_null head h = do {
     prev \<leftarrow> get_prev head h;
     next \<leftarrow> get_next head h;
     Some (prev = None \<and> next = None)
   }"

definition list_sdel :: "'n ptr \<Rightarrow> 'n lheap \<Rightarrow> 'n lheap option" where
  "list_sdel entry h = do {
     z \<leftarrow> list_null entry h;
     if \<not> z then do {
       h \<leftarrow> list_del entry h;
       LIST_HEAD_NULL entry h
     } else Some h
   }"

partial_function (option) list_size_from ::
  "'n lheap \<Rightarrow> 'n ptr \<Rightarrow> 'n \<Rightarrow> int \<Rightarrow> int option" where
  "list_size_from h iter head res =
     (if iter = Some head then Some res
      else case iter of None \<Rightarrow> None
      | Some n \<Rightarrow> list_size_from h (l_next h n) head (res + 1))"

definition list_size :: "'n ptr \<Rightarrow> 'n lheap \<Rightarrow> int option" where
  "list_size head h = (case head of None \<Rightarrow> None
     | Some c \<Rightarrow> list_size_from h (l_next h c) c 0)"

text \<open>
  \<^verbatim>\<open>list_search\<close> takes the comparison as a function pointer; it answers zero for equal elements,
  and it may itself be undefined on an element it cannot read.
\<close>

partial_function (option) list_search_from ::
  "'n lheap \<Rightarrow> ('n \<Rightarrow> 'n \<Rightarrow> u32 option) \<Rightarrow> 'n \<Rightarrow> 'n ptr \<Rightarrow> 'n \<Rightarrow> 'n ptr option" where
  "list_search_from h cmp element iter head =
     (if iter = Some head then Some None
      else case iter of None \<Rightarrow> None
      | Some n \<Rightarrow> do {
          d \<leftarrow> cmp element n;
          if d = 0 then Some (Some n)
          else list_search_from h cmp element (l_next h n) head
        })"

definition list_search ::
  "'n \<Rightarrow> 'n ptr \<Rightarrow> ('n \<Rightarrow> 'n \<Rightarrow> u32 option) \<Rightarrow> 'n lheap \<Rightarrow> 'n ptr option" where
  "list_search element head cmp h = (case head of None \<Rightarrow> None
     | Some c \<Rightarrow> list_search_from h cmp element (l_next h c) c)"

definition exact_cmp :: "'n \<Rightarrow> 'n \<Rightarrow> u32 option" where
  "exact_cmp first second = Some (if first \<noteq> second then 1 else 0)"

definition list_contains :: "'n \<Rightarrow> 'n ptr \<Rightarrow> 'n lheap \<Rightarrow> bool option" where
  "list_contains element head h = do {
     r \<leftarrow> list_search element head exact_cmp h;
     Some (r \<noteq> None)
   }"

section \<open>Rings\<close>

text \<open>Consecutive nodes of a path are linked in both directions.\<close>

fun links :: "'n lheap \<Rightarrow> 'n list \<Rightarrow> bool" where
  "links h (a # b # xs) \<longleftrightarrow> l_next h a = Some b \<and> l_prev h b = Some a \<and> links h (b # xs)"
| "links h _ \<longleftrightarrow> True"

definition ring :: "'n lheap \<Rightarrow> 'n \<Rightarrow> 'n list \<Rightarrow> bool" where
  "ring h c xs \<longleftrightarrow> distinct (c # xs) \<and> links h (c # xs @ [c])"

definition nulled :: "'n lheap \<Rightarrow> 'n \<Rightarrow> bool" where
  "nulled h n \<longleftrightarrow> l_next h n = None \<and> l_prev h n = None"

definition ring_nodes :: "('n \<rightharpoonup> 'n list) \<Rightarrow> 'n set" where
  "ring_nodes R = {n. \<exists>c xs. R c = Some xs \<and> n \<in> insert c (set xs)}"

definition disjoint_rings :: "('n \<rightharpoonup> 'n list) \<Rightarrow> bool" where
  "disjoint_rings R \<longleftrightarrow> (\<forall>a b xs ys. R a = Some xs \<longrightarrow> R b = Some ys \<longrightarrow> a \<noteq> b \<longrightarrow>
     insert a (set xs) \<inter> insert b (set ys) = {})"

definition rings :: "'n lheap \<Rightarrow> ('n \<rightharpoonup> 'n list) \<Rightarrow> bool" where
  "rings h R \<longleftrightarrow> (\<forall>c xs. R c = Some xs \<longrightarrow> ring h c xs) \<and> disjoint_rings R"

text \<open>Two heaps agree on a set of nodes.\<close>

definition same_on :: "'n set \<Rightarrow> 'n lheap \<Rightarrow> 'n lheap \<Rightarrow> bool" where
  "same_on N h h' \<longleftrightarrow> (\<forall>n\<in>N. l_next h' n = l_next h n \<and> l_prev h' n = l_prev h n)"

subsection \<open>Pointer reads and writes\<close>

lemma get_next_Some [simp, ptr_simps]: "get_next (Some n) h = Some (l_next h n)"
  by (simp add: get_next_def)

lemma get_prev_Some [simp, ptr_simps]: "get_prev (Some n) h = Some (l_prev h n)"
  by (simp add: get_prev_def)

lemma set_next_Some [simp, ptr_simps]:
  "set_next (Some n) v h = Some (h\<lparr>l_next := (l_next h)(n := v)\<rparr>)"
  by (simp add: set_next_def)

lemma set_prev_Some [simp, ptr_simps]:
  "set_prev (Some n) v h = Some (h\<lparr>l_prev := (l_prev h)(n := v)\<rparr>)"
  by (simp add: set_prev_def)

lemma null_ptr [simp, ptr_simps]:
  "get_next None h = None" "get_prev None h = None"
  "set_next None v h = None" "set_prev None v h = None"
  by (simp_all add: get_next_def get_prev_def set_next_def set_prev_def)

subsection \<open>Paths\<close>

lemma links_append:
  "links h (xs @ y # ys) \<longleftrightarrow> links h (xs @ [y]) \<and> links h (y # ys)"
proof (induction xs)
  case Nil
  then show ?case by simp
next
  case (Cons a xs)
  then show ?case by (cases xs) auto
qed

lemma links_cong:
  assumes "\<And>n. n \<in> set (butlast xs) \<Longrightarrow> l_next h' n = l_next h n"
    and "\<And>n. n \<in> set (tl xs) \<Longrightarrow> l_prev h' n = l_prev h n"
  shows "links h' xs = links h xs"
  using assms
proof (induction xs)
  case Nil
  then show ?case by simp
next
  case (Cons a xs)
  show ?case
  proof (cases xs)
    case Nil
    then show ?thesis by simp
  next
    case (Cons b ys)
    have "links h' xs = links h xs"
    proof (rule Cons.IH)
      fix n assume "n \<in> set (butlast xs)"
      then show "l_next h' n = l_next h n"
        using Cons.prems(1)[of n] Cons by simp
    next
      fix n assume "n \<in> set (tl xs)"
      then show "l_prev h' n = l_prev h n"
        using Cons.prems(2)[of n] Cons by (cases ys) auto
    qed
    moreover have "l_next h' a = l_next h a" using Cons.prems(1)[of a] Cons by simp
    moreover have "l_prev h' b = l_prev h b" using Cons.prems(2)[of b] Cons by simp
    ultimately show ?thesis using Cons by simp
  qed
qed

subsection \<open>One ring\<close>

lemma ring_cong:
  assumes "same_on (insert c (set xs)) h h'"
  shows "ring h' c xs = ring h c xs"
proof -
  have "links h' (c # xs @ [c]) = links h (c # xs @ [c])"
    by (rule links_cong) (use assms in \<open>auto simp: same_on_def butlast_append split: if_splits\<close>)
  then show ?thesis by (simp add: ring_def)
qed

lemma ring_next: "ring h c xs \<Longrightarrow> l_next h c = Some (hd (xs @ [c]))"
  by (cases xs) (auto simp: ring_def)

lemma ring_prev: "ring h c xs \<Longrightarrow> l_prev h c = Some (last (c # xs))"
proof (cases xs rule: rev_cases)
  case Nil
  assume "ring h c xs"
  with Nil show ?thesis by (simp add: ring_def)
next
  case (snoc ys y)
  assume "ring h c xs"
  with snoc show ?thesis
    using links_append[of h "c # ys" y "[c]"] by (simp add: ring_def)
qed

lemma ring_distinct: "ring h c xs \<Longrightarrow> distinct (c # xs)"
  by (simp add: ring_def)

lemma ring_split:
  assumes "ring h c (as @ e # bs)"
  shows "l_prev h e = Some (last (c # as))" "l_next h e = Some (hd (bs @ [c]))"
proof -
  from assms have l: "links h ((c # as) @ e # (bs @ [c]))" by (simp add: ring_def)
  then have "links h ((c # as) @ [e])" "links h (e # (bs @ [c]))"
    using links_append[of h "c # as" e "bs @ [c]"] by auto
  moreover obtain ps p where p: "c # as = ps @ [p]" by (rule snoc_exists)
  ultimately show "l_prev h e = Some (last (c # as))" "l_next h e = Some (hd (bs @ [c]))"
    using links_append[of h ps p "[e]"] by (cases bs; simp add: p)+
qed

lemma ring_Nil [simp]: "ring h c [] \<longleftrightarrow> l_next h c = Some c \<and> l_prev h c = Some c"
  by (auto simp: ring_def)

lemma ring_not_nulled: "ring h c xs \<Longrightarrow> n \<in> insert c (set xs) \<Longrightarrow> \<not> nulled h n"
proof -
  assume r: "ring h c xs" and "n \<in> insert c (set xs)"
  then consider "n = c" | as bs where "xs = as @ n # bs"
    by (auto simp: in_set_conv_decomp)
  then show ?thesis
    by cases (use r ring_next[of h c xs] ring_split[of h c] in \<open>auto simp: nulled_def\<close>)
qed

text \<open>The three ways of changing one ring: insert between neighbours, unlink, initialise.\<close>

lemma ring_insert:
  assumes r: "ring h c (as @ bs)" and new: "new \<notin> insert c (set (as @ bs))"
  shows "\<exists>h'. list_add_raw (Some new) (Some (last (c # as))) (Some (hd (bs @ [c]))) h = Some h'
    \<and> ring h' c (as @ new # bs)
    \<and> same_on (- (insert new (insert c (set (as @ bs))))) h h'"
proof -
  obtain ps p where p: "c # as = ps @ [p]" by (rule snoc_exists)
  obtain n ns where n: "bs @ [c] = n # ns" by (cases "bs @ [c]") auto
  let ?h = "h\<lparr>l_prev := (l_prev h)(n := Some new, new := Some p),
              l_next := (l_next h)(new := Some n, p := Some new)\<rparr>"
  have sets: "insert c (set as) = set (ps @ [p])" "insert c (set bs) = set (n # ns)"
    using arg_cong[OF p, of set] arg_cong[OF n, of set] by auto
  have d: "distinct (c # as @ bs)" using r by (simp add: ring_def)
  have dps: "distinct (ps @ [p])" using d p[symmetric] by simp
  have dns: "distinct (n # ns)" using d n[symmetric] by auto
  have pn: "p \<noteq> new" "n \<noteq> new" using sets new by auto
  have "links h ((c # as) @ (bs @ [c]))" using r by (simp add: ring_def)
  then have l: "links h (ps @ p # n # ns)" by (simp add: p n)
  have l1: "links h (ps @ [p])" "links h (n # ns)"
    using l links_append[of h ps p "n # ns"] by auto
  have "links ?h (ps @ [p]) = links h (ps @ [p])"
  proof (rule links_cong)
    fix x assume "x \<in> set (butlast (ps @ [p]))"
    then show "l_next ?h x = l_next h x" using dps sets new by auto
  next
    fix x assume x: "x \<in> set (tl (ps @ [p]))"
    have "x \<in> set as" using x p by (cases ps) (auto dest: arg_cong[of _ _ tl])
    then have "x \<noteq> n" "x \<noteq> new" using d n new by (cases bs; auto)+
    then show "l_prev ?h x = l_prev h x" by simp
  qed
  moreover have "links ?h (n # ns) = links h (n # ns)"
  proof (rule links_cong)
    fix x assume x: "x \<in> set (butlast (n # ns))"
    have "butlast (n # ns) = bs" using n by (metis butlast_snoc)
    with x have "x \<in> set bs" by simp
    moreover have "p \<in> insert c (set as)" using sets by simp
    ultimately have "x \<noteq> p" "x \<noteq> new" using d new by auto
    then show "l_next ?h x = l_next h x" by simp
  next
    fix x assume "x \<in> set (tl (n # ns))"
    then show "l_prev ?h x = l_prev h x" using dns sets new by auto
  qed
  ultimately have "links ?h (ps @ p # new # n # ns)"
    using l1 pn by (simp add: links_append[of ?h ps p "new # n # ns"])
  then have "links ?h (c # (as @ new # bs) @ [c])"
    using p n by (metis append.assoc append_Cons append_Nil)
  moreover have "distinct (c # as @ new # bs)" using d new by auto
  moreover have "list_add_raw (Some new) (Some (last (c # as))) (Some (hd (bs @ [c]))) h = Some ?h"
    using p n by (simp add: list_add_raw_def)
  moreover have "same_on (- insert new (insert c (set (as @ bs)))) h ?h"
    using sets by (auto simp: same_on_def)
  ultimately show ?thesis unfolding ring_def by (intro exI[of _ ?h]) simp
qed

lemma ring_unlink:
  assumes r: "ring h c (as @ e # bs)"
  shows "\<exists>h'. list_del (Some e) h = Some h' \<and> ring h' c (as @ bs)
    \<and> l_next h' e = l_next h e \<and> l_prev h' e = l_prev h e
    \<and> same_on (- (insert c (set (as @ bs)))) h h'"
proof -
  obtain ps p where p: "c # as = ps @ [p]" by (rule snoc_exists)
  obtain n ns where n: "bs @ [c] = n # ns" by (cases "bs @ [c]") auto
  let ?h = "h\<lparr>l_prev := (l_prev h)(n := Some p), l_next := (l_next h)(p := Some n)\<rparr>"
  have sets: "insert c (set as) = set (ps @ [p])" "insert c (set bs) = set (n # ns)"
    using arg_cong[OF p, of set] arg_cong[OF n, of set] by auto
  have d: "distinct (c # as @ e # bs)" using r by (simp add: ring_def)
  have dps: "distinct (ps @ [p])" using d p[symmetric] by simp
  have dns: "distinct (n # ns)" using d n[symmetric] by auto
  have e: "e \<noteq> p" "e \<noteq> n" using d sets by auto
  have "links h (ps @ p # e # n # ns)"
    using r p n by (simp add: ring_def) (metis append.assoc append_Cons append_Nil)
  then have l: "links h (ps @ [p])" "links h (n # ns)"
    using links_append[of h ps p "e # n # ns"] by auto
  have "links ?h (ps @ [p]) = links h (ps @ [p])"
  proof (rule links_cong)
    fix x assume "x \<in> set (butlast (ps @ [p]))"
    then show "l_next ?h x = l_next h x" using dps by auto
  next
    fix x assume x: "x \<in> set (tl (ps @ [p]))"
    have "x \<in> set as" using x p by (cases ps) (auto dest: arg_cong[of _ _ tl])
    then have "x \<noteq> n" using d n by (cases bs) auto
    then show "l_prev ?h x = l_prev h x" by simp
  qed
  moreover have "links ?h (n # ns) = links h (n # ns)"
  proof (rule links_cong)
    fix x assume x: "x \<in> set (butlast (n # ns))"
    have "butlast (n # ns) = bs" using n by (metis butlast_snoc)
    with x have "x \<in> set bs" by simp
    moreover have "p \<in> insert c (set as)" using sets by simp
    ultimately have "x \<noteq> p" using d by auto
    then show "l_next ?h x = l_next h x" by simp
  next
    fix x assume "x \<in> set (tl (n # ns))"
    then show "l_prev ?h x = l_prev h x" using dns by auto
  qed
  ultimately have "links ?h (ps @ p # n # ns)"
    using l by (simp add: links_append[of ?h ps p "n # ns"])
  then have "links ?h (c # (as @ bs) @ [c])"
    using p n by (metis append.assoc append_Cons append_Nil)
  moreover have "list_del (Some e) h = Some ?h"
    using ring_split[OF r] p n by (simp add: list_del_def list_del_raw_def)
  moreover have "same_on (- insert c (set (as @ bs))) h ?h"
    using sets by (auto simp: same_on_def)
  ultimately show ?thesis using d e unfolding ring_def by (intro exI[of _ ?h]) simp
qed

subsection \<open>Traversals of a ring\<close>

text \<open>
  Every traversal starts after the sentinel and follows one pointer until it is back. On a ring
  each of them ends, and its result is the corresponding function on the list of elements.
\<close>

lemma ring_suffix_next:
  assumes "ring h c (as @ x # bs)"
  shows "x \<noteq> c" "l_next h x = Some (hd (bs @ [c]))"
  using assms ring_split[OF assms] by (auto simp: ring_def)

lemma list_search_from_ring:
  assumes "ring h c (as @ bs)" "\<forall>n\<in>set bs. cmp e n \<noteq> None"
  shows "list_search_from h cmp e (Some (hd (bs @ [c]))) c = Some (find (\<lambda>n. cmp e n = Some 0) bs)"
  using assms
proof (induction bs arbitrary: as)
  case Nil
  then show ?case by (simp add: list_search_from.simps)
next
  case (Cons x bs)
  have "ring h c ((as @ [x]) @ bs)" using Cons.prems(1) by simp
  note IH = Cons.IH[OF this]
  obtain d where "cmp e x = Some d" using Cons.prems(2) by auto
  then show ?case
    using ring_suffix_next[OF Cons.prems(1)] IH Cons.prems(2)
    by (simp add: list_search_from.simps[of h cmp e "Some x"])
qed

lemma list_for_each_from_ring:
  assumes "ring h c (as @ bs)"
  shows "list_for_each_from h (Some (hd (bs @ [c]))) c = Some bs"
  using assms
proof (induction bs arbitrary: as)
  case Nil
  then show ?case by (simp add: list_for_each_from.simps)
next
  case (Cons x bs)
  have "ring h c ((as @ [x]) @ bs)" using Cons.prems by simp
  note IH = Cons.IH[OF this]
  show ?case
    using ring_suffix_next[OF Cons.prems] IH
    by (simp add: list_for_each_from.simps[of h "Some x"])
qed

lemma list_for_each_prev_from_ring:
  assumes "ring h c (as @ bs)"
  shows "list_for_each_prev_from h (Some (last (c # as))) c = Some (rev as)"
  using assms
proof (induction as arbitrary: bs rule: rev_induct)
  case Nil
  then show ?case by (simp add: list_for_each_prev_from.simps)
next
  case (snoc x as)
  have r: "ring h c (as @ x # bs)" using snoc.prems by simp
  note IH = snoc.IH[OF this]
  have "x \<noteq> c" using r by (auto simp: ring_def)
  then show ?case
    using ring_split(1)[OF r] IH
    by (simp add: list_for_each_prev_from.simps[of h "Some x"])
qed

lemma list_size_from_ring:
  assumes "ring h c (as @ bs)"
  shows "list_size_from h (Some (hd (bs @ [c]))) c k = Some (k + int (length bs))"
  using assms
proof (induction bs arbitrary: as k)
  case Nil
  then show ?case by (simp add: list_size_from.simps)
next
  case (Cons x bs)
  have "ring h c ((as @ [x]) @ bs)" using Cons.prems by simp
  note IH = Cons.IH[OF this]
  show ?case
    using ring_suffix_next[OF Cons.prems] IH
    by (simp add: list_size_from.simps[of h "Some x"])
qed

lemma list_search_ring [ring_rules]:
  "ring h c xs \<Longrightarrow> \<forall>n\<in>set xs. cmp e n \<noteq> None \<Longrightarrow>
     list_search e (Some c) cmp h = Some (find (\<lambda>n. cmp e n = Some 0) xs)"
  using list_search_from_ring[of h c "[]" xs] ring_next[of h c xs]
  by (simp add: list_search_def)

lemma list_contains_ring [ring_rules]:
  "ring h c xs \<Longrightarrow> list_contains e (Some c) h = Some (e \<in> set xs)"
  by (simp add: list_contains_def list_search_ring exact_cmp_def find_eq)

lemma list_size_ring [ring_rules]: "ring h c xs \<Longrightarrow> list_size (Some c) h = Some (int (length xs))"
  using list_size_from_ring[of h c "[]" xs 0] ring_next[of h c xs] by (simp add: list_size_def)

lemma list_for_each_ring [ring_rules]: "ring h c xs \<Longrightarrow> list_for_each h c = Some xs"
  using list_for_each_from_ring[of h c "[]" xs] ring_next[of h c xs]
  by (simp add: list_for_each_def)

lemma list_for_each_prev_ring [ring_rules]:
  "ring h c xs \<Longrightarrow> list_for_each_prev h c = Some (rev xs)"
  using list_for_each_prev_from_ring[of h c xs "[]"] ring_prev[of h c xs]
  by (simp add: list_for_each_prev_def)

lemma list_empty_ring [ring_rules]: "ring h c xs \<Longrightarrow> list_empty (Some c) h = Some (xs = [])"
  by (cases xs) (auto simp: list_empty_def ring_def)

lemma list_next_ring [ring_rules]:
  "ring h c xs \<Longrightarrow> list_next (Some c) h = Some (if xs = [] then None else Some (hd xs))"
  using ring_next[of h c xs] by (simp add: list_next_def list_empty_ring)

lemma list_prev_ring [ring_rules]:
  "ring h c xs \<Longrightarrow> list_prev (Some c) h = Some (if xs = [] then None else Some (last xs))"
  using ring_prev[of h c xs] by (simp add: list_prev_def list_empty_ring)

lemma list_is_last_ring [ring_rules]:
  assumes "ring h c xs" "e \<in> set xs"
  shows "list_is_last (Some e) (Some c) h = Some (e = last xs)"
proof -
  from assms(2) obtain as bs where xs: "xs = as @ e # bs" by (auto simp: in_set_conv_decomp)
  have "l_next h e = Some (hd (bs @ [c]))" using ring_split(2)[of h c as e bs] assms(1) xs by simp
  moreover have "distinct (c # xs)" using assms(1) by (simp add: ring_def)
  ultimately show ?thesis using xs by (cases bs) (auto simp: list_is_last_def)
qed

lemma list_null_iff: "list_null (Some n) h = Some (nulled h n)"
  by (auto simp: list_null_def nulled_def)

subsection \<open>All the rings of a heap\<close>

lemma rings_ring: "rings h R \<Longrightarrow> R c = Some xs \<Longrightarrow> ring h c xs"
  by (simp add: rings_def)

lemma rings_disjoint:
  "rings h R \<Longrightarrow> R a = Some xs \<Longrightarrow> R b = Some ys \<Longrightarrow> a \<noteq> b \<Longrightarrow>
     insert a (set xs) \<inter> insert b (set ys) = {}"
  unfolding rings_def disjoint_rings_def by blast

lemma ring_nodesI [intro]: "R c = Some xs \<Longrightarrow> n \<in> insert c (set xs) \<Longrightarrow> n \<in> ring_nodes R"
  by (auto simp: ring_nodes_def)

lemma rings_empty [simp]: "rings h Map.empty"
  by (simp add: rings_def disjoint_rings_def)

lemma same_on_subset: "same_on A h h' \<Longrightarrow> B \<subseteq> A \<Longrightarrow> same_on B h h'"
  by (auto simp: same_on_def)

lemma same_on_trans: "same_on A h h1 \<Longrightarrow> same_on A h1 h2 \<Longrightarrow> same_on A h h2"
  by (simp add: same_on_def)

lemma same_on_nulled: "same_on A h h' \<Longrightarrow> n \<in> A \<Longrightarrow> nulled h' n = nulled h n"
  by (simp add: same_on_def nulled_def)

text \<open>
  Changing one ring and nothing outside it (and a set of fresh nodes) keeps all the others: the
  frame rule from which the four update lemmas follow.
\<close>

lemma rings_update:
  assumes "rings h R" "R c = Some xs \<or> (R c = None \<and> xs = [])" "ring h' c ys"
    and same: "same_on (- (insert c (set xs \<union> set ys))) h h'"
    and new: "insert c (set ys) \<inter> ring_nodes R \<subseteq> insert c (set xs)"
    and fresh: "R c = None \<Longrightarrow> c \<notin> ring_nodes R"
  shows "rings h' (R(c \<mapsto> ys))"
proof -
  have dis: "insert b (set zs) \<inter> insert c (set xs \<union> set ys) = {}"
    if "R b = Some zs" "b \<noteq> c" for b zs
  proof -
    have sub: "insert b (set zs) \<subseteq> ring_nodes R" using that by auto
    have "insert b (set zs) \<inter> insert c (set xs) = {}"
      using assms(2) fresh sub rings_disjoint[OF assms(1) that(1) _ that(2)] by auto
    then show ?thesis using sub new by auto
  qed
  have "ring h' b zs" if "R b = Some zs" "b \<noteq> c" for b zs
    using ring_cong[OF same_on_subset[OF same, of "insert b (set zs)"]] dis[OF that]
      rings_ring[OF assms(1) that(1)] by blast
  moreover have "disjoint_rings (R(c \<mapsto> ys))"
    unfolding disjoint_rings_def
  proof (intro allI impI)
    fix a b as bs
    assume a: "(R(c \<mapsto> ys)) a = Some as" and b: "(R(c \<mapsto> ys)) b = Some bs" and "a \<noteq> b"
    then show "insert a (set as) \<inter> insert b (set bs) = {}"
      using dis[of a as] dis[of b bs] rings_disjoint[OF assms(1), of a as b bs]
      by (cases "a = c"; cases "b = c") auto
  qed
  ultimately show ?thesis using assms(3) by (auto simp: rings_def)
qed

lemma rings_drop: "rings h R \<Longrightarrow> rings h (R(c := None))"
  by (auto simp: rings_def disjoint_rings_def)

lemma ring_nodes_upd:
  assumes "rings h R" "R c = Some xs"
  shows "ring_nodes (R(c \<mapsto> ys)) = (ring_nodes R - set xs) \<union> insert c (set ys)"
proof -
  have "n \<in> (ring_nodes R - set xs) \<union> insert c (set ys)" if n: "n \<in> ring_nodes (R(c \<mapsto> ys))" for n
    using n rings_disjoint[OF assms(1) assms(2)]
    by (fastforce simp: ring_nodes_def split: if_splits)
  moreover have "n \<in> ring_nodes (R(c \<mapsto> ys))" 
    if n': "n \<in> (ring_nodes R - set xs) \<union> insert c (set ys)" for n
  proof (cases "n \<in> insert c (set ys)")
    case True
    then show ?thesis using ring_nodesI[of "R(c \<mapsto> ys)" c ys n] by simp
  next
    case False
    with n' have "n \<in> ring_nodes R" "n \<notin> set xs" by auto
    then obtain b zs where b: "R b = Some zs" "n \<in> insert b (set zs)" "n \<notin> set xs"
      by (auto simp: ring_nodes_def)
    then have "b \<noteq> c" using False assms(2) by auto
    then show ?thesis using ring_nodesI[of "R(c \<mapsto> ys)" b zs n] b by simp
  qed
  ultimately show ?thesis by blast
qed

lemma rings_init [ring_rules]:
  assumes "rings h R" "c \<notin> ring_nodes R"
  shows "\<exists>h'. INIT_LIST_HEAD (Some c) h = Some h' \<and> rings h' (R(c \<mapsto> [])) \<and> same_on (- {c}) h h'"
proof -
  let ?h = "h\<lparr>l_next := (l_next h)(c := Some c), l_prev := (l_prev h)(c := Some c)\<rparr>"
  have "R c = None" using assms(2) ring_nodesI[of R c _ c] by (cases "R c") auto
  moreover have s: "same_on (- {c}) h ?h" by (simp add: same_on_def)
  ultimately have "rings ?h (R(c \<mapsto> []))"
    using assms by (intro rings_update[where h = h and xs = "[]"]) auto
  with s show ?thesis by (intro exI[of _ ?h]) (simp add: INIT_LIST_HEAD_def)
qed

lemma rings_add [ring_rules]:
  assumes "rings h R" "R c = Some xs" "n \<notin> ring_nodes R"
  shows "\<exists>h'. list_add (Some n) (Some c) h = Some h' \<and> rings h' (R(c \<mapsto> n # xs))
    \<and> same_on (- (insert n (insert c (set xs)))) h h'"
proof -
  have r: "ring h c ([] @ xs)" using rings_ring[OF assms(1,2)] by simp
  have n: "n \<notin> insert c (set ([] @ xs))" using assms(2,3) by auto
  obtain h' where h': "list_add_raw (Some n) (Some c) (Some (hd (xs @ [c]))) h = Some h'"
    "ring h' c (n # xs)" "same_on (- (insert n (insert c (set xs)))) h h'"
    using ring_insert[OF r n] by auto
  have "rings h' (R(c \<mapsto> n # xs))"
    using assms h' by (intro rings_update[where h = h and xs = xs]) (auto simp: insert_commute)
  with h' show ?thesis using ring_next[of h c xs] r by (auto simp: list_add_def)
qed

lemma rings_add_tail [ring_rules]:
  assumes "rings h R" "R c = Some xs" "n \<notin> ring_nodes R"
  shows "\<exists>h'. list_add_tail (Some n) (Some c) h = Some h' \<and> rings h' (R(c \<mapsto> xs @ [n]))
    \<and> same_on (- (insert n (insert c (set xs)))) h h'"
proof -
  have r: "ring h c (xs @ [])" using rings_ring[OF assms(1,2)] by simp
  have n: "n \<notin> insert c (set (xs @ []))" using assms(2,3) by auto
  obtain h' where h': "list_add_raw (Some n) (Some (last (c # xs))) (Some c) h = Some h'"
    "ring h' c (xs @ [n])" "same_on (- (insert n (insert c (set xs)))) h h'"
    using ring_insert[OF r n] by auto
  have "rings h' (R(c \<mapsto> xs @ [n]))"
    using assms h' by (intro rings_update[where h = h and xs = xs]) (auto simp: insert_commute)
  with h' show ?thesis using ring_prev[of h c xs] r by (auto simp: list_add_tail_def)
qed

lemma rings_del [ring_rules]:
  assumes "rings h R" "R c = Some xs" "e \<in> set xs"
  shows "\<exists>h'. list_del (Some e) h = Some h' \<and> rings h' (R(c \<mapsto> remove1 e xs))
    \<and> l_next h' e = l_next h e \<and> l_prev h' e = l_prev h e
    \<and> same_on (- (insert c (set xs - {e}))) h h'"
proof -
  from assms(3) obtain as bs where xs: "xs = as @ e # bs" by (auto simp: in_set_conv_decomp)
  have r: "ring h c (as @ e # bs)" using rings_ring[OF assms(1,2)] xs by simp
  have rem: "remove1 e xs = as @ bs" and e: "e \<notin> set (as @ bs)"
    using r xs distinct_remove1_split[of as e bs] by (auto simp: ring_def)
  obtain h' where h': "list_del (Some e) h = Some h'" "ring h' c (as @ bs)"
    "l_next h' e = l_next h e" "l_prev h' e = l_prev h e"
    "same_on (- (insert c (set (as @ bs)))) h h'"
    using ring_unlink[OF r] by auto
  have s: "same_on (- (insert c (set xs - {e}))) h h'"
    using h'(5) by (rule same_on_subset) (use xs e in auto)
  have "rings h' (R(c \<mapsto> as @ bs))"
  proof (rule rings_update[where h = h and xs = xs])
    show "same_on (- (insert c (set xs \<union> set (as @ bs)))) h h'"
      using s by (rule same_on_subset) auto
  qed (use assms(1,2) h' xs in auto)
  with h' s rem show ?thesis by (intro exI[of _ h']) simp
qed

lemma rings_sdel [ring_rules]:
  assumes "rings h R" "R c = Some xs" "e \<in> set xs"
  shows "\<exists>h'. list_sdel (Some e) h = Some h' \<and> rings h' (R(c \<mapsto> remove1 e xs))
    \<and> nulled h' e \<and> same_on (- (insert c (set xs))) h h'"
proof -
  obtain h1 where h1: "list_del (Some e) h = Some h1" "rings h1 (R(c \<mapsto> remove1 e xs))"
    "same_on (- (insert c (set xs - {e}))) h h1"
    using rings_del[OF assms] by blast
  let ?h = "h1\<lparr>l_next := (l_next h1)(e := None), l_prev := (l_prev h1)(e := None)\<rparr>"
  have d: "distinct (c # xs)" using rings_ring[OF assms(1,2)] by (simp add: ring_def)
  have e: "e \<notin> ring_nodes (R(c \<mapsto> remove1 e xs))"
    using d assms(3) ring_nodes_upd[OF assms(1,2), of "remove1 e xs"] by auto
  have "ring ?h b zs" if "(R(c \<mapsto> remove1 e xs)) b = Some zs" for b zs
  proof -
    have "e \<notin> insert b (set zs)" using e that ring_nodesI by metis
    then have "same_on (insert b (set zs)) h1 ?h" by (auto simp: same_on_def)
    from ring_cong[OF this] show ?thesis using rings_ring[OF h1(2) that] by simp
  qed
  then have "rings ?h (R(c \<mapsto> remove1 e xs))" using h1(2) by (simp add: rings_def)
  moreover have "\<not> nulled h e" using ring_not_nulled[OF rings_ring[OF assms(1,2)]] assms(3) by blast
  then have "list_sdel (Some e) h = Some ?h"
    using h1(1) by (simp add: list_sdel_def list_null_iff LIST_HEAD_NULL_def)
  moreover have "same_on (- (insert c (set xs))) h ?h"
    using h1(3) assms(3) by (auto simp: same_on_def)
  ultimately show ?thesis by (intro exI[of _ ?h]) (simp add: nulled_def)
qed

lemma list_sdel_nulled [ring_rules]: "nulled h n \<Longrightarrow> list_sdel (Some n) h = Some h"
  by (simp add: list_sdel_def list_null_iff)

text \<open>A node that lies on no ring can be written freely.\<close>

lemma rings_off:
  assumes "rings h R" "same_on (- A) h h'" "A \<inter> ring_nodes R = {}"
  shows "rings h' R"
proof -
  have "ring h' c xs" if "R c = Some xs" for c xs
  proof -
    have "insert c (set xs) \<subseteq> ring_nodes R" using that by auto
    then have "insert c (set xs) \<subseteq> - A" using assms(3) by blast
    from ring_cong[OF same_on_subset[OF assms(2) this]] show ?thesis
      using rings_ring[OF assms(1) that] by simp
  qed
  then show ?thesis using assms(1) by (simp add: rings_def)
qed

end
