(* ===== verification/Printf.thy ===== *)
theory Printf
  imports Prelude "HOL-Library.Signed_Division"
begin

text \<open>
  The formatted output of \<^verbatim>\<open>os/src/util.c\<close>: integer powers, number conversion, the format
  interpreter, and the writers it is used with (a bounded string, the kernel's log in memory, a
  serial terminal). A C string is a list of characters without its terminating NUL; a character
  array is a list of fixed length, and a write outside it has no defined result. An \<^verbatim>\<open>int\<close> is a
  32-bit word read with \<open>sint\<close>; lengths and counts are natural numbers.

  The interpreter takes the writer as a function pointer. What it relies on is the locale
  \<open>writer\<close>: the writer answers, keeps the target well formed, and reports no more characters than
  it was given.
\<close>

section \<open>Powers and numbers\<close>

fun pandos_pow :: "u32 \<Rightarrow> nat \<Rightarrow> u32" where
  "pandos_pow base e = (if e = 0 then 1
     else let tmp = pandos_pow base (e div 2)
          in (if e mod 2 = 0 then 1 else base) * tmp * tmp)"

declare pandos_pow.simps [simp del]

text \<open>Signed division of C: it truncates towards zero, and dividing by zero is undefined.\<close>

definition c_div :: "u32 \<Rightarrow> u32 \<Rightarrow> u32 option" where
  "c_div a b = (if b = 0 then None else Some (word_of_int (sint a sdiv sint b)))"

abbreviation (input) NUL :: char where "NUL \<equiv> CHR 0x00"

text \<open>The C string that starts at the first of the given characters.\<close>

definition cstr :: "char list \<Rightarrow> string" where
  "cstr cs = takeWhile (\<lambda>c. c \<noteq> NUL) cs"

definition digit_char :: "u32 \<Rightarrow> char" where
  "digit_char r = (if 9 < sint r then char_of (unat (97 + r - 10)) else char_of (unat (48 + r)))"

type_synonym 't writer = "'t \<Rightarrow> string \<Rightarrow> nat \<Rightarrow> (nat \<times> 't) option"

partial_function (option) count_digits :: "u32 \<Rightarrow> u32 \<Rightarrow> nat \<Rightarrow> nat option" where
  "count_digits cpy base digits =
     (if cpy = 0 then Some digits
      else do {
        q \<leftarrow> c_div cpy base;
        count_digits q base (Suc digits)
      })"

text \<open>
  The second loop of \<^verbatim>\<open>__itoa\<close>: most significant digit first, until the digits are used up or the
  writer reports that it wrote nothing. The divisor is an \<^verbatim>\<open>int\<close> that C converts to unsigned.
\<close>

fun itoa_loop :: "'t writer \<Rightarrow> 't \<Rightarrow> nat \<Rightarrow> u32 \<Rightarrow> u32 \<Rightarrow> u32 \<Rightarrow> nat \<Rightarrow> (nat \<times> 't) option" where
  "itoa_loop writer target 0 unsigned_i e base wrote = Some (wrote, target)"
| "itoa_loop writer target (Suc digits) unsigned_i e base wrote = (if e = 0 then None else do {
     (wr, target) \<leftarrow> writer target (cstr [digit_char (unsigned_i div e)]) 1;
     e' \<leftarrow> c_div e base;
     if wr = 0 then Some (wrote, target)
     else itoa_loop writer target digits (unsigned_i mod e) e' base (wrote + wr)
   })"

definition itoa_raw :: "'t writer \<Rightarrow> 't \<Rightarrow> u32 \<Rightarrow> u32 \<Rightarrow> (nat \<times> 't) option" where
  "itoa_raw writer target i base = do {
     (wrote, target, i) \<leftarrow> (if base = 10 \<and> sint i < 0 then do {
         (wr, target) \<leftarrow> writer target ''-'' 1;
         Some (wr, target, - i)
       } else Some (0, target, i));
     (wrote, target) \<leftarrow> (if i \<noteq> 0 then do {
         digits \<leftarrow> count_digits i base 0;
         itoa_loop writer target digits i (pandos_pow base (digits - 1)) base wrote
       } else do {
         (wr, target) \<leftarrow> writer target ''0'' 1;
         Some (wrote + wr, target)
       });
     (wr, target) \<leftarrow> writer target [] 1;
     Some (wrote + wr, target)
   }"

abbreviation (input) LEN :: nat where "LEN \<equiv> 32"

definition bin_raw :: "'t writer \<Rightarrow> 't \<Rightarrow> u32 \<Rightarrow> (nat \<times> 't) option" where
  "bin_raw writer target i = do {
     let buffer = map (\<lambda>p. if bit i (LEN - p - 1) then CHR ''1'' else CHR ''0'') [0..<LEN];
     (wr, target) \<leftarrow> writer target buffer LEN;
     Some (LEN, target)
   }"

section \<open>The format interpreter\<close>

text \<open>The variable arguments, by the type \<^verbatim>\<open>va_arg\<close> reads them with.\<close>

datatype varg = ArgInt u32 | ArgStr string

fun conversion :: "'t writer \<Rightarrow> 't \<Rightarrow> char \<Rightarrow> varg list \<Rightarrow> (nat \<times> 't \<times> varg list) option" where
  "conversion writer target c args =
     (if c = CHR ''s'' then (case args of ArgStr str # varg \<Rightarrow> do {
          (n, target) \<leftarrow> writer target str 0;
          Some (n, target, varg)
        } | _ \<Rightarrow> None)
      else if c = CHR ''c'' then (case args of ArgInt i # varg \<Rightarrow> do {
          (n, target) \<leftarrow> writer target (cstr [char_of (unat i)]) 1;
          Some (n, target, varg)
        } | _ \<Rightarrow> None)
      else if c = CHR ''d'' then (case args of ArgInt i # varg \<Rightarrow> do {
          (n, target) \<leftarrow> itoa_raw writer target i 10;
          Some (n, target, varg)
        } | _ \<Rightarrow> None)
      else if c = CHR ''p'' then (case args of ArgInt ptr # varg \<Rightarrow>
          if ptr \<noteq> 0 then do {
            (n, target) \<leftarrow> writer target ''0x'' 2;
            (m, target) \<leftarrow> itoa_raw writer target ptr 16;
            Some (n + m, target, varg)
          } else do {
            (n, target) \<leftarrow> writer target ''(nil)'' 5;
            Some (n, target, varg)
          } | _ \<Rightarrow> None)
      else if c = CHR ''b'' then (case args of ArgInt i # varg \<Rightarrow> do {
          (n, target) \<leftarrow> bin_raw writer target i;
          Some (n, target, varg)
        } | _ \<Rightarrow> None)
      else if c = CHR ''%'' then do {
          (n, target) \<leftarrow> writer target ''%'' 1;
          Some (n, target, args)
        }
      else do {
          (n, target) \<leftarrow> writer target (CHR ''%'' # cstr [c]) 2;
          Some (n, target, args)
        })"

declare conversion.simps [simp del]

text \<open>
  The loop over the format. It stops early when a step wrote nothing; the flag of the result says
  that the format was not used up then. A format that ends in a lone percent sign makes the loop
  step over its terminator, which is undefined.
\<close>

fun printf_loop ::
  "'t writer \<Rightarrow> 't \<Rightarrow> string \<Rightarrow> varg list \<Rightarrow> nat \<Rightarrow> (nat \<times> 't \<times> bool) option" where
  "printf_loop writer target [] varg wr = Some (wr, target, False)"
| "printf_loop writer target (c # fmt) varg wr =
     (if c = CHR ''%'' then (case fmt of
        [] \<Rightarrow> do {
          (last_wrote, target) \<leftarrow> writer target ''%'' 2;
          if last_wrote = 0 then Some (wr, target, False) else None
        }
      | d # fmt' \<Rightarrow> do {
          (last_wrote, target, varg) \<leftarrow> conversion writer target d varg;
          if last_wrote = 0 then Some (wr, target, True)
          else printf_loop writer target fmt' varg (wr + last_wrote)
        })
      else do {
        (last_wrote, target) \<leftarrow> writer target (cstr [c]) 1;
        if last_wrote = 0 then Some (wr, target, True)
        else printf_loop writer target fmt varg (wr + last_wrote)
      })"

definition printf_raw :: "'t \<Rightarrow> 't writer \<Rightarrow> string \<Rightarrow> varg list \<Rightarrow> (nat \<times> 't) option" where
  "printf_raw target writer fmt varg = do {
     (wr, target, stopped) \<leftarrow> printf_loop writer target fmt varg 0;
     if stopped then do {
       (n, target) \<leftarrow> writer target [] 1;
       Some (wr + n, target)
     } else Some (wr, target)
   }"

section \<open>Writing into a bounded string\<close>

record str_target_t =
  st_str :: "char list"
  st_size :: nat
  st_wrote :: nat

text \<open>\<^verbatim>\<open>d->size - 1\<close> on an unsigned size: it wraps around at zero.\<close>

definition size_less_1 :: "nat \<Rightarrow> nat" where
  "size_less_1 n = (if n = 0 then 2 ^ 32 - 1 else n - 1)"

definition put_char :: "char list \<Rightarrow> nat \<Rightarrow> char \<Rightarrow> char list option" where
  "put_char buf k c = (if k < length buf then Some (buf[k := c]) else None)"

fun str_writer_loop ::
  "char list \<Rightarrow> nat \<Rightarrow> nat \<Rightarrow> string \<Rightarrow> bool \<Rightarrow> nat \<Rightarrow> nat \<Rightarrow> (nat \<times> char list) option" where
  "str_writer_loop buf lim pos [] check_len len i =
     (if pos < lim then do {
        buf \<leftarrow> put_char buf pos NUL;
        Some (i, buf)
      } else Some (i, buf))"
| "str_writer_loop buf lim pos (x # xs) check_len len i =
     (if pos < lim then do {
        buf \<leftarrow> put_char buf pos x;
        if x \<noteq> NUL \<and> (\<not> check_len \<or> len \<noteq> 0)
        then str_writer_loop buf lim (Suc pos) xs check_len (len - 1) (Suc i)
        else Some (i, buf)
      } else Some (i, buf))"

definition str_writer :: "str_target_t writer" where
  "str_writer d data len = do {
     (i, buf) \<leftarrow> (if data = [] then do {
         buf \<leftarrow> put_char (st_str d)
           (if st_wrote d \<ge> size_less_1 (st_size d) then st_wrote d else st_wrote d + 1) NUL;
         Some (0, buf)
       } else str_writer_loop (st_str d) (size_less_1 (st_size d)) (st_wrote d) data
                (len \<noteq> 0) len 0);
     Some (i, d\<lparr>st_str := buf, st_wrote := st_wrote d + i\<rparr>)
   }"

definition nitoa :: "u32 \<Rightarrow> u32 \<Rightarrow> char list \<Rightarrow> nat \<Rightarrow> (nat \<times> char list) option" where
  "nitoa i base dest len = do {
     (n, w) \<leftarrow> itoa_raw str_writer \<lparr>st_str = dest, st_size = len, st_wrote = 0\<rparr> i base;
     Some (n, st_str w)
   }"

definition pandos_snprintf ::
  "char list \<Rightarrow> nat \<Rightarrow> string \<Rightarrow> varg list \<Rightarrow> (nat \<times> char list) option" where
  "pandos_snprintf dest len fmt varg = do {
     (n, w) \<leftarrow> printf_raw \<lparr>st_str = dest, st_size = len, st_wrote = 0\<rparr> str_writer fmt varg;
     Some (n, st_str w)
   }"

section \<open>Writing into the log in memory\<close>

abbreviation (input) MEM_WRITER_LINES :: nat where "MEM_WRITER_LINES \<equiv> 102"
abbreviation (input) MEM_WRITER_LINE_LENGTH :: nat where "MEM_WRITER_LINE_LENGTH \<equiv> 40"

record memory_target_t =
  mt_buffer :: "char list list"
  mt_line :: nat
  mt_ch :: nat

definition clean_line :: "nat \<Rightarrow> char \<Rightarrow> memory_target_t \<Rightarrow> memory_target_t option" where
  "clean_line line c mem = (if line < MEM_WRITER_LINES
     then Some (mem\<lparr>mt_buffer := (mt_buffer mem)[line := replicate MEM_WRITER_LINE_LENGTH c]\<rparr>)
     else None)"

definition next_line :: "memory_target_t \<Rightarrow> memory_target_t option" where
  "next_line mem = do {
     let mem = mem\<lparr>mt_line := (mt_line mem + 1) mod MEM_WRITER_LINES, mt_ch := 0\<rparr>;
     mem \<leftarrow> clean_line (mt_line mem) CHR '' '' mem;
     clean_line ((mt_line mem + 1) mod MEM_WRITER_LINES) CHR ''-'' mem
   }"

definition kputchar :: "memory_target_t \<Rightarrow> char \<Rightarrow> memory_target_t option" where
  "kputchar mem c =
     (if c = CHR 0x0A then next_line mem
      else if mt_line mem < MEM_WRITER_LINES \<and> mt_ch mem < MEM_WRITER_LINE_LENGTH then do {
        let mem = mem\<lparr>mt_buffer := (mt_buffer mem)
            [mt_line mem := (mt_buffer mem ! mt_line mem)[mt_ch mem := c]],
            mt_ch := mt_ch mem + 1\<rparr>;
        if mt_ch mem \<ge> MEM_WRITER_LINE_LENGTH then next_line mem else Some mem
      } else None)"

fun memory_writer_loop ::
  "memory_target_t \<Rightarrow> string \<Rightarrow> bool \<Rightarrow> nat \<Rightarrow> nat \<Rightarrow> (nat \<times> memory_target_t) option" where
  "memory_writer_loop mem [] check_len len n = Some (n, mem)"
| "memory_writer_loop mem (c # cs) check_len len n =
     (if \<not> check_len \<or> len \<noteq> 0 then do {
        mem \<leftarrow> kputchar mem c;
        memory_writer_loop mem cs check_len (len - 1) (Suc n)
      } else Some (n, mem))"

definition memory_writer :: "memory_target_t writer" where
  "memory_writer mem data len = do {
     mem \<leftarrow> (if mt_line mem = 0 \<and> mt_ch mem = 0 then do {
         mem \<leftarrow> clean_line (mt_line mem) CHR '' '' mem;
         clean_line (mt_line mem + 1) CHR '' '' mem
       } else Some mem);
     memory_writer_loop mem (cstr data) (len \<noteq> 0) len 0
   }"

definition pandos_kfprintf ::
  "memory_target_t \<Rightarrow> string \<Rightarrow> varg list \<Rightarrow> (nat \<times> memory_target_t) option" where
  "pandos_kfprintf mem fmt varg = printf_raw mem memory_writer fmt varg"

definition pandos_kclear :: "memory_target_t \<Rightarrow> memory_target_t" where
  "pandos_kclear mem = \<lparr>mt_buffer =
     replicate MEM_WRITER_LINES (replicate MEM_WRITER_LINE_LENGTH CHR '' ''),
     mt_line = 0, mt_ch = 0\<rparr>"

section \<open>Writing to a serial terminal\<close>

text \<open>
  The terminal as the driver sees it: \<open>t_status k\<close> is the value the k-th read of the status
  register returns, \<open>t_reads\<close> counts the reads, \<open>t_commands\<close> holds the command words written.
\<close>

record termreg =
  t_status :: "nat \<Rightarrow> u32"
  t_reads :: nat
  t_commands :: "u32 list"

abbreviation (input) ST_READY :: u32 where "ST_READY \<equiv> 1"
abbreviation (input) ST_BUSY :: u32 where "ST_BUSY \<equiv> 3"
abbreviation (input) ST_TRANSMITTED :: u32 where "ST_TRANSMITTED \<equiv> 5"
abbreviation (input) CMD_ACK :: u32 where "CMD_ACK \<equiv> 1"
abbreviation (input) CMD_TRANSMIT :: u32 where "CMD_TRANSMIT \<equiv> 2"
abbreviation (input) CHAR_OFFSET :: nat where "CHAR_OFFSET \<equiv> 8"
abbreviation (input) TERM_STATUS_MASK :: u32 where "TERM_STATUS_MASK \<equiv> 0xFF"

definition term_status :: "termreg \<Rightarrow> u32 \<times> termreg" where
  "term_status tp = (t_status tp (t_reads tp) AND TERM_STATUS_MASK, tp\<lparr>t_reads := Suc (t_reads tp)\<rparr>)"

definition term_command :: "u32 \<Rightarrow> termreg \<Rightarrow> termreg" where
  "term_command c tp = tp\<lparr>t_commands := t_commands tp @ [c]\<rparr>"

partial_function (option) term_poll :: "termreg \<Rightarrow> (u32 \<times> termreg) option" where
  "term_poll term = (let (stat, term) = term_status term
     in if stat = ST_BUSY then term_poll term else Some (stat, term))"

definition term_putchar :: "termreg \<Rightarrow> char \<Rightarrow> (nat \<times> termreg) option" where
  "term_putchar term c = (let (stat, term) = term_status term in
     if stat \<noteq> ST_READY \<and> stat \<noteq> ST_TRANSMITTED then Some (1, term)
     else do {
       let term = term_command
         (push_bit CHAR_OFFSET (scast (of_char c :: 8 word)) OR CMD_TRANSMIT) term;
       (stat, term) \<leftarrow> term_poll term;
       let term = term_command CMD_ACK term;
       Some (if stat = ST_TRANSMITTED then 0 else 2, term)
     })"

fun serial_writer_loop ::
  "termreg \<Rightarrow> string \<Rightarrow> bool \<Rightarrow> nat \<Rightarrow> nat \<Rightarrow> (nat \<times> termreg) option" where
  "serial_writer_loop term [] check_len len n = Some (n, term)"
| "serial_writer_loop term (c # cs) check_len len n =
     (if \<not> check_len \<or> len \<noteq> 0 then do {
        (r, term) \<leftarrow> term_putchar term c;
        if r \<noteq> 0 then Some (n, term)
        else serial_writer_loop term cs check_len (len - 1) (Suc n)
      } else Some (n, term))"

definition serial_writer :: "termreg writer" where
  "serial_writer term data len = serial_writer_loop term (cstr data) (len \<noteq> 0) len 0"

definition pandos_fprintf :: "termreg \<Rightarrow> string \<Rightarrow> varg list \<Rightarrow> (nat \<times> termreg) option" where
  "pandos_fprintf term fmt varg = printf_raw term serial_writer fmt varg"

section \<open>Numbers\<close>

lemma sint_range: "- (2 ^ 31) \<le> sint (w :: u32)" "sint (w :: u32) < 2 ^ 31"
  using sint_ge[of w] sint_lt[of w] by simp_all

lemma sint_0_iff: "sint (w :: u32) = 0 \<longleftrightarrow> w = 0"
  by (metis signed_0 signed_word_eqI)

lemma sint_of_range: "- (2 ^ 31) \<le> k \<Longrightarrow> k < 2 ^ 31 \<Longrightarrow> sint (word_of_int k :: u32) = k"
  by (simp add: int_word_sint)

lemma abs_sdiv: "0 < b \<Longrightarrow> \<bar>a sdiv b\<bar> = \<bar>a\<bar> div b" for a b :: int
  by (cases "a = 0") (simp_all add: signed_divide_int_def abs_mult pos_imp_zdiv_nonneg_iff)

lemma c_div_abs:
  assumes "1 < sint b"
  shows "\<exists>q. c_div a b = Some q \<and> \<bar>sint q\<bar> = \<bar>sint a\<bar> div sint b"
proof -
  let ?q = "sint a sdiv sint b"
  have "\<bar>?q\<bar> = \<bar>sint a\<bar> div sint b" using assms by (simp add: abs_sdiv)
  moreover have "\<bar>sint a\<bar> div sint b \<le> 2 ^ 31 div 2"
    using sint_range[of a] assms by (intro zdiv_mono2[THEN order_trans, OF _ _ _ zdiv_mono1]) auto
  ultimately have "sint (word_of_int ?q :: u32) = ?q" by (intro sint_of_range) auto
  moreover have "b \<noteq> 0" using assms by auto
  ultimately show ?thesis using \<open>\<bar>?q\<bar> = _\<close> by (simp add: c_div_def)
qed

text \<open>The first loop of \<^verbatim>\<open>__itoa\<close> ends, for either sign, and counts the digits.\<close>

lemma count_digits_total:
  assumes "1 < sint base"
  shows "\<exists>d. count_digits c base n = Some (n + d) \<and> (c \<noteq> 0 \<longrightarrow> 0 < d)
    \<and> (c \<noteq> 0 \<longrightarrow> sint base ^ (d - 1) \<le> \<bar>sint c\<bar>) \<and> \<bar>sint c\<bar> < sint base ^ d"
proof (induction "nat \<bar>sint c\<bar>" arbitrary: c n rule: less_induct)
  case less
  show ?case
  proof (cases "c = 0")
    case True
    then show ?thesis by (subst count_digits.simps) (auto intro: exI[of _ 0])
  next
    case False
    then have c: "0 < \<bar>sint c\<bar>" by (simp add: sint_0_iff)
    obtain q where q: "c_div c base = Some q" "\<bar>sint q\<bar> = \<bar>sint c\<bar> div sint base"
      using c_div_abs[OF assms] by blast
    have "\<bar>sint q\<bar> < \<bar>sint c\<bar>" using q(2) c assms by (simp add: int_div_less_self)
    then obtain d where d: "count_digits q base (Suc n) = Some (Suc n + d)" "q \<noteq> 0 \<longrightarrow> 0 < d"
      "q \<noteq> 0 \<longrightarrow> sint base ^ (d - 1) \<le> \<bar>sint q\<bar>" "\<bar>sint q\<bar> < sint base ^ d"
      using less[of q "Suc n"] c by auto
    have split: "\<bar>sint c\<bar> = sint base * \<bar>sint q\<bar> + \<bar>sint c\<bar> mod sint base"
      "\<bar>sint c\<bar> mod sint base < sint base" "0 \<le> \<bar>sint c\<bar> mod sint base"
      using q(2) assms by simp_all
    have "sint base ^ d \<le> \<bar>sint c\<bar>"
    proof (cases "q = 0")
      case True
      then have "d = 0" using d(1) by (simp add: count_digits.simps)
      then show ?thesis using c by simp
    next
      case False
      then obtain d' where d': "d = Suc d'" using d(2) by (cases d) auto
      have "sint base * sint base ^ d' \<le> sint base * \<bar>sint q\<bar>"
        using d(3) False d' assms by (intro mult_left_mono) auto
      then show ?thesis using split(1,3) d' by simp
    qed
    moreover have "\<bar>sint c\<bar> < sint base ^ Suc d"
    proof -
      have "sint base * (\<bar>sint q\<bar> + 1) \<le> sint base * sint base ^ d"
        using d(4) assms by (intro mult_left_mono) auto
      then show ?thesis using split(1,2) by (simp add: distrib_left)
    qed
    ultimately show ?thesis using False q(1) d(1)
      by (subst count_digits.simps) (auto intro!: exI[of _ "Suc d"])
  qed
qed

lemma pandos_pow_eq: "pandos_pow base e = base ^ e"
proof (induction base e rule: pandos_pow.induct)
  case (1 base e)
  show ?case
  proof (cases "e = 0")
    case True
    then show ?thesis by (simp add: pandos_pow.simps)
  next
    case False
    have "base ^ e = base ^ (e mod 2) * (base ^ (e div 2) * base ^ (e div 2))"
    proof -
      have "e = e mod 2 + (e div 2 + e div 2)" by presburger
      then show ?thesis by (metis power_add)
    qed
    moreover have "base ^ (e mod 2) = (if e mod 2 = 0 then 1 else base)"
      by (cases "even e") (auto simp: odd_iff_mod_2_eq_one)
    ultimately show ?thesis using False 1[OF False]
      by (simp add: pandos_pow.simps[of base e] mult.assoc Let_def)
  qed
qed

lemma sint_power:
  "0 \<le> sint b \<Longrightarrow> sint b ^ n < 2 ^ 31 \<Longrightarrow> sint (b ^ n :: u32) = sint b ^ n"
proof -
  assume a: "0 \<le> sint b" "sint b ^ n < 2 ^ 31"
  have "b ^ n = word_of_int (sint b ^ n)" by (simp add: word_of_int_power_hom[symmetric])
  moreover have "0 \<le> sint b ^ n" using a(1) by simp
  ultimately show ?thesis using a(2) sint_of_range[of "sint b ^ n"] by simp
qed

section \<open>What the interpreter relies on\<close>

text \<open>
  The arguments a format asks for. A lone percent sign at the end is not a format, and the string
  of a \<^verbatim>\<open>%s\<close> is a C string.
\<close>

fun fmt_ok :: "string \<Rightarrow> varg list \<Rightarrow> bool" where
  "fmt_ok [] args \<longleftrightarrow> True"
| "fmt_ok (c # fmt) args \<longleftrightarrow>
     (if c = CHR ''%'' then (case fmt of [] \<Rightarrow> False | d # fmt' \<Rightarrow>
        if d = CHR ''s'' then (case args of ArgStr _ # args' \<Rightarrow> fmt_ok fmt' args' | _ \<Rightarrow> False)
        else if d \<in> {CHR ''c'', CHR ''d'', CHR ''p'', CHR ''b''}
        then (case args of ArgInt _ # args' \<Rightarrow> fmt_ok fmt' args' | _ \<Rightarrow> False)
        else fmt_ok fmt' args)
      else fmt_ok fmt args)"

locale writer =
  fixes ok :: "'t \<Rightarrow> bool" and w :: "'t writer"
  assumes answers: "ok t \<Longrightarrow> \<exists>n t'. w t data len = Some (n, t') \<and> ok t'"
begin

lemma itoa_loop_answers:
  assumes "1 < sint base" "ok t" "digits = 0 \<or> \<bar>sint e\<bar> = sint base ^ (digits - 1)"
  shows "\<exists>n t'. itoa_loop w t digits i e base wrote = Some (n, t') \<and> ok t'"
  using assms(2,3)
proof (induction digits arbitrary: t i e wrote)
  case 0
  then show ?case by simp
next
  case (Suc digits)
  obtain wr t1 where t1: "w t (cstr [digit_char (i div e)]) 1 = Some (wr, t1)" "ok t1"
    using answers[OF Suc.prems(1)] by blast
  obtain e' where e': "c_div e base = Some e'" "\<bar>sint e'\<bar> = \<bar>sint e\<bar> div sint base"
    using c_div_abs[OF assms(1)] by blast
  have "e \<noteq> 0" using Suc.prems(2) assms(1) by auto
  moreover have "digits = 0 \<or> \<bar>sint e'\<bar> = sint base ^ (digits - 1)"
    using Suc.prems(2) e'(2) assms(1) by (cases digits) auto
  ultimately show ?case using t1 e'(1) Suc.IH[OF t1(2), of e' "i mod e" "wrote + wr"] by auto
qed

lemma itoa_answers:
  assumes "base \<in> {10, 16}" "ok t"
  shows "\<exists>n t'. itoa_raw w t i base = Some (n, t') \<and> ok t'"
proof -
  have base: "1 < sint base" "sint base ^ k < 2 ^ 31" if "sint base ^ k \<le> 2 ^ 31" for k
  proof -
    show "1 < sint base" using assms(1) by auto
    have "sint base ^ k \<noteq> 2 ^ 31"
    proof
      assume k: "sint base ^ k = 2 ^ 31"
      from assms(1) consider "sint base = 10" | "sint base = 16" by auto
      then show False
      proof cases
        case 1
        have "k \<noteq> 0" using k by (intro notI) simp
        then have "(5::int) dvd sint base ^ k" using 1 dvd_trans[of "5::int" 10 "10 ^ k"] by (simp add: dvd_power)
        then show False using k by simp
      next
        case 2
        then have "(2::int) ^ (4 * k) = 2 ^ 31" using k by (simp add: power_mult)
        then have "4 * k = 31" by (simp only: power_inject_exp)
        then show False by presburger
      qed
    qed
    with that show "sint base ^ k < 2 ^ 31" by simp
  qed
  have b1: "1 < sint base" using assms(1) by auto
  have body: "\<exists>n t'. (do {
       (wrote, target) \<leftarrow> (if j \<noteq> 0 then do {
           digits \<leftarrow> count_digits j base 0;
           itoa_loop w t1 digits j (pandos_pow base (digits - 1)) base wrote
         } else do {
           (wr, target) \<leftarrow> w t1 ''0'' 1;
           Some (wrote + wr, target)
         });
       (wr, target) \<leftarrow> w target [] 1;
       Some (wrote + wr, target)
     }) = Some (n, t') \<and> ok t'" if t1: "ok t1" for t1 j wrote
  proof -
    obtain n2 t2 where t2: "(if j \<noteq> 0 then do {
           digits \<leftarrow> count_digits j base 0;
           itoa_loop w t1 digits j (pandos_pow base (digits - 1)) base wrote
         } else do {
           (wr, target) \<leftarrow> w t1 ''0'' 1;
           Some (wrote + wr, target)
         }) = Some (n2, t2)" "ok t2"
    proof (cases "j = 0")
      case True
      then show thesis using answers[OF t1, of "''0''" 1] that by auto
    next
      case False
      obtain d where d: "count_digits j base 0 = Some d" "0 < d" "sint base ^ (d - 1) \<le> \<bar>sint j\<bar>"
        using count_digits_total[OF b1, of j 0] False by auto
      have "sint base ^ (d - 1) < 2 ^ 31" using d(3) sint_range[of j] base(2) by auto
      then have "\<bar>sint (pandos_pow base (d - 1))\<bar> = sint base ^ (d - 1)"
        using sint_power[of base "d - 1"] b1 by (simp add: pandos_pow_eq)
      then obtain n2 t2 where "itoa_loop w t1 d j (pandos_pow base (d - 1)) base wrote = Some (n2, t2)" "ok t2"
        using itoa_loop_answers[OF b1 t1, of d "pandos_pow base (d - 1)" j wrote] by blast
      then show thesis using that d(1) False by simp
    qed
    then show ?thesis using answers[OF t2(2), of "[]" 1] by auto
  qed
  show ?thesis
  proof (cases "base = 10 \<and> sint i < 0")
    case True
    obtain wr t1 where "w t ''-'' 1 = Some (wr, t1)" "ok t1" using answers[OF assms(2)] by blast
    then show ?thesis using body[of t1 "- i" wr] unfolding itoa_raw_def
      by (simp only: True simp_thms if_True Option.bind.simps prod.case)
  next
    case False
    show ?thesis using body[OF assms(2), of i 0] unfolding itoa_raw_def
      by (simp only: False if_False Option.bind.simps prod.case)
  qed
qed

lemma conversion_answers:
  assumes "ok t" "fmt_ok (CHR ''%'' # d # fmt) args"
  shows "\<exists>n t' args'. conversion w t d args = Some (n, t', args') \<and> ok t' \<and> fmt_ok fmt args'"
proof -
  have A: "\<exists>n t'. w t data len = Some (n, t') \<and> ok t'" for data len using answers[OF assms(1)] .
  consider "d = CHR ''s''" | "d = CHR ''c''" | "d = CHR ''d''" | "d = CHR ''p''" | "d = CHR ''b''"
    | "d \<notin> {CHR ''s'', CHR ''c'', CHR ''d'', CHR ''p'', CHR ''b''}" by blast
  then show ?thesis
  proof cases
    case 1
    then obtain str args' where "args = ArgStr str # args'" "fmt_ok fmt args'"
      using assms(2) by (auto split: list.splits varg.splits)
    with 1 A[of str 0] show ?thesis by (auto simp: conversion.simps)
  next
    case 2
    then obtain j args' where "args = ArgInt j # args'" "fmt_ok fmt args'"
      using assms(2) by (auto split: list.splits varg.splits)
    with 2 A[of "cstr [char_of (unat j)]" 1] show ?thesis by (auto simp: conversion.simps)
  next
    case 3
    then obtain j args' where "args = ArgInt j # args'" "fmt_ok fmt args'"
      using assms(2) by (auto split: list.splits varg.splits)
    with 3 itoa_answers[OF _ assms(1), of 10 j] show ?thesis by (auto simp: conversion.simps)
  next
    case 4
    then obtain j args' where a: "args = ArgInt j # args'" "fmt_ok fmt args'"
      using assms(2) by (auto split: list.splits varg.splits)
    obtain n t1 where "w t ''0x'' 2 = Some (n, t1)" "ok t1" using A by blast
    with 4 a A[of "''(nil)''" 5] itoa_answers[of 16 t1 j] show ?thesis
      by (auto simp: conversion.simps)
  next
    case 5
    then obtain j args' where "args = ArgInt j # args'" "fmt_ok fmt args'"
      using assms(2) by (auto split: list.splits varg.splits)
    with 5 A[of "map (\<lambda>p. if bit j (LEN - p - 1) then CHR ''1'' else CHR ''0'') [0..<LEN]" LEN]
    show ?thesis by (auto simp: conversion.simps bin_raw_def Let_def)
  next
    case 6
    then have "fmt_ok fmt args" using assms(2) by simp
    moreover obtain n t1 where "w t ''%'' 1 = Some (n, t1)" "ok t1" using A by blast
    moreover obtain m t2 where "w t (CHR ''%'' # cstr [d]) 2 = Some (m, t2)" "ok t2" using A by blast
    ultimately show ?thesis using 6 by (cases "d = CHR ''%''") (simp_all add: conversion.simps)
  qed
qed

lemma printf_loop_answers:
  "ok t \<Longrightarrow> fmt_ok fmt args \<Longrightarrow> \<exists>n t' st. printf_loop w t fmt args wr = Some (n, t', st) \<and> ok t'"
proof (induction fmt arbitrary: t args wr rule: length_induct)
  case (1 fmt)
  show ?case
  proof (cases fmt)
    case Nil
    then have "printf_loop w t fmt args wr = Some (wr, t, False)" by simp
    with 1(2) show ?thesis by blast
  next
    case (Cons c rest)
    show ?thesis
    proof (cases "c = CHR ''%''")
      case True
      then obtain d fmt' where rest: "rest = d # fmt'"
        using 1(3) Cons by (cases rest) auto
      obtain n t1 args' where c: "conversion w t d args = Some (n, t1, args')" "ok t1" "fmt_ok fmt' args'"
        using conversion_answers[OF 1(2)] 1(3) Cons True rest by blast
      have "length fmt' < length fmt" using Cons rest by simp
      then show ?thesis using 1(1) c Cons True rest by auto
    next
      case False
      obtain n t1 where "w t (cstr [c]) 1 = Some (n, t1)" "ok t1" using answers[OF 1(2)] by blast
      moreover have "length rest < length fmt" "fmt_ok rest args" using Cons 1(3) False by auto
      ultimately show ?thesis using 1(1) Cons False by auto
    qed
  qed
qed

lemma printf_answers:
  assumes "ok t" "fmt_ok fmt args"
  shows "\<exists>n t'. printf_raw t w fmt args = Some (n, t') \<and> ok t'"
proof -
  obtain n t1 st where t1: "printf_loop w t fmt args 0 = Some (n, t1, st)" "ok t1"
    using printf_loop_answers[OF assms] by blast
  obtain m t2 where "w t1 [] 1 = Some (m, t2)" "ok t2" using answers[OF t1(2)] by blast
  with t1 show ?thesis by (auto simp: printf_raw_def)
qed

end

section \<open>The writers\<close>

subsection \<open>The log\<close>

definition log_ok :: "memory_target_t \<Rightarrow> bool" where
  "log_ok m \<longleftrightarrow> length (mt_buffer m) = MEM_WRITER_LINES
   \<and> (\<forall>l\<in>set (mt_buffer m). length l = MEM_WRITER_LINE_LENGTH)
   \<and> mt_line m < MEM_WRITER_LINES \<and> mt_ch m < MEM_WRITER_LINE_LENGTH"

lemma clean_line_ok:
  "log_ok m \<Longrightarrow> line < MEM_WRITER_LINES \<Longrightarrow> \<exists>m'. clean_line line c m = Some m' \<and> log_ok m'
     \<and> mt_line m' = mt_line m \<and> mt_ch m' = mt_ch m"
  by (auto simp: clean_line_def log_ok_def dest!: set_update_subset_insert[THEN subsetD])

lemma next_line_ok:
  assumes "length (mt_buffer m) = MEM_WRITER_LINES" "\<forall>l\<in>set (mt_buffer m). length l = MEM_WRITER_LINE_LENGTH"
  shows "\<exists>m'. next_line m = Some m' \<and> log_ok m'"
proof -
  let ?m = "m\<lparr>mt_line := (mt_line m + 1) mod MEM_WRITER_LINES, mt_ch := 0\<rparr>"
  have ok: "log_ok ?m" using assms by (simp add: log_ok_def)
  then obtain m1 where m1: "clean_line (mt_line ?m) CHR '' '' ?m = Some m1" "log_ok m1"
    using clean_line_ok[OF ok, of "mt_line ?m"] by auto
  obtain m2 where "clean_line ((mt_line m1 + 1) mod MEM_WRITER_LINES) CHR ''-'' m1 = Some m2" "log_ok m2"
    using clean_line_ok[OF m1(2), of "(mt_line m1 + 1) mod MEM_WRITER_LINES"] by auto
  with m1 show ?thesis by (simp add: next_line_def Let_def)
qed

lemma kputchar_ok: "log_ok m \<Longrightarrow> \<exists>m'. kputchar m c = Some m' \<and> log_ok m'"
proof -
  assume ok: "log_ok m"
  let ?m = "m\<lparr>mt_buffer := (mt_buffer m)[mt_line m := (mt_buffer m ! mt_line m)[mt_ch m := c]],
    mt_ch := mt_ch m + 1\<rparr>"
  have dims: "length (mt_buffer ?m) = MEM_WRITER_LINES"
    "\<forall>l\<in>set (mt_buffer ?m). length l = MEM_WRITER_LINE_LENGTH"
    using ok by (auto simp: log_ok_def dest!: set_update_subset_insert[THEN subsetD])
  consider "c = CHR 0x0A" | "c \<noteq> CHR 0x0A" "mt_ch m + 1 \<ge> MEM_WRITER_LINE_LENGTH"
    | "c \<noteq> CHR 0x0A" "mt_ch m + 1 < MEM_WRITER_LINE_LENGTH" by linarith
  then show ?thesis
  proof cases
    case 1
    then show ?thesis using next_line_ok[of m] ok by (auto simp: kputchar_def log_ok_def)
  next
    case 2
    then show ?thesis using next_line_ok[OF dims] ok by (auto simp: kputchar_def log_ok_def Let_def)
  next
    case 3
    have "log_ok ?m" using dims ok 3(2) by (simp add: log_ok_def)
    then show ?thesis using 3 ok by (auto simp: kputchar_def log_ok_def Let_def)
  qed
qed

lemma memory_writer_loop_ok:
  "log_ok m \<Longrightarrow> \<exists>k m'. memory_writer_loop m cs chk len n = Some (k, m') \<and> log_ok m'"
proof (induction cs arbitrary: m len n)
  case Nil
  then show ?case by simp
next
  case (Cons c cs)
  obtain m1 where "kputchar m c = Some m1" "log_ok m1" using kputchar_ok[OF Cons.prems] by blast
  with Cons.IH[of m1 "len - 1" "Suc n"] Cons.prems show ?case by auto
qed

interpretation log: writer log_ok memory_writer
proof unfold_locales
  fix t data len
  assume ok: "log_ok t"
  have "\<exists>m. (if mt_line t = 0 \<and> mt_ch t = 0 then do {
         mem \<leftarrow> clean_line (mt_line t) CHR '' '' t;
         clean_line (mt_line mem + 1) CHR '' '' mem
       } else Some t) = Some m \<and> log_ok m"
  proof (cases "mt_line t = 0 \<and> mt_ch t = 0")
    case True
    obtain m1 where m1: "clean_line 0 CHR '' '' t = Some m1" "log_ok m1" "mt_line m1 = 0"
      using clean_line_ok[OF ok, of 0] True by auto
    obtain m2 where "clean_line 1 CHR '' '' m1 = Some m2" "log_ok m2"
      using clean_line_ok[OF m1(2), of 1] by auto
    with m1 True show ?thesis by simp
  qed (use ok in auto)
  then show "\<exists>n t'. memory_writer t data len = Some (n, t') \<and> log_ok t'"
    using memory_writer_loop_ok by (fastforce simp: memory_writer_def)
qed

subsection \<open>The bounded string\<close>

text \<open>A string of the given size, with the characters after it.\<close>

definition str_ok :: "nat \<Rightarrow> char list \<Rightarrow> str_target_t \<Rightarrow> bool" where
  "str_ok sz rest d \<longleftrightarrow> 0 < sz \<and> st_size d = sz \<and> sz \<le> length (st_str d) \<and> st_wrote d < sz
   \<and> drop sz (st_str d) = rest"

lemma str_writer_loop_ok:
  "lim < length buf \<Longrightarrow> pos \<le> lim \<Longrightarrow>
    \<exists>k buf'. str_writer_loop buf lim pos data chk len i = Some (i + k, buf') \<and> length buf' = length buf
      \<and> pos + k \<le> lim \<and> drop lim buf' = drop lim buf"
proof (induction data arbitrary: buf pos len i)
  case Nil
  then show ?case by (auto simp: put_char_def)
next
  case (Cons x xs)
  show ?case
  proof (cases "pos < lim \<and> x \<noteq> NUL \<and> (\<not> chk \<or> len \<noteq> 0)")
    case True
    then obtain k buf' where
      "str_writer_loop (buf[pos := x]) lim (Suc pos) xs chk (len - 1) (Suc i) = Some (Suc i + k, buf')"
      "length buf' = length buf" "Suc pos + k \<le> lim" "drop lim buf' = drop lim buf"
      using Cons.IH[of "buf[pos := x]" "Suc pos" "len - 1" "Suc i"] Cons.prems by auto
    then show ?thesis using True Cons.prems by (auto simp: put_char_def intro!: exI[of _ "Suc k"])
  next
    case False
    then show ?thesis using Cons.prems by (auto simp: put_char_def)
  qed
qed

interpretation str: writer "str_ok sz rest" str_writer for sz rest
proof unfold_locales
  fix t data len
  assume ok: "str_ok sz rest t"
  then have lim: "size_less_1 (st_size t) = sz - 1" "sz - 1 < length (st_str t)" "st_wrote t \<le> sz - 1"
    by (auto simp: str_ok_def size_less_1_def)
  show "\<exists>n t'. str_writer t data len = Some (n, t') \<and> str_ok sz rest t'"
  proof (cases "data = []")
    case True
    then show ?thesis using ok lim by (auto simp: str_writer_def put_char_def str_ok_def)
  next
    case False
    obtain k buf where b: "str_writer_loop (st_str t) (sz - 1) (st_wrote t) data (len \<noteq> 0) len 0
        = Some (k, buf)" "length buf = length (st_str t)" "st_wrote t + k \<le> sz - 1"
      "drop (sz - 1) buf = drop (sz - 1) (st_str t)"
      using str_writer_loop_ok[OF lim(2,3), of data "len \<noteq> 0" len 0] by auto
    have "drop 1 (drop (sz - 1) buf) = drop 1 (drop (sz - 1) (st_str t))" using b(4) by (rule arg_cong)
    then have "drop sz buf = rest" using ok by (simp add: str_ok_def)
    then show ?thesis using False ok lim(1) b(1-3) by (auto simp: str_writer_def str_ok_def)
  qed
qed

lemma snprintf_answers:
  assumes "0 < len" "len \<le> length dest" "fmt_ok fmt args"
  shows "\<exists>n buf. pandos_snprintf dest len fmt args = Some (n, buf) \<and> length buf = length dest
    \<and> drop len buf = drop len dest"
proof -
  have "str_ok len (drop len dest) \<lparr>st_str = dest, st_size = len, st_wrote = 0\<rparr>"
    using assms(1,2) by (simp add: str_ok_def)
  from str.printf_answers[OF this assms(3)] obtain n t where
    t: "printf_raw \<lparr>st_str = dest, st_size = len, st_wrote = 0\<rparr> str_writer fmt args = Some (n, t)"
    "str_ok len (drop len dest) t" by blast
  then have u: "drop len (st_str t) = drop len dest" "len \<le> length (st_str t)"
    by (auto simp: str_ok_def)
  from u(1) have "length (st_str t) - len = length dest - len" by (metis length_drop)
  with u(2) assms(2) have "length (st_str t) = length dest" by linarith
  with t u show ?thesis by (auto simp: pandos_snprintf_def str_ok_def)
qed

end
