(* ===== verification/Machine.thy ===== *)
theory Machine
  imports Lists Printf
begin

text \<open>
  The data model of the kernel: the constants of \<^verbatim>\<open>os/include/os/const.h\<close>, the structures of
  \<^verbatim>\<open>os/include/os/types.h\<close> and \<^verbatim>\<open>os/include/arch/processor.h\<close>, and the kernel state, which
  collects the static and global variables of the C files.

  Memory is split by the type of the object stored (the usual typed-heap view): list heads live
  in \<open>lh\<close>, process control blocks and semaphore descriptors in their tables, \<^verbatim>\<open>int\<close> objects
  (semaphores and device registers) in \<open>mem\<close>, saved processor states and support structures in
  \<open>states\<close> and \<open>supports\<close>. A pointer to a table entry is its index, \<open>None\<close> for NULL; a pointer
  to any other object is its 32-bit address, 0 for NULL.

  What belongs to the emulator and not to the repository (the constants of the uMPS headers, the
  time-of-day clock) is a parameter: the record \<open>umps\<close>, and the field \<open>clock\<close>, which gives the
  value of the n-th reading of the time-of-day register.
\<close>

section \<open>Constants of const.h\<close>

abbreviation (input) MAX_PROC :: nat where "MAX_PROC \<equiv> 20"
abbreviation (input) MAX_PROC_BITS :: nat where "MAX_PROC_BITS \<equiv> 5"
abbreviation (input) NULL_PID :: u32 where "NULL_PID \<equiv> 0"

abbreviation (input) PROCESS_PRIO_LOW :: u32 where "PROCESS_PRIO_LOW \<equiv> 0"
abbreviation (input) PROCESS_PRIO_HIGH :: u32 where "PROCESS_PRIO_HIGH \<equiv> 1"

abbreviation (input) PLT_INTERVAL :: u32 where "PLT_INTERVAL \<equiv> 5000"
abbreviation (input) IT_INTERVAL :: u32 where "IT_INTERVAL \<equiv> 100000"

abbreviation (input) RAMBASEADDR :: u32 where "RAMBASEADDR \<equiv> 0x10000000"
abbreviation (input) RAMBASESIZE :: u32 where "RAMBASESIZE \<equiv> 0x10000004"
abbreviation (input) TIMESCALEADDR :: u32 where "TIMESCALEADDR \<equiv> 0x10000024"
abbreviation (input) BIOSDATAPAGE :: u32 where "BIOSDATAPAGE \<equiv> 0x0FFFF000"
abbreviation (input) KERNELSTACK :: u32 where "KERNELSTACK \<equiv> 0x20001000"
abbreviation (input) CLEAREXECCODE :: u32 where "CLEAREXECCODE \<equiv> 0xFFFFFF00"
abbreviation (input) CAUSESHIFT :: nat where "CAUSESHIFT \<equiv> 2"

abbreviation (input) PGFAULTEXCEPT :: nat where "PGFAULTEXCEPT \<equiv> 0"
abbreviation (input) GENERALEXCEPT :: nat where "GENERALEXCEPT \<equiv> 1"

section \<open>Structures\<close>

text \<open>The general purpose registers the kernel names, and the others.\<close>

datatype reg = reg_v0 | reg_a0 | reg_a1 | reg_a2 | reg_a3 | reg_t9 | reg_sp | reg_other nat

record state_t =
  entry_hi :: u32
  cause :: u32
  status :: u32
  pc_epc :: u32
  gpr :: "reg \<Rightarrow> u32"
  hi :: u32
  lo :: u32

record pte_entry_t =
  pte_entry_hi :: u32
  pte_entry_lo :: u32

record context_t =
  c_stack_ptr :: u32
  c_status :: u32
  c_pc :: u32

record support_t =
  sup_asid :: u32
  sup_except_state :: "nat \<Rightarrow> state_t"
  sup_except_context :: "nat \<Rightarrow> context_t"
  sup_private_page_table :: "nat \<Rightarrow> pte_entry_t"

record pcb_t =
  p_parent :: "nat option"
  p_s :: state_t
  p_time :: u32
  p_sem_add :: u32
  p_support :: u32
  p_prio :: u32
  p_pid :: u32

record semd_t =
  s_key :: u32

text \<open>
  The list heads of the kernel: the free list of process control blocks, the two ready queues,
  the two lists of semaphore descriptors, the three list heads inside a \<^verbatim>\<open>pcb_t\<close>, the two
  inside a \<^verbatim>\<open>semd_t\<close>, the link of the local dummy descriptor of \<^verbatim>\<open>find_semd\<close>,
  and the local queue head \<^verbatim>\<open>qa\<close> of the phase 1 test program.
\<close>

datatype lnode = pcb_free | ready_queue_lo | ready_queue_hi | semd_free | semd_h
  | p_list nat | p_child nat | p_sib nat | s_procq nat | s_link nat | dummy_link | qa_head

text \<open>What the scheduler is told to do with the calling process (\<^verbatim>\<open>scheduler_control_t\<close>).\<close>

record scheduler_control_t =
  ctrl_pcb :: "nat option"
  ctrl_enqueue :: bool

record passupvector_t =
  pv_tlb_refill_handler :: u32
  pv_tlb_refill_stackPtr :: u32
  pv_exception_handler :: u32
  pv_exception_stackPtr :: u32

section \<open>The constants of the emulator's headers\<close>

record umps =
  UNINSTALLED :: u32
  STATUS_IEc :: u32
  STATUS_KUc :: u32
  STATUS_IEp :: u32
  STATUS_KUp :: u32
  STATUS_TE :: u32
  STATUS_IM_MASK :: u32
  STATUS_IM :: "nat \<Rightarrow> u32"
  IL_IPI :: nat
  IL_CPUTIMER :: nat
  IL_TIMER :: nat
  IL_DISK :: nat
  IL_FLASH :: nat
  IL_ETHERNET :: nat
  IL_PRINTER :: nat
  IL_TERMINAL :: nat
  DEVINTNUM :: nat
  DEVPERINT :: nat
  N_DEV_PER_IL :: nat
  DEV_IL_START :: nat
  DEV_REG_START :: u32
  DEV_REG_SIZE :: u32
  devreg :: "nat \<Rightarrow> nat \<Rightarrow> u32"
  CDEV_BITMAP_ADDR :: "nat \<Rightarrow> u32"
  CAUSE_IP :: "nat \<Rightarrow> u32"
  CAUSE_GET_EXCCODE :: "u32 \<Rightarrow> u32"
  EXC_RI :: u32
  WORD_SIZE :: u32
  semaphores_addr :: u32

section \<open>The kernel state\<close>

record kstate =
  lh :: "lnode lheap"
  pcb_table :: "nat \<Rightarrow> pcb_t"
  semd_table :: "nat \<Rightarrow> semd_t"
  mem :: "u32 \<Rightarrow> u32"
  states :: "u32 \<Rightarrow> state_t"
  supports :: "u32 \<Rightarrow> support_t"
  process_count :: u32
  softblock_count :: u32
  active_process :: "nat option"
  yield_process :: "nat option"
  start_tod :: u32
  recycle_count :: u32
  cp0_status :: u32
  cp0_cause :: u32
  clock :: "nat \<Rightarrow> u32"
  ticks :: nat
  interval_timer :: u32
  local_timer :: u32
  passupvector :: passupvector_t
  kstdout :: memory_target_t

text \<open>
  Ways in which control leaves the nucleus for good: the BIOS services that do not return to
  their caller. \<open>WAIT\<close> suspends the processor until the next interrupt, which enters the nucleus
  again through its exception handler.
\<close>

datatype kexit = HALT | PANIC string | WAIT | LDST state_t | LDCXT context_t

datatype 'a kres = Ret 'a kstate | Exit kexit kstate

text \<open>
  Sequencing of operations that may leave the nucleus, and the embedding of those that never do.
\<close>

definition kbind :: "'a kres option \<Rightarrow> ('a \<Rightarrow> kstate \<Rightarrow> 'b kres option) \<Rightarrow> 'b kres option" where
  "kbind m f = (case m of
     None \<Rightarrow> None
   | Some (Exit e s) \<Rightarrow> Some (Exit e s)
   | Some (Ret x s) \<Rightarrow> f x s)"

definition returns :: "('a \<times> kstate) option \<Rightarrow> 'a kres option" where
  "returns m = map_option (\<lambda>(x, s). Ret x s) m"

section \<open>Access to the parts of the state\<close>

definition on_lists :: "(lnode lheap \<Rightarrow> lnode lheap option) \<Rightarrow> kstate \<Rightarrow> kstate option" where
  "on_lists f s = map_option (\<lambda>h. s\<lparr>lh := h\<rparr>) (f (lh s))"

definition upd_pcb :: "nat \<Rightarrow> (pcb_t \<Rightarrow> pcb_t) \<Rightarrow> kstate \<Rightarrow> kstate" where
  "upd_pcb i f s = s\<lparr>pcb_table := (pcb_table s)(i := f (pcb_table s i))\<rparr>"

definition upd_semd :: "nat \<Rightarrow> (semd_t \<Rightarrow> semd_t) \<Rightarrow> kstate \<Rightarrow> kstate" where
  "upd_semd i f s = s\<lparr>semd_table := (semd_table s)(i := f (semd_table s i))\<rparr>"

text \<open>
  An access to an \<^verbatim>\<open>int\<close> or a device register: the processor traps on NULL and on an address
  that is not a multiple of the word size, and the access has no result.
\<close>

definition word_aligned :: "u32 \<Rightarrow> bool" where
  "word_aligned a \<longleftrightarrow> take_bit 2 a = 0"

definition load_word :: "u32 \<Rightarrow> kstate \<Rightarrow> u32 option" where
  "load_word a s = (if a \<noteq> 0 \<and> word_aligned a then Some (mem s a) else None)"

definition store_word :: "u32 \<Rightarrow> u32 \<Rightarrow> kstate \<Rightarrow> kstate option" where
  "store_word a v s = (if a \<noteq> 0 \<and> word_aligned a
     then Some (s\<lparr>mem := (mem s)(a := v)\<rparr>) else None)"

text \<open>
  \<^verbatim>\<open>pandos_memcpy\<close> copies bytes. The program copies saved processor states with it, as a whole, which the
  model writes as assignments (\<open>memcpy_whole\<close>).
\<close>

definition pandos_memcpy :: "8 word list \<Rightarrow> 8 word list \<Rightarrow> nat \<Rightarrow> 8 word list option" where
  "pandos_memcpy dest src len = for_each [0..<len]
     (\<lambda>i d. if i < length d \<and> i < length src then Some (d[i := src ! i]) else None) dest"

text \<open>The kernel's log: \<^verbatim>\<open>pandos_kprintf\<close> prints into \<^verbatim>\<open>kstdout\<close>.\<close>

definition pandos_kprintf :: "string \<Rightarrow> varg list \<Rightarrow> kstate \<Rightarrow> kstate option" where
  "pandos_kprintf fmt varg s = do {
     (n, out) \<leftarrow> pandos_kfprintf (kstdout s) fmt varg;
     Some (s\<lparr>kstdout := out\<rparr>)
   }"

text \<open>The structure that contains a list head (\<^verbatim>\<open>container_of\<close>), by the member it is reached by.\<close>

fun container_of_p_list :: "lnode ptr \<Rightarrow> nat option" where
  "container_of_p_list (Some (p_list i)) = Some i"
| "container_of_p_list _ = None"

fun container_of_p_sib :: "lnode ptr \<Rightarrow> nat option" where
  "container_of_p_sib (Some (p_sib i)) = Some i"
| "container_of_p_sib _ = None"

fun container_of_s_link :: "lnode ptr \<Rightarrow> nat option" where
  "container_of_s_link (Some (s_link i)) = Some i"
| "container_of_s_link _ = None"

definition CONTROL_BLOCK :: scheduler_control_t where
  "CONTROL_BLOCK = \<lparr>ctrl_pcb = None, ctrl_enqueue = False\<rparr>"

definition CONTROL_PRESERVE :: "nat option \<Rightarrow> scheduler_control_t" where
  "CONTROL_PRESERVE p = \<lparr>ctrl_pcb = p, ctrl_enqueue = False\<rparr>"

definition CONTROL_RESCHEDULE :: "kstate \<Rightarrow> scheduler_control_t" where
  "CONTROL_RESCHEDULE s = \<lparr>ctrl_pcb = active_process s, ctrl_enqueue = True\<rparr>"

section \<open>Lemmas\<close>

lemma memcpy_copies:
  assumes "len \<le> length dest" "len \<le> length src"
  shows "pandos_memcpy dest src len = Some (take len src @ drop len dest)"
proof -
  let ?I = "\<lambda>pre d. d = take (length pre) src @ drop (length pre) dest"
  have "\<exists>d'. pandos_memcpy dest src len = Some d' \<and> ?I [0..<len] d'"
    unfolding pandos_memcpy_def
  proof (rule for_each_invariant[where I = ?I])
    fix pre rest :: "nat list" and i and d :: "8 word list"
    assume s: "[0..<len] = pre @ i # rest" and d: "d = take (length pre) src @ drop (length pre) dest"
    have l: "length pre < len" using arg_cong[OF s, of length] by simp
    have i: "i = length pre" using arg_cong[OF s, of "\<lambda>xs. xs ! length pre"] l by (simp add: nth_append)
    have "d[i := src ! i] = take (length (pre @ [i])) src @ drop (length (pre @ [i])) dest"
      using l assms i d by (simp add: list_update_append take_Suc_conv_app_nth Cons_nth_drop_Suc[symmetric])
    then show "\<exists>d'. (if i < length d \<and> i < length src then Some (d[i := src ! i]) else None) = Some d'
        \<and> d' = take (length (pre @ [i])) src @ drop (length (pre @ [i])) dest"
      using l assms i d by simp
  qed simp
  then show ?thesis by simp
qed

lemma memcpy_whole: "length dest = length src \<Longrightarrow> pandos_memcpy dest src (length src) = Some src"
  by (simp add: memcpy_copies)

lemma kbind_simps [simp]:
  "kbind None f = None"
  "kbind (Some (Ret x s)) f = f x s"
  "kbind (Some (Exit e s)) f = Some (Exit e s)"
  by (simp_all add: kbind_def)

lemma returns_simps [simp]: "returns None = None" "returns (Some (x, s)) = Some (Ret x s)"
  by (simp_all add: returns_def)

lemma on_lists_Some: "f (lh s) = Some h \<Longrightarrow> on_lists f s = Some (s\<lparr>lh := h\<rparr>)"
  by (simp add: on_lists_def)

lemma lh_upd_pcb [simp, frame_simps]: "lh (upd_pcb i f s) = lh s"
  by (simp add: upd_pcb_def)

lemma semd_table_upd_pcb [simp, frame_simps]: "semd_table (upd_pcb i f s) = semd_table s"
  by (simp add: upd_pcb_def)

lemma pcb_table_upd_pcb [simp, frame_simps]:
  "pcb_table (upd_pcb i f s) = (pcb_table s)(i := f (pcb_table s i))"
  by (simp add: upd_pcb_def)

lemma upd_pcb_same [simp, frame_simps]:
  "mem (upd_pcb i f s) = mem s" "states (upd_pcb i f s) = states s"
  "supports (upd_pcb i f s) = supports s"
  "process_count (upd_pcb i f s) = process_count s"
  "softblock_count (upd_pcb i f s) = softblock_count s"
  "active_process (upd_pcb i f s) = active_process s"
  "yield_process (upd_pcb i f s) = yield_process s"
  "recycle_count (upd_pcb i f s) = recycle_count s"
  "start_tod (upd_pcb i f s) = start_tod s"
  "kstdout (upd_pcb i f s) = kstdout s"
  by (simp_all add: upd_pcb_def)

lemma upd_semd_same [simp, frame_simps]:
  "lh (upd_semd i f s) = lh s" "pcb_table (upd_semd i f s) = pcb_table s"
  "semd_table (upd_semd i f s) = (semd_table s)(i := f (semd_table s i))"
  "mem (upd_semd i f s) = mem s" "states (upd_semd i f s) = states s"
  "supports (upd_semd i f s) = supports s"
  "process_count (upd_semd i f s) = process_count s"
  "softblock_count (upd_semd i f s) = softblock_count s"
  "active_process (upd_semd i f s) = active_process s"
  "yield_process (upd_semd i f s) = yield_process s"
  "recycle_count (upd_semd i f s) = recycle_count s"
  "kstdout (upd_semd i f s) = kstdout s"
  by (simp_all add: upd_semd_def)

subsection \<open>Aligned addresses\<close>

lemma word_aligned_uint: "word_aligned a \<longleftrightarrow> take_bit 2 (uint a) = 0"
proof -
  have "take_bit 2 a = 0 \<longleftrightarrow> uint (take_bit 2 a) = 0" by (simp add: unsigned_eq_0_iff)
  then show ?thesis by (simp add: word_aligned_def unsigned_take_bit_eq)
qed

lemma word_aligned_diff: "word_aligned a \<Longrightarrow> word_aligned b \<Longrightarrow> word_aligned (a - b)"
proof -
  assume a: "word_aligned a" "word_aligned b"
  have "uint (a - b) = take_bit 32 (uint a - uint b)"
    by (simp add: uint_word_ariths(2) take_bit_eq_mod)
  then have "take_bit 2 (uint (a - b)) = take_bit 2 (uint a - uint b)"
    by (simp only: take_bit_take_bit)
  also have "\<dots> = take_bit 2 (take_bit 2 (uint a) - take_bit 2 (uint b))"
    by (rule take_bit_diff[symmetric])
  finally show ?thesis using a by (simp add: word_aligned_uint)
qed

lemma word_aligned_shift_eq_0:
  assumes "word_aligned w" "signed_drop_bit 2 w = 0"
  shows "w = 0"
proof (rule bit_word_eqI)
  fix n assume n: "n < LENGTH(32)"
  show "bit w n \<longleftrightarrow> bit 0 n"
  proof (cases "n < 2")
    case True
    then show ?thesis using assms(1) bit_take_bit_iff[of 2 w n] by (simp add: word_aligned_def)
  next
    case False
    then obtain m where m: "n = m + 2" by (metis add.commute le_Suc_ex not_less)
    then have "bit (signed_drop_bit 2 w) m \<longleftrightarrow> bit w n"
      using n by (auto simp: bit_signed_drop_bit_iff)
    with assms(2) show ?thesis by simp
  qed
qed

text \<open>On aligned addresses, the difference of two word pointers is zero exactly if they are equal.\<close>

lemma word_ptr_diff_eq_0:
  "word_aligned a \<Longrightarrow> word_aligned b \<Longrightarrow> signed_drop_bit 2 (a - b) = 0 \<longleftrightarrow> a = b"
  using word_aligned_shift_eq_0[OF word_aligned_diff] by auto

end
