(* ===== verification/Interfaces.thy ===== *)
theory Interfaces
  imports Prelude
begin

text \<open>
  The contracts between components, as locales. A client lemma is proved once from the contract;
  the component that implements it interprets the locale on its own definitions.
\<close>

section \<open>First-in first-out queues of processes\<close>

text \<open>
  A queue named \<open>c\<close> in a state \<open>s\<close> holds \<open>xs\<close>; \<open>fresh s i\<close> says that process \<open>i\<close> is on no list
  and may be inserted. Insertion appends, removal takes from the front and reports it, removal
  from an empty queue reports that there is nothing.
\<close>

fun ins_all :: "('c \<Rightarrow> 'i \<Rightarrow> 's \<Rightarrow> 's option) \<Rightarrow> 'c \<Rightarrow> 'i list \<Rightarrow> 's \<Rightarrow> 's option" where
  "ins_all ins c [] s = Some s"
| "ins_all ins c (i # is) s = do {
     s \<leftarrow> ins c i s;
     ins_all ins c is s
   }"

fun rem_all :: "('c \<Rightarrow> 's \<Rightarrow> ('i option \<times> 's) option) \<Rightarrow> 'c \<Rightarrow> nat \<Rightarrow> 's \<Rightarrow> ('i option list \<times> 's) option" where
  "rem_all rem c 0 s = Some ([], s)"
| "rem_all rem c (Suc n) s = do {
     (x, s) \<leftarrow> rem c s;
     (xs, s) \<leftarrow> rem_all rem c n s;
     Some (x # xs, s)
   }"

locale fifo =
  fixes holds :: "'s \<Rightarrow> 'c \<Rightarrow> 'i list \<Rightarrow> bool"
    and fresh :: "'s \<Rightarrow> 'i \<Rightarrow> bool"
    and ins :: "'c \<Rightarrow> 'i \<Rightarrow> 's \<Rightarrow> 's option"
    and rem :: "'c \<Rightarrow> 's \<Rightarrow> ('i option \<times> 's) option"
  assumes ins_law: "holds s c xs \<Longrightarrow> fresh s i \<Longrightarrow>
      \<exists>s'. ins c i s = Some s' \<and> holds s' c (xs @ [i]) \<and> (\<forall>k. k \<noteq> i \<longrightarrow> fresh s k \<longrightarrow> fresh s' k)"
    and rem_law: "holds s c (x # xs) \<Longrightarrow> \<exists>s'. rem c s = Some (Some x, s') \<and> holds s' c xs"
    and rem_empty: "holds s c [] \<Longrightarrow> rem c s = Some (None, s)"
begin

lemma ins_all_law:
  "holds s c xs \<Longrightarrow> distinct is \<Longrightarrow> \<forall>i\<in>set is. fresh s i \<Longrightarrow>
     \<exists>s'. ins_all ins c is s = Some s' \<and> holds s' c (xs @ is)"
proof (induction "is" arbitrary: s xs)
  case Nil
  then show ?case by simp
next
  case (Cons i "is")
  obtain s1 where s1: "ins c i s = Some s1" "holds s1 c (xs @ [i])"
    "\<forall>k. k \<noteq> i \<longrightarrow> fresh s k \<longrightarrow> fresh s1 k"
    using ins_law[OF Cons.prems(1), of i] Cons.prems(3) by auto
  have "\<forall>k\<in>set is. fresh s1 k" using s1(3) Cons.prems(2,3) by auto
  from Cons.IH[OF s1(2) _ this] Cons.prems(2) s1(1) show ?case by auto
qed

lemma rem_all_law:
  "holds s c (xs @ ys) \<Longrightarrow>
     \<exists>s'. rem_all rem c (length xs) s = Some (map Some xs, s') \<and> holds s' c ys"
proof (induction xs arbitrary: s)
  case Nil
  then show ?case by simp
next
  case (Cons x xs)
  obtain s1 where "rem c s = Some (Some x, s1)" "holds s1 c (xs @ ys)"
    using rem_law[of s c x "xs @ ys"] Cons.prems by auto
  with Cons.IH[of s1] show ?case by auto
qed

lemma fifo_order:
  assumes "holds s c xs" "distinct is" "\<forall>i\<in>set is. fresh s i"
  shows "\<exists>s1 s2. ins_all ins c is s = Some s1
    \<and> rem_all rem c (length xs + length is) s1 = Some (map Some (xs @ is), s2)
    \<and> holds s2 c [] \<and> rem c s2 = Some (None, s2)"
proof -
  obtain s1 where s1: "ins_all ins c is s = Some s1" "holds s1 c (xs @ is)"
    using ins_all_law[OF assms] by blast
  obtain s2 where "rem_all rem c (length (xs @ is)) s1 = Some (map Some (xs @ is), s2)" "holds s2 c []"
    using rem_all_law[of s1 c "xs @ is" "[]"] s1(2) by auto
  with s1(1) rem_empty[of s2 c] show ?thesis by auto
qed

end

end
