(* ===== verification/Pcb.thy ===== *)
theory Pcb
  imports Machine Interfaces
begin

text \<open>
  Process control blocks, \<^verbatim>\<open>os/src/pcb.c\<close>: the table and its free list, process queues, and the
  process tree. Each C function is one definition, taking the arguments of the C function and the
  kernel state.

  \<open>pcb_rel s v\<close> relates the kernel state to a \<open>view\<close>: the contents of all its lists as HOL lists
  of table indices. The lemmas are refinement lemmas: each operation is defined on every related
  state, and leads to a state related to the view changed by the corresponding list operation.
\<close>

section \<open>Operations\<close>

definition init_pcbs :: "kstate \<Rightarrow> kstate option" where
  "init_pcbs s = do {
     s \<leftarrow> on_lists (INIT_LIST_HEAD (Some pcb_free)) s;
     for_each [0..<MAX_PROC] (\<lambda>i s. do {
       s \<leftarrow> on_lists (list_add (Some (p_list i)) (Some pcb_free)) s;
       Some (upd_pcb i (\<lambda>p. p\<lparr>p_pid := NULL_PID\<rparr>) s)
     }) s
   }"

definition free_pcb :: "nat option \<Rightarrow> kstate \<Rightarrow> kstate option" where
  "free_pcb p s = (case p of None \<Rightarrow> Some s | Some i \<Rightarrow> do {
     c \<leftarrow> list_contains (p_list i) (Some pcb_free) (lh s);
     if c then Some s else do {
       let s = upd_pcb i (\<lambda>p. p\<lparr>p_pid := NULL_PID\<rparr>) s;
       s \<leftarrow> on_lists (list_sdel (Some (p_list i))) s;
       on_lists (list_add (Some (p_list i)) (Some pcb_free)) s
     }
   })"

text \<open>\<^verbatim>\<open>null_state\<close> of \<^verbatim>\<open>phase2/src/processor.c\<close>.\<close>

definition null_state :: "umps \<Rightarrow> state_t" where
  "null_state U = \<lparr>entry_hi = 0, cause = 0, status = UNINSTALLED U, pc_epc = 0,
     gpr = (\<lambda>_. 0), hi = 0, lo = 0\<rparr>"

definition null_pcb :: "umps \<Rightarrow> nat option \<Rightarrow> kstate \<Rightarrow> (nat option \<times> kstate) option" where
  "null_pcb U t s = (case t of None \<Rightarrow> Some (None, s) | Some i \<Rightarrow> do {
     s \<leftarrow> on_lists (LIST_HEAD_NULL (Some (p_list i))) s;
     s \<leftarrow> on_lists (INIT_LIST_HEAD (Some (p_child i))) s;
     s \<leftarrow> on_lists (LIST_HEAD_NULL (Some (p_sib i))) s;
     Some (Some i, upd_pcb i (\<lambda>p. p\<lparr>p_parent := None, p_time := 0, p_sem_add := 0,
       p_s := null_state U, p_support := 0, p_prio := 0, p_pid := NULL_PID\<rparr>) s)
   })"

definition alloc_pcb :: "umps \<Rightarrow> kstate \<Rightarrow> (nat option \<times> kstate) option" where
  "alloc_pcb U s = do {
     e \<leftarrow> list_empty (Some pcb_free) (lh s);
     if e then Some (None, s) else do {
       first \<leftarrow> get_next (Some pcb_free) (lh s);
       i \<leftarrow> container_of_p_list first;
       s \<leftarrow> on_lists (list_del first) s;
       null_pcb U (Some i) s
     }
   }"

definition mk_empty_proc_q :: "lnode ptr \<Rightarrow> kstate \<Rightarrow> kstate option" where
  "mk_empty_proc_q head s = (if head = None then Some s else on_lists (INIT_LIST_HEAD head) s)"

definition empty_proc_q :: "lnode ptr \<Rightarrow> kstate \<Rightarrow> bool option" where
  "empty_proc_q head s = (if head = None then Some True else list_empty head (lh s))"

definition insert_proc_q :: "lnode ptr \<Rightarrow> nat option \<Rightarrow> kstate \<Rightarrow> kstate option" where
  "insert_proc_q head p s = (case p of None \<Rightarrow> Some s | Some i \<Rightarrow>
     if head = None then Some s else do {
       s \<leftarrow> on_lists (list_sdel (Some (p_list i))) s;
       on_lists (list_add_tail (Some (p_list i)) head) s
     })"

definition head_proc_q :: "lnode ptr \<Rightarrow> kstate \<Rightarrow> nat option option" where
  "head_proc_q head s = (if head = None then Some None else do {
     e \<leftarrow> list_empty head (lh s);
     if e then Some None else do {
       first \<leftarrow> list_next head (lh s);
       i \<leftarrow> container_of_p_list first;
       Some (Some i)
     }
   })"

definition out_proc_q :: "lnode ptr \<Rightarrow> nat option \<Rightarrow> kstate \<Rightarrow> (nat option \<times> kstate) option" where
  "out_proc_q head p s = (if head = None then Some (None, s)
     else case p of None \<Rightarrow> Some (None, s) | Some i \<Rightarrow> do {
       e \<leftarrow> list_empty head (lh s);
       if e then Some (None, s) else do {
         c \<leftarrow> list_contains (p_list i) head (lh s);
         if \<not> c then Some (None, s) else do {
           s \<leftarrow> on_lists (list_sdel (Some (p_list i))) s;
           Some (Some i, s)
         }
       }
     })"

definition remove_proc_q :: "lnode ptr \<Rightarrow> kstate \<Rightarrow> (nat option \<times> kstate) option" where
  "remove_proc_q head s = (if head = None then Some (None, s) else do {
     e \<leftarrow> list_empty head (lh s);
     if e then Some (None, s) else do {
       to_remove \<leftarrow> list_next head (lh s);
       i \<leftarrow> container_of_p_list to_remove;
       out_proc_q head (Some i) s
     }
   })"

definition empty_child :: "nat option \<Rightarrow> kstate \<Rightarrow> bool option" where
  "empty_child p s = (case p of None \<Rightarrow> Some True
     | Some i \<Rightarrow> list_empty (Some (p_child i)) (lh s))"

definition insert_child :: "nat option \<Rightarrow> nat option \<Rightarrow> kstate \<Rightarrow> kstate option" where
  "insert_child prnt p s = (case prnt of None \<Rightarrow> Some s | Some q \<Rightarrow>
     (case p of None \<Rightarrow> Some s | Some i \<Rightarrow>
       if p_parent (pcb_table s i) \<noteq> None then Some s else do {
         c \<leftarrow> list_contains (p_sib i) (Some (p_child q)) (lh s);
         if c then Some s else do {
           let s = upd_pcb i (\<lambda>p. p\<lparr>p_parent := Some q\<rparr>) s;
           on_lists (list_add_tail (Some (p_sib i)) (Some (p_child q))) s
         }
       }))"

definition out_child :: "nat option \<Rightarrow> kstate \<Rightarrow> (nat option \<times> kstate) option" where
  "out_child p s = (case p of None \<Rightarrow> Some (None, s) | Some i \<Rightarrow>
     (case p_parent (pcb_table s i) of None \<Rightarrow> Some (None, s) | Some q \<Rightarrow> do {
       e \<leftarrow> list_empty (Some (p_child q)) (lh s);
       if e then Some (None, s) else do {
         c \<leftarrow> list_contains (p_sib i) (Some (p_child q)) (lh s);
         if \<not> c then Some (None, s) else do {
           s \<leftarrow> on_lists (list_sdel (Some (p_sib i))) s;
           Some (Some i, upd_pcb i (\<lambda>p. p\<lparr>p_parent := None\<rparr>) s)
         }
       }
     }))"

definition remove_child :: "nat option \<Rightarrow> kstate \<Rightarrow> (nat option \<times> kstate) option" where
  "remove_child p s = (case p of None \<Rightarrow> Some (None, s) | Some q \<Rightarrow> do {
     e \<leftarrow> list_empty (Some (p_child q)) (lh s);
     if e then Some (None, s) else do {
       first \<leftarrow> list_next (Some (p_child q)) (lh s);
       i \<leftarrow> container_of_p_sib first;
       out_child (Some i) s
     }
   })"

section \<open>The view of the lists\<close>

record view =
  v_free :: "nat list"
  v_lo :: "nat list"
  v_hi :: "nat list"
  v_sfree :: "nat list"
  v_sact :: "nat list"
  v_procq :: "nat \<Rightarrow> nat list"
  v_child :: "nat \<Rightarrow> nat list"

definition live :: "view \<Rightarrow> nat \<Rightarrow> bool" where
  "live v i \<longleftrightarrow> i < MAX_PROC \<and> i \<notin> set (v_free v)"

fun rings_of :: "view \<Rightarrow> lnode \<rightharpoonup> lnode list" where
  "rings_of v pcb_free = Some (map p_list (v_free v))"
| "rings_of v ready_queue_lo = Some (map p_list (v_lo v))"
| "rings_of v ready_queue_hi = Some (map p_list (v_hi v))"
| "rings_of v semd_free = Some (map s_link (v_sfree v))"
| "rings_of v semd_h = Some (map s_link (v_sact v))"
| "rings_of v (s_procq j) = (if j \<in> set (v_sact v) then Some (map p_list (v_procq v j)) else None)"
| "rings_of v (p_child i) = (if live v i then Some (map p_sib (v_child v i)) else None)"
| "rings_of v _ = None"

text \<open>Where a process is: on some queue, blocked, a child of some process.\<close>

definition blocked :: "view \<Rightarrow> nat \<Rightarrow> bool" where
  "blocked v i \<longleftrightarrow> (\<exists>j\<in>set (v_sact v). i \<in> set (v_procq v j))"

definition queued :: "view \<Rightarrow> nat \<Rightarrow> bool" where
  "queued v i \<longleftrightarrow> i \<in> set (v_free v) \<or> i \<in> set (v_lo v) \<or> i \<in> set (v_hi v) \<or> blocked v i"

definition child_of :: "view \<Rightarrow> nat \<Rightarrow> nat \<Rightarrow> bool" where
  "child_of v i q \<longleftrightarrow> live v q \<and> i \<in> set (v_child v q)"

text \<open>
  The relation between state and view: the heap holds the rings of the view; a process on no list
  has NULL links; indices stay inside the table; parent pointers and child lists agree.
\<close>

definition pcb_rel :: "kstate \<Rightarrow> view \<Rightarrow> bool" where
  "pcb_rel s v \<longleftrightarrow>
     rings (lh s) (rings_of v)
   \<and> (\<forall>i<MAX_PROC. \<not> queued v i \<longrightarrow> nulled (lh s) (p_list i))
   \<and> (\<forall>i<MAX_PROC. (\<forall>q. \<not> child_of v i q) \<longrightarrow> nulled (lh s) (p_sib i))
   \<and> (\<forall>i. queued v i \<longrightarrow> i < MAX_PROC)
   \<and> (\<forall>i q. child_of v i q \<longrightarrow> live v i)
   \<and> (\<forall>i q. live v i \<longrightarrow> (p_parent (pcb_table s i) = Some q \<longleftrightarrow> child_of v i q))"

text \<open>The process queues: the two ready queues and the queue of each active semaphore.\<close>

fun is_queue :: "view \<Rightarrow> lnode \<Rightarrow> bool" where
  "is_queue v ready_queue_lo \<longleftrightarrow> True"
| "is_queue v ready_queue_hi \<longleftrightarrow> True"
| "is_queue v (s_procq j) \<longleftrightarrow> j \<in> set (v_sact v)"
| "is_queue v _ \<longleftrightarrow> False"

fun queue_of :: "view \<Rightarrow> lnode \<Rightarrow> nat list" where
  "queue_of v ready_queue_lo = v_lo v"
| "queue_of v ready_queue_hi = v_hi v"
| "queue_of v (s_procq j) = v_procq v j"
| "queue_of v _ = []"

fun set_queue :: "view \<Rightarrow> lnode \<Rightarrow> nat list \<Rightarrow> view" where
  "set_queue v ready_queue_lo xs = v\<lparr>v_lo := xs\<rparr>"
| "set_queue v ready_queue_hi xs = v\<lparr>v_hi := xs\<rparr>"
| "set_queue v (s_procq j) xs = v\<lparr>v_procq := (v_procq v)(j := xs)\<rparr>"
| "set_queue v _ xs = v"

section \<open>Lemmas on the view\<close>

lemma rings_of_queue: "is_queue v c \<Longrightarrow> rings_of v c = Some (map p_list (queue_of v c))"
  by (cases "(v, c)" rule: is_queue.cases) auto

lemma rings_of_set_queue:
  assumes "is_queue v c"
  shows "rings_of (set_queue v c xs) = (rings_of v)(c \<mapsto> map p_list xs)"
proof
  fix n
  show "rings_of (set_queue v c xs) n = ((rings_of v)(c \<mapsto> map p_list xs)) n"
    using assms by (cases c; cases n) (auto simp: live_def)
qed

lemma set_queue_same [simp]:
  "v_free (set_queue v c xs) = v_free v" "v_child (set_queue v c xs) = v_child v"
  "v_sact (set_queue v c xs) = v_sact v" "v_sfree (set_queue v c xs) = v_sfree v"
  "live (set_queue v c xs) = live v" "child_of (set_queue v c xs) = child_of v"
  "is_queue (set_queue v c xs) d = is_queue v d"
  by (cases c; auto simp: live_def child_of_def fun_eq_iff; cases d; auto)+

lemma queue_of_set_queue:
  "is_queue v c \<Longrightarrow> queue_of (set_queue v c xs) d = (if d = c then xs else queue_of v d)"
  by (cases c; cases d) auto

lemma queued_queues: "queued v i \<longleftrightarrow> i \<in> set (v_free v) \<or> (\<exists>c. is_queue v c \<and> i \<in> set (queue_of v c))"
proof
  assume "queued v i"
  then consider "i \<in> set (v_free v)" | "i \<in> set (v_lo v)" | "i \<in> set (v_hi v)"
    | j where "j \<in> set (v_sact v)" "i \<in> set (v_procq v j)"
    by (auto simp: queued_def blocked_def)
  then show "i \<in> set (v_free v) \<or> (\<exists>c. is_queue v c \<and> i \<in> set (queue_of v c))"
    by cases (metis is_queue.simps queue_of.simps)+
next
  assume "i \<in> set (v_free v) \<or> (\<exists>c. is_queue v c \<and> i \<in> set (queue_of v c))"
  then show "queued v i"
  proof
    assume "\<exists>c. is_queue v c \<and> i \<in> set (queue_of v c)"
    then obtain c where "is_queue v c" "i \<in> set (queue_of v c)" by blast
    then show ?thesis by (cases c) (auto simp: queued_def blocked_def)
  qed (simp add: queued_def)
qed

lemma p_list_ring_nodes: "p_list i \<in> ring_nodes (rings_of v) \<longleftrightarrow> queued v i"
proof
  assume "p_list i \<in> ring_nodes (rings_of v)"
  then obtain c xs where "rings_of v c = Some xs" "p_list i \<in> insert c (set xs)"
    by (auto simp: ring_nodes_def)
  then show "queued v i"
    by (cases c) (auto simp: queued_def blocked_def split: if_splits)
next
  assume "queued v i"
  then consider "i \<in> set (v_free v)" | c where "is_queue v c" "i \<in> set (queue_of v c)"
    by (auto simp: queued_queues)
  then show "p_list i \<in> ring_nodes (rings_of v)"
    by cases (auto intro: ring_nodesI[of _ pcb_free] ring_nodesI[OF rings_of_queue])
qed

lemma p_sib_ring_nodes: "p_sib i \<in> ring_nodes (rings_of v) \<longleftrightarrow> (\<exists>q. child_of v i q)"
proof
  assume "p_sib i \<in> ring_nodes (rings_of v)"
  then obtain c xs where "rings_of v c = Some xs" "p_sib i \<in> insert c (set xs)"
    by (auto simp: ring_nodes_def)
  then show "\<exists>q. child_of v i q"
    by (cases c) (auto simp: child_of_def split: if_splits)
next
  assume "\<exists>q. child_of v i q"
  then obtain q where "child_of v i q" by blast
  then show "p_sib i \<in> ring_nodes (rings_of v)"
    using ring_nodesI[of "rings_of v" "p_child q" _ "p_sib i"] by (auto simp: child_of_def)
qed

lemma head_ring_nodes: "p_child i \<in> ring_nodes (rings_of v) \<longleftrightarrow> live v i"
proof
  assume "p_child i \<in> ring_nodes (rings_of v)"
  then obtain c xs where "rings_of v c = Some xs" "p_child i \<in> insert c (set xs)"
    by (auto simp: ring_nodes_def)
  then show "live v i" by (cases c) (auto split: if_splits)
next
  assume "live v i"
  then show "p_child i \<in> ring_nodes (rings_of v)"
    using ring_nodesI[of "rings_of v" "p_child i" _ "p_child i"] by auto
qed

section \<open>Facts of related states\<close>

lemma pcb_relD:
  assumes "pcb_rel s v"
  shows "rings (lh s) (rings_of v)"
    and "i < MAX_PROC \<Longrightarrow> \<not> queued v i \<Longrightarrow> nulled (lh s) (p_list i)"
    and "i < MAX_PROC \<Longrightarrow> \<forall>q. \<not> child_of v i q \<Longrightarrow> nulled (lh s) (p_sib i)"
    and "queued v i \<Longrightarrow> i < MAX_PROC"
    and "child_of v i q \<Longrightarrow> live v i"
    and "live v i \<Longrightarrow> p_parent (pcb_table s i) = Some q \<longleftrightarrow> child_of v i q"
  using assms by (auto simp: pcb_rel_def)

lemma pcb_rel_ring:
  assumes "pcb_rel s v"
  shows "ring (lh s) pcb_free (map p_list (v_free v))"
    and "is_queue v c \<Longrightarrow> ring (lh s) c (map p_list (queue_of v c))"
    and "live v i \<Longrightarrow> ring (lh s) (p_child i) (map p_sib (v_child v i))"
  using rings_ring[OF pcb_relD(1)[OF assms]] rings_of_queue by force+

lemma distinct_map_p_list [simp]: "distinct (map p_list xs) = distinct xs"
  by (simp add: distinct_map inj_on_def)

lemma distinct_map_p_sib [simp]: "distinct (map p_sib xs) = distinct xs"
  by (simp add: distinct_map inj_on_def)

lemma remove1_map_p_list [simp]: "remove1 (p_list i) (map p_list xs) = map p_list (remove1 i xs)"
  by (induction xs) auto

lemma remove1_map_p_sib [simp]: "remove1 (p_sib i) (map p_sib xs) = map p_sib (remove1 i xs)"
  by (induction xs) auto

lemma pcb_rel_distinct:
  assumes "pcb_rel s v"
  shows "distinct (v_free v)" and "is_queue v c \<Longrightarrow> distinct (queue_of v c)"
    and "live v q \<Longrightarrow> distinct (v_child v q)"
  using pcb_rel_ring[OF assms, THEN ring_distinct] by auto

lemma queues_disjoint:
  assumes "pcb_rel s v" "is_queue v c" "i \<in> set (queue_of v c)"
  shows "i \<notin> set (v_free v)" and "is_queue v d \<Longrightarrow> d \<noteq> c \<Longrightarrow> i \<notin> set (queue_of v d)"
proof -
  note R = pcb_relD(1)[OF assms(1)] rings_of_queue[OF assms(2)]
  have "pcb_free \<noteq> c" using assms(2) by auto
  then show "i \<notin> set (v_free v)"
    using rings_disjoint[OF R(1,2), of pcb_free] assms(3) by auto
  show "i \<notin> set (queue_of v d)" if "is_queue v d" "d \<noteq> c"
    using rings_disjoint[OF R rings_of_queue[OF that(1)]] that(2) assms(3) by auto
qed

lemma child_unique:
  assumes "pcb_rel s v" "child_of v i q" "child_of v i r"
  shows "r = q"
proof (rule ccontr)
  assume "r \<noteq> q"
  with rings_disjoint[OF pcb_relD(1)[OF assms(1)], of "p_child q" "map p_sib (v_child v q)"
      "p_child r" "map p_sib (v_child v r)"] assms(2,3)
  show False by (auto simp: child_of_def)
qed

text \<open>
  What it takes to stay related when only queue links change: the rest of the relation speaks of
  siblings and parents, which lie outside the queues.
\<close>

lemma pcb_rel_set_queue:
  assumes rel: "pcb_rel s v" and q: "is_queue v c"
    and rings: "rings h (rings_of (set_queue v c xs))"
    and same: "same_on (- (insert c (range p_list))) (lh s) h"
    and null: "\<And>k. k < MAX_PROC \<Longrightarrow> \<not> queued (set_queue v c xs) k \<Longrightarrow> nulled h (p_list k)"
    and xs: "\<And>k. k \<in> set xs \<Longrightarrow> k < MAX_PROC"
  shows "pcb_rel (s\<lparr>lh := h\<rparr>) (set_queue v c xs)"
proof -
  have "nulled h (p_sib k)" if "k < MAX_PROC" "\<forall>q. \<not> child_of v k q" for k
  proof -
    have "p_sib k \<noteq> c" using q by auto
    then show ?thesis
      using same_on_nulled[OF same, of "p_sib k"] pcb_relD(3)[OF rel that] by auto
  qed
  moreover have "k < MAX_PROC" if "queued (set_queue v c xs) k" for k
    using that xs pcb_relD(4)[OF rel, of k] q
    by (auto simp: queued_queues queue_of_set_queue split: if_splits)
  ultimately show ?thesis
    using pcb_relD(5,6)[OF rel] rings null by (simp add: pcb_rel_def)
qed

lemma out_queue_step:
  assumes "pcb_rel s v" "is_queue v c" "i \<in> set (queue_of v c)"
  shows "\<exists>h. on_lists (list_sdel (Some (p_list i))) s = Some (s\<lparr>lh := h\<rparr>)
    \<and> pcb_rel (s\<lparr>lh := h\<rparr>) (set_queue v c (remove1 i (queue_of v c)))"
proof -
  let ?xs = "map p_list (queue_of v c)" and ?v = "set_queue v c (remove1 i (queue_of v c))"
  obtain h where h: "list_sdel (Some (p_list i)) (lh s) = Some h"
    "rings h ((rings_of v)(c \<mapsto> remove1 (p_list i) ?xs))" "nulled h (p_list i)"
    "same_on (- (insert c (set ?xs))) (lh s) h"
    using rings_sdel[OF pcb_relD(1)[OF assms(1)] rings_of_queue[OF assms(2)], of "p_list i"] assms(3)
    by auto
  have "pcb_rel (s\<lparr>lh := h\<rparr>) ?v"
  proof (rule pcb_rel_set_queue[OF assms(1,2)])
    show "rings h (rings_of ?v)" using h(2) by (simp add: rings_of_set_queue[OF assms(2)])
    show "same_on (- (insert c (range p_list))) (lh s) h"
      using h(4) by (rule same_on_subset) auto
    show "k < MAX_PROC" if "k \<in> set (remove1 i (queue_of v c))" for k
      using that pcb_relD(4)[OF assms(1), of k] assms(2) notin_set_remove1[of k]
      by (auto simp: queued_queues dest: set_remove1_subset[THEN subsetD])
  next
    fix k assume k: "k < MAX_PROC" "\<not> queued ?v k"
    show "nulled h (p_list k)"
    proof (cases "k = i")
      case False
      then have "k \<notin> set (queue_of v c)" "\<not> queued v k"
        using k(2) assms(2) by (auto simp: queued_queues queue_of_set_queue split: if_splits)
      moreover have "p_list k \<noteq> c" using assms(2) by auto
      ultimately show ?thesis
        using same_on_nulled[OF h(4), of "p_list k"] pcb_relD(2)[OF assms(1) k(1)] by auto
    qed (simp add: h(3))
  qed
  with h(1) show ?thesis by (intro exI[of _ h]) (simp add: on_lists_Some)
qed

lemma in_queue_step:
  assumes "pcb_rel s v" "is_queue v c" "\<not> queued v i" "i < MAX_PROC"
  shows "\<exists>h. on_lists (list_add_tail (Some (p_list i)) (Some c)) s = Some (s\<lparr>lh := h\<rparr>)
    \<and> pcb_rel (s\<lparr>lh := h\<rparr>) (set_queue v c (queue_of v c @ [i]))"
proof -
  let ?xs = "map p_list (queue_of v c)" and ?v = "set_queue v c (queue_of v c @ [i])"
  obtain h where h: "list_add_tail (Some (p_list i)) (Some c) (lh s) = Some h"
    "rings h ((rings_of v)(c \<mapsto> ?xs @ [p_list i]))"
    "same_on (- (insert (p_list i) (insert c (set ?xs)))) (lh s) h"
    using rings_add_tail[OF pcb_relD(1)[OF assms(1)] rings_of_queue[OF assms(2)], of "p_list i"]
      assms(3) by (auto simp: p_list_ring_nodes)
  have "pcb_rel (s\<lparr>lh := h\<rparr>) ?v"
  proof (rule pcb_rel_set_queue[OF assms(1,2)])
    show "rings h (rings_of ?v)" using h(2) by (simp add: rings_of_set_queue[OF assms(2)])
    show "same_on (- (insert c (range p_list))) (lh s) h"
      using h(3) by (rule same_on_subset) auto
    show "k < MAX_PROC" if "k \<in> set (queue_of v c @ [i])" for k
      using that pcb_relD(4)[OF assms(1), of k] assms(2,4) by (auto simp: queued_queues)
  next
    fix k assume k: "k < MAX_PROC" "\<not> queued ?v k"
    then have "k \<noteq> i" "k \<notin> set (queue_of v c)" "\<not> queued v k"
      using assms(2) by (auto simp: queued_queues queue_of_set_queue split: if_splits)
    moreover have "p_list k \<noteq> c" using assms(2) by auto
    ultimately show "nulled h (p_list k)"
      using same_on_nulled[OF h(3), of "p_list k"] pcb_relD(2)[OF assms(1) k(1)] by auto
  qed
  with h(1) show ?thesis by (intro exI[of _ h]) (simp add: on_lists_Some)
qed

section \<open>Process queues\<close>

lemma insert_proc_q_detached:
  assumes "pcb_rel s v" "is_queue v c" "\<not> queued v i" "i < MAX_PROC"
  shows "\<exists>h. insert_proc_q (Some c) (Some i) s = Some (s\<lparr>lh := h\<rparr>)
    \<and> pcb_rel (s\<lparr>lh := h\<rparr>) (set_queue v c (queue_of v c @ [i]))"
proof -
  have "on_lists (list_sdel (Some (p_list i))) s = Some s"
    using list_sdel_nulled[OF pcb_relD(2)[OF assms(1,4,3)]] by (simp add: on_lists_def)
  with in_queue_step[OF assms] show ?thesis by (auto simp: insert_proc_q_def)
qed

lemma queued_after_out:
  assumes "pcb_rel s v" "is_queue v c" "i \<in> set (queue_of v c)"
  shows "\<not> queued (set_queue v c (remove1 i (queue_of v c))) i"
  using queues_disjoint[OF assms] pcb_rel_distinct(2)[OF assms(1,2)] assms(2)
  by (auto simp: queued_queues queue_of_set_queue split: if_splits)

lemma insert_proc_q_queued:
  assumes "pcb_rel s v" "is_queue v c" "is_queue v d" "i \<in> set (queue_of v d)"
    and "v1 = set_queue v d (remove1 i (queue_of v d))"
  shows "\<exists>h. insert_proc_q (Some c) (Some i) s = Some (s\<lparr>lh := h\<rparr>)
    \<and> pcb_rel (s\<lparr>lh := h\<rparr>) (set_queue v1 c (queue_of v1 c @ [i]))"
proof -
  obtain h where h: "on_lists (list_sdel (Some (p_list i))) s = Some (s\<lparr>lh := h\<rparr>)"
    "pcb_rel (s\<lparr>lh := h\<rparr>) v1"
    using out_queue_step[OF assms(1,3,4)] assms(5) by blast
  have "i < MAX_PROC" using pcb_relD(4)[OF assms(1)] assms(3,4) by (auto simp: queued_queues)
  moreover have "\<not> queued v1 i" using queued_after_out[OF assms(1,3,4)] assms(5) by simp
  moreover have "is_queue v1 c" using assms(2,5) by simp
  ultimately obtain h2 where
    "on_lists (list_add_tail (Some (p_list i)) (Some c)) (s\<lparr>lh := h\<rparr>) = Some (s\<lparr>lh := h, lh := h2\<rparr>)"
    "pcb_rel (s\<lparr>lh := h, lh := h2\<rparr>) (set_queue v1 c (queue_of v1 c @ [i]))"
    using in_queue_step[OF h(2)] by blast
  with h(1) show ?thesis by (auto simp: insert_proc_q_def)
qed

lemma out_proc_q_in:
  assumes "pcb_rel s v" "is_queue v c" "i \<in> set (queue_of v c)"
  shows "\<exists>h. out_proc_q (Some c) (Some i) s = Some (Some i, s\<lparr>lh := h\<rparr>)
    \<and> pcb_rel (s\<lparr>lh := h\<rparr>) (set_queue v c (remove1 i (queue_of v c)))"
  using out_queue_step[OF assms] assms(3) pcb_rel_ring(2)[OF assms(1,2)]
  by (auto simp: out_proc_q_def ring_rules)

lemma out_proc_q_notin:
  assumes "pcb_rel s v" "is_queue v c" "i \<notin> set (queue_of v c)"
  shows "out_proc_q (Some c) (Some i) s = Some (None, s)"
  using assms(3) pcb_rel_ring(2)[OF assms(1,2)]
  by (auto simp: out_proc_q_def ring_rules)

lemma remove_proc_q_Nil:
  assumes "pcb_rel s v" "is_queue v c" "queue_of v c = []"
  shows "remove_proc_q (Some c) s = Some (None, s)"
  using pcb_rel_ring(2)[OF assms(1,2)] assms(3)
  by (simp add: remove_proc_q_def list_empty_ring del: ring_Nil)

lemma remove_proc_q_Cons:
  assumes "pcb_rel s v" "is_queue v c" "queue_of v c = i # is"
  shows "\<exists>h. remove_proc_q (Some c) s = Some (Some i, s\<lparr>lh := h\<rparr>)
    \<and> pcb_rel (s\<lparr>lh := h\<rparr>) (set_queue v c is)"
  using out_proc_q_in[OF assms(1,2), of i] pcb_rel_ring(2)[OF assms(1,2)] assms(3)
  by (auto simp: remove_proc_q_def ring_rules)

lemma head_proc_q_rel:
  assumes "pcb_rel s v" "is_queue v c"
  shows "head_proc_q (Some c) s = Some (case queue_of v c of [] \<Rightarrow> None | i # _ \<Rightarrow> Some i)"
  using pcb_rel_ring(2)[OF assms]
  by (cases "queue_of v c") (simp_all add: head_proc_q_def list_empty_ring list_next_ring del: ring_Nil)

lemma empty_proc_q_rel:
  assumes "pcb_rel s v" "is_queue v c"
  shows "empty_proc_q (Some c) s = Some (queue_of v c = [])"
  using pcb_rel_ring(2)[OF assms] by (simp add: empty_proc_q_def list_empty_ring del: ring_Nil)

text \<open>The process queues implement the contract of a queue.\<close>

definition holds_proc_q :: "kstate \<Rightarrow> lnode \<Rightarrow> nat list \<Rightarrow> bool" where
  "holds_proc_q s c xs \<longleftrightarrow> (\<exists>v. pcb_rel s v \<and> is_queue v c \<and> queue_of v c = xs)"

definition detached :: "kstate \<Rightarrow> nat \<Rightarrow> bool" where
  "detached s i \<longleftrightarrow> i < MAX_PROC \<and> nulled (lh s) (p_list i)"

lemma detached_iff: "pcb_rel s v \<Longrightarrow> detached s i \<longleftrightarrow> i < MAX_PROC \<and> \<not> queued v i"
proof -
  assume rel: "pcb_rel s v"
  have "\<not> nulled (lh s) (p_list i)" if "queued v i"
  proof -
    have "p_list i \<in> ring_nodes (rings_of v)" using that by (simp add: p_list_ring_nodes)
    then obtain c xs where "rings_of v c = Some xs" "p_list i \<in> insert c (set xs)"
      by (auto simp: ring_nodes_def)
    then show ?thesis using ring_not_nulled[OF rings_ring[OF pcb_relD(1)[OF rel]]] by blast
  qed
  then show ?thesis using pcb_relD(2)[OF rel] by (auto simp: detached_def)
qed

interpretation proc_q: fifo holds_proc_q detached
  "\<lambda>c i. insert_proc_q (Some c) (Some i)" "\<lambda>c. remove_proc_q (Some c)"
proof unfold_locales
  fix s c xs i
  assume "holds_proc_q s c xs" "detached s i"
  then obtain v where v: "pcb_rel s v" "is_queue v c" "queue_of v c = xs"
    "i < MAX_PROC" "\<not> queued v i" by (auto simp: holds_proc_q_def detached_iff)
  let ?v = "set_queue v c (xs @ [i])"
  obtain h where h: "insert_proc_q (Some c) (Some i) s = Some (s\<lparr>lh := h\<rparr>)" "pcb_rel (s\<lparr>lh := h\<rparr>) ?v"
    using insert_proc_q_detached[OF v(1,2,5,4)] v(3) by blast
  have "\<not> queued ?v k" if "k \<noteq> i" "\<not> queued v k" for k
    using that v(2,3) by (auto simp: queued_queues queue_of_set_queue split: if_splits)
  then have "\<forall>k. k \<noteq> i \<longrightarrow> detached s k \<longrightarrow> detached (s\<lparr>lh := h\<rparr>) k"
    using detached_iff[OF v(1)] detached_iff[OF h(2)] by blast
  moreover have "holds_proc_q (s\<lparr>lh := h\<rparr>) c (xs @ [i])"
    unfolding holds_proc_q_def using h(2) v(2) by (intro exI[of _ ?v]) (simp add: queue_of_set_queue)
  ultimately show "\<exists>s'. insert_proc_q (Some c) (Some i) s = Some s' \<and> holds_proc_q s' c (xs @ [i])
      \<and> (\<forall>k. k \<noteq> i \<longrightarrow> detached s k \<longrightarrow> detached s' k)"
    using h(1) by blast
next
  fix s c x xs
  assume "holds_proc_q s c (x # xs)"
  then obtain v where v: "pcb_rel s v" "is_queue v c" "queue_of v c = x # xs"
    by (auto simp: holds_proc_q_def)
  then show "\<exists>s'. remove_proc_q (Some c) s = Some (Some x, s') \<and> holds_proc_q s' c xs"
    using remove_proc_q_Cons[OF v] unfolding holds_proc_q_def
    by (auto simp: queue_of_set_queue intro!: exI[of _ "set_queue v c xs"])
next
  fix s c
  assume "holds_proc_q s c []"
  then show "remove_proc_q (Some c) s = Some (None, s)"
    using remove_proc_q_Nil by (auto simp: holds_proc_q_def)
qed

section \<open>Allocation\<close>

definition cleared_pcb :: "umps \<Rightarrow> pcb_t" where
  "cleared_pcb U = \<lparr>p_parent = None, p_s = null_state U, p_time = 0, p_sem_add = 0,
     p_support = 0, p_prio = 0, p_pid = NULL_PID\<rparr>"

definition alloc_view :: "nat \<Rightarrow> view \<Rightarrow> view" where
  "alloc_view i v = v\<lparr>v_free := tl (v_free v), v_child := (v_child v)(i := [])\<rparr>"

definition free_view :: "nat \<Rightarrow> view \<Rightarrow> view" where
  "free_view i v = v\<lparr>v_free := i # v_free v\<rparr>"

lemma clear_pcb:
  "p\<lparr>p_parent := None, p_time := 0, p_sem_add := 0, p_s := null_state U, p_support := 0,
     p_prio := 0, p_pid := NULL_PID\<rparr> = cleared_pcb U"
  by (cases p) (simp add: cleared_pcb_def)

lemma LIST_HEAD_NULL_off:
  assumes "rings h R" "n \<notin> ring_nodes R"
  shows "\<exists>h'. LIST_HEAD_NULL (Some n) h = Some h' \<and> rings h' R \<and> nulled h' n \<and> same_on (- {n}) h h'"
proof -
  let ?h = "h\<lparr>l_next := (l_next h)(n := None), l_prev := (l_prev h)(n := None)\<rparr>"
  have s: "same_on (- {n}) h ?h" by (simp add: same_on_def)
  with rings_off[OF assms(1) this] assms(2) show ?thesis
    by (intro exI[of _ ?h]) (simp add: LIST_HEAD_NULL_def nulled_def)
qed

lemma null_pcb_rings:
  assumes "rings (lh s) R" "p_list i \<notin> ring_nodes R" "p_child i \<notin> ring_nodes R" "p_sib i \<notin> ring_nodes R"
  shows "\<exists>h. null_pcb U (Some i) s
      = Some (Some i, s\<lparr>lh := h, pcb_table := (pcb_table s)(i := cleared_pcb U)\<rparr>)
    \<and> rings h (R(p_child i \<mapsto> [])) \<and> nulled h (p_list i) \<and> nulled h (p_sib i)
    \<and> same_on (- {p_list i, p_child i, p_sib i}) (lh s) h"
proof -
  obtain h1 where h1: "LIST_HEAD_NULL (Some (p_list i)) (lh s) = Some h1" "rings h1 R"
    "nulled h1 (p_list i)" "same_on (- {p_list i}) (lh s) h1"
    using LIST_HEAD_NULL_off[OF assms(1,2)] by blast
  obtain h2 where h2: "INIT_LIST_HEAD (Some (p_child i)) h1 = Some h2" "rings h2 (R(p_child i \<mapsto> []))"
    "same_on (- {p_child i}) h1 h2"
    using rings_init[OF h1(2) assms(3)] by blast
  have "p_sib i \<notin> ring_nodes (R(p_child i \<mapsto> []))"
    using assms(4) by (auto simp: ring_nodes_def split: if_splits)
  then obtain h3 where h3: "LIST_HEAD_NULL (Some (p_sib i)) h2 = Some h3"
    "rings h3 (R(p_child i \<mapsto> []))" "nulled h3 (p_sib i)" "same_on (- {p_sib i}) h2 h3"
    using LIST_HEAD_NULL_off[OF h2(2)] by blast
  have "nulled h3 (p_list i)"
    using h1(3) same_on_nulled[OF h2(3), of "p_list i"] same_on_nulled[OF h3(4), of "p_list i"] by simp
  moreover have "same_on (- {p_list i, p_child i, p_sib i}) (lh s) h3"
    using h1(4) h2(3) h3(4) by (simp add: same_on_def)
  ultimately show ?thesis
    using h1(1) h2(1) h3 by (intro exI[of _ h3])
      (simp add: null_pcb_def on_lists_def upd_pcb_def clear_pcb)
qed

lemma alloc_view_facts:
  assumes "pcb_rel s v" "v_free v = i # fs"
  shows "i < MAX_PROC" "i \<notin> set fs" "\<not> live v i" "v_free (alloc_view i v) = fs"
    and "live (alloc_view i v) k \<longleftrightarrow> live v k \<or> k = i"
    and "child_of (alloc_view i v) k q \<longleftrightarrow> child_of v k q"
    and "queued (alloc_view i v) k \<longleftrightarrow> queued v k \<and> k \<noteq> i"
    and "rings_of (alloc_view i v) = (rings_of v)(pcb_free \<mapsto> map p_list fs, p_child i \<mapsto> [])"
proof -
  show i: "i < MAX_PROC" "i \<notin> set fs" "\<not> live v i"
    using pcb_relD(4)[OF assms(1), of i] pcb_rel_distinct(1)[OF assms(1)] assms(2)
    by (auto simp: queued_def live_def)
  show "v_free (alloc_view i v) = fs" using assms(2) by (simp add: alloc_view_def)
  show live: "live (alloc_view i v) k \<longleftrightarrow> live v k \<or> k = i" for k
    using i assms(2) by (auto simp: live_def alloc_view_def)
  show "child_of (alloc_view i v) k q \<longleftrightarrow> child_of v k q"
    using live[of q] i(3) by (auto simp: child_of_def alloc_view_def)
  have q: "i \<notin> set (queue_of v c)" if "is_queue v c" for c
    using queues_disjoint(1)[OF assms(1) that, of i] assms(2) by auto
  show "queued (alloc_view i v) k \<longleftrightarrow> queued v k \<and> k \<noteq> i"
    using q[of ready_queue_lo] q[of ready_queue_hi] q[of "s_procq _"] i(2) assms(2)
    by (auto simp: queued_def blocked_def alloc_view_def)
  show "rings_of (alloc_view i v) = (rings_of v)(pcb_free \<mapsto> map p_list fs, p_child i \<mapsto> [])"
  proof
    fix n
    show "rings_of (alloc_view i v) n = ((rings_of v)(pcb_free \<mapsto> map p_list fs, p_child i \<mapsto> [])) n"
      using live i(3) assms(2) by (cases n) (auto simp: alloc_view_def)
  qed
qed

lemma alloc_pcb_Nil:
  assumes "pcb_rel s v" "v_free v = []"
  shows "alloc_pcb U s = Some (None, s)"
  using pcb_rel_ring(1)[OF assms(1)] assms(2)
  by (simp add: alloc_pcb_def list_empty_ring del: ring_Nil)

lemma alloc_pcb_Cons:
  assumes "pcb_rel s v" "v_free v = i # fs"
  shows "\<exists>h. alloc_pcb U s
      = Some (Some i, s\<lparr>lh := h, pcb_table := (pcb_table s)(i := cleared_pcb U)\<rparr>)
    \<and> pcb_rel (s\<lparr>lh := h, pcb_table := (pcb_table s)(i := cleared_pcb U)\<rparr>) (alloc_view i v)"
proof -
  note R = pcb_relD(1)[OF assms(1)] and F = alloc_view_facts[OF assms]
  let ?R = "(rings_of v)(pcb_free \<mapsto> map p_list fs)"
  have free: "rings_of v pcb_free = Some (map p_list (i # fs))" using assms(2) by simp
  obtain h1 where h1: "list_del (Some (p_list i)) (lh s) = Some h1" "rings h1 ?R"
    "same_on (- (insert pcb_free (set (map p_list (i # fs)) - {p_list i}))) (lh s) h1"
    using rings_del[OF R free, of "p_list i"] by auto
  have nodes: "ring_nodes ?R = (ring_nodes (rings_of v) - p_list ` set (i # fs)) \<union> insert pcb_free (p_list ` set fs)"
    using ring_nodes_upd[OF R free, of "map p_list fs"] by simp
  have "p_list i \<notin> ring_nodes ?R" using nodes F(2) by auto
  moreover have "p_child i \<notin> ring_nodes ?R" using nodes F(3) by (auto simp: head_ring_nodes)
  moreover have "p_sib i \<notin> ring_nodes ?R"
  proof -
    have "\<nexists>q. child_of v i q" using F(3) pcb_relD(5)[OF assms(1)] by blast
    then show ?thesis unfolding nodes by (simp add: p_sib_ring_nodes image_iff)
  qed
  moreover have "rings (lh (s\<lparr>lh := h1\<rparr>)) ?R" using h1(2) by simp
  ultimately obtain h where h: "null_pcb U (Some i) (s\<lparr>lh := h1\<rparr>)
      = Some (Some i, s\<lparr>lh := h, pcb_table := (pcb_table s)(i := cleared_pcb U)\<rparr>)"
    "rings h (?R(p_child i \<mapsto> []))" "nulled h (p_list i)" "nulled h (p_sib i)"
    "same_on (- {p_list i, p_child i, p_sib i}) h1 h"
    using null_pcb_rings[of "s\<lparr>lh := h1\<rparr>" ?R i U] by auto
  have same: "same_on (- (insert pcb_free (p_list ` set (i # fs) \<union> {p_child i, p_sib i}))) (lh s) h"
    using h1(3) h(5) by (auto simp: same_on_def)
  have "alloc_pcb U s = Some (Some i, s\<lparr>lh := h, pcb_table := (pcb_table s)(i := cleared_pcb U)\<rparr>)"
    using h1(1) h(1) pcb_rel_ring(1)[OF assms(1)] ring_next[OF pcb_rel_ring(1)[OF assms(1)]] assms(2)
    by (simp add: alloc_pcb_def list_empty_ring on_lists_def)
  moreover have "pcb_rel (s\<lparr>lh := h, pcb_table := (pcb_table s)(i := cleared_pcb U)\<rparr>) (alloc_view i v)"
    unfolding pcb_rel_def
  proof (intro conjI allI impI)
    show "rings (lh (s\<lparr>lh := h, pcb_table := (pcb_table s)(i := cleared_pcb U)\<rparr>)) (rings_of (alloc_view i v))"
      using h(2) F(8) by simp
  next
    fix k assume k: "k < MAX_PROC" "\<not> queued (alloc_view i v) k"
    show "nulled (lh (s\<lparr>lh := h, pcb_table := (pcb_table s)(i := cleared_pcb U)\<rparr>)) (p_list k)"
    proof (cases "k = i")
      case False
      then have "\<not> queued v k" using k(2) F(7) by simp
      moreover then have "k \<notin> set fs" using assms(2) by (auto simp: queued_def)
      ultimately show ?thesis
        using False same_on_nulled[OF same, of "p_list k"] pcb_relD(2)[OF assms(1) k(1)] by auto
    qed (simp add: h(3))
  next
    fix k assume k: "k < MAX_PROC" "\<forall>q. \<not> child_of (alloc_view i v) k q"
    show "nulled (lh (s\<lparr>lh := h, pcb_table := (pcb_table s)(i := cleared_pcb U)\<rparr>)) (p_sib k)"
    proof (cases "k = i")
      case False
      then show ?thesis
        using same_on_nulled[OF same, of "p_sib k"] pcb_relD(3)[OF assms(1) k(1)] k(2) F(6) by auto
    qed (simp add: h(4))
  next
    fix k assume "queued (alloc_view i v) k"
    then show "k < MAX_PROC" using F(7) pcb_relD(4)[OF assms(1)] by simp
  next
    fix k q assume "child_of (alloc_view i v) k q"
    then show "live (alloc_view i v) k" using F(5,6) pcb_relD(5)[OF assms(1)] by simp
  next
    fix k q assume "live (alloc_view i v) k"
    then show "(p_parent (pcb_table (s\<lparr>lh := h, pcb_table := (pcb_table s)(i := cleared_pcb U)\<rparr>) k) = Some q)
        = child_of (alloc_view i v) k q"
      using F(3,5,6) pcb_relD(5,6)[OF assms(1)] by (auto simp: cleared_pcb_def)
  qed
  ultimately show ?thesis by blast
qed

text \<open>
  Freeing: the block must be off every list; its children must be gone and it must have no parent,
  as they are when \<^verbatim>\<open>kill_process\<close> frees it.
\<close>

lemma free_view_facts:
  assumes "pcb_rel s v" "live v i" "v_child v i = []" "\<And>q. \<not> child_of v i q"
  shows "live (free_view i v) k \<longleftrightarrow> live v k \<and> k \<noteq> i"
    and "child_of (free_view i v) k q \<longleftrightarrow> child_of v k q"
    and "queued (free_view i v) k \<longleftrightarrow> queued v k \<or> k = i"
    and "rings_of (free_view i v) = (rings_of v)(pcb_free \<mapsto> map p_list (i # v_free v), p_child i := None)"
proof -
  show live: "live (free_view i v) k \<longleftrightarrow> live v k \<and> k \<noteq> i" for k
    by (auto simp: live_def free_view_def)
  show "child_of (free_view i v) k q \<longleftrightarrow> child_of v k q"
    using live[of q] assms(3) by (auto simp: child_of_def free_view_def)
  show "queued (free_view i v) k \<longleftrightarrow> queued v k \<or> k = i"
    by (auto simp: queued_def blocked_def free_view_def)
  show "rings_of (free_view i v) = (rings_of v)(pcb_free \<mapsto> map p_list (i # v_free v), p_child i := None)"
  proof
    fix n
    show "rings_of (free_view i v) n
        = ((rings_of v)(pcb_free \<mapsto> map p_list (i # v_free v), p_child i := None)) n"
      using live by (cases n) (auto simp: free_view_def)
  qed
qed

lemma pcb_rel_upd_pid [simp]:
  "pcb_rel (upd_pcb i (\<lambda>p. p\<lparr>p_pid := x\<rparr>) s) v = pcb_rel s v"
  by (auto simp: pcb_rel_def)

lemma free_pcb_detached:
  assumes "pcb_rel s v" "live v i" "\<not> queued v i" "v_child v i = []" "\<And>q. \<not> child_of v i q"
  shows "\<exists>h. free_pcb (Some i) s = Some (upd_pcb i (\<lambda>p. p\<lparr>p_pid := NULL_PID\<rparr>) s\<lparr>lh := h\<rparr>)
    \<and> pcb_rel (upd_pcb i (\<lambda>p. p\<lparr>p_pid := NULL_PID\<rparr>) s\<lparr>lh := h\<rparr>) (free_view i v)"
proof -
  note R = pcb_relD(1)[OF assms(1)] and F = free_view_facts[OF assms(1,2,4,5)]
  let ?s = "upd_pcb i (\<lambda>p. p\<lparr>p_pid := NULL_PID\<rparr>) s"
  have i: "i < MAX_PROC" "i \<notin> set (v_free v)" using assms(2) by (auto simp: live_def)
  obtain h where h: "list_add (Some (p_list i)) (Some pcb_free) (lh s) = Some h"
    "rings h ((rings_of v)(pcb_free \<mapsto> map p_list (i # v_free v)))"
    "same_on (- (insert (p_list i) (insert pcb_free (set (map p_list (v_free v)))))) (lh s) h"
    using rings_add[OF R, of pcb_free "map p_list (v_free v)" "p_list i"] assms(3)
    by (auto simp: p_list_ring_nodes)
  have "free_pcb (Some i) s = Some (?s\<lparr>lh := h\<rparr>)"
    using h(1) i pcb_rel_ring(1)[OF assms(1)] list_sdel_nulled[OF pcb_relD(2)[OF assms(1) i(1) assms(3)]]
    by (auto simp: free_pcb_def list_contains_ring on_lists_def)
  moreover have "pcb_rel (?s\<lparr>lh := h\<rparr>) (free_view i v)"
    unfolding pcb_rel_def
  proof (intro conjI allI impI)
    show "rings (lh (?s\<lparr>lh := h\<rparr>)) (rings_of (free_view i v))"
      using rings_drop[OF h(2)] F(4) by simp
  next
    fix k assume k: "k < MAX_PROC" "\<not> queued (free_view i v) k"
    then have "k \<noteq> i" "\<not> queued v k" "k \<notin> set (v_free v)" using F(3) by (auto simp: queued_def)
    then show "nulled (lh (?s\<lparr>lh := h\<rparr>)) (p_list k)"
      using same_on_nulled[OF h(3), of "p_list k"] pcb_relD(2)[OF assms(1) k(1)] by auto
  next
    fix k assume k: "k < MAX_PROC" "\<forall>q. \<not> child_of (free_view i v) k q"
    then show "nulled (lh (?s\<lparr>lh := h\<rparr>)) (p_sib k)"
      using same_on_nulled[OF h(3), of "p_sib k"] pcb_relD(3)[OF assms(1) k(1)] F(2) by auto
  next
    fix k assume "queued (free_view i v) k"
    then show "k < MAX_PROC" using F(3) i(1) pcb_relD(4)[OF assms(1)] by auto
  next
    fix k q assume c: "child_of (free_view i v) k q"
    then have "k \<noteq> i" using F(2) assms(5) by blast
    with c show "live (free_view i v) k" using F(1,2) pcb_relD(5)[OF assms(1)] by simp
  next
    fix k q assume "live (free_view i v) k"
    then show "(p_parent (pcb_table (?s\<lparr>lh := h\<rparr>) k) = Some q) = child_of (free_view i v) k q"
      using F(1,2) pcb_relD(6)[OF assms(1)] by simp
  qed
  ultimately show ?thesis by blast
qed

lemma free_pcb_twice:
  assumes "pcb_rel s v" "i \<in> set (v_free v)"
  shows "free_pcb (Some i) s = Some s"
  using pcb_rel_ring(1)[OF assms(1)] assms(2) by (auto simp: free_pcb_def list_contains_ring)

section \<open>The process tree\<close>

definition set_child :: "nat \<Rightarrow> nat list \<Rightarrow> view \<Rightarrow> view" where
  "set_child q xs v = v\<lparr>v_child := (v_child v)(q := xs)\<rparr>"

lemma set_child_facts:
  "live (set_child q xs v) = live v" "queued (set_child q xs v) = queued v"
  "live v q \<Longrightarrow> child_of (set_child q xs v) k r \<longleftrightarrow> (if r = q then k \<in> set xs else child_of v k r)"
  "live v q \<Longrightarrow> rings_of (set_child q xs v) = (rings_of v)(p_child q \<mapsto> map p_sib xs)"
proof -
  show live: "live (set_child q xs v) = live v" by (auto simp: live_def set_child_def fun_eq_iff)
  show "queued (set_child q xs v) = queued v"
    by (auto simp: queued_def blocked_def set_child_def fun_eq_iff)
  assume q: "live v q"
  show "child_of (set_child q xs v) k r \<longleftrightarrow> (if r = q then k \<in> set xs else child_of v k r)"
    using q live by (auto simp: child_of_def set_child_def)
  show "rings_of (set_child q xs v) = (rings_of v)(p_child q \<mapsto> map p_sib xs)"
  proof
    fix n
    show "rings_of (set_child q xs v) n = ((rings_of v)(p_child q \<mapsto> map p_sib xs)) n"
      using q live by (cases n) (auto simp: set_child_def)
  qed
qed

text \<open>What it takes to stay related when one child list and one parent pointer change.\<close>

lemma pcb_rel_set_child:
  assumes rel: "pcb_rel s v" and q: "live v q" and i: "live v i"
    and rings: "rings h (rings_of (set_child q xs v))"
    and same: "same_on (- (insert (p_child q) (range p_sib))) (lh s) h"
    and null: "\<And>k. k < MAX_PROC \<Longrightarrow> \<forall>r. \<not> child_of (set_child q xs v) k r \<Longrightarrow> nulled h (p_sib k)"
    and mem: "\<And>k. k \<noteq> i \<Longrightarrow> k \<in> set xs \<longleftrightarrow> k \<in> set (v_child v q)"
    and par: "\<And>r. pp = Some r \<longleftrightarrow> child_of (set_child q xs v) i r"
  shows "pcb_rel (upd_pcb i (\<lambda>p. p\<lparr>p_parent := pp\<rparr>) (s\<lparr>lh := h\<rparr>)) (set_child q xs v)"
  unfolding pcb_rel_def
proof (intro conjI allI impI)
  note F = set_child_facts(1,2)[of q xs v] set_child_facts(3)[OF q]
  let ?s = "upd_pcb i (\<lambda>p. p\<lparr>p_parent := pp\<rparr>) (s\<lparr>lh := h\<rparr>)"
  show "rings (lh ?s) (rings_of (set_child q xs v))" using rings by simp
  fix k
  show "nulled (lh ?s) (p_list k)" if "k < MAX_PROC" "\<not> queued (set_child q xs v) k"
    using same_on_nulled[OF same, of "p_list k"] pcb_relD(2)[OF rel that(1)] that(2) F(2) by auto
  show "nulled (lh ?s) (p_sib k)" if "k < MAX_PROC" "\<forall>q'. \<not> child_of (set_child q xs v) k q'"
    using null[OF that] by simp
  show "k < MAX_PROC" if "queued (set_child q xs v) k"
    using that F(2) pcb_relD(4)[OF rel] by simp
  fix r
  have child: "child_of (set_child q xs v) k r \<longleftrightarrow> child_of v k r" if "k \<noteq> i"
    using F(3) mem[OF that] q by (auto simp: child_of_def)
  show "live (set_child q xs v) k" if "child_of (set_child q xs v) k r"
    using that child i F(1) pcb_relD(5)[OF rel] by (cases "k = i") auto
  show "(p_parent (pcb_table ?s k) = Some r) = child_of (set_child q xs v) k r"
    if "live (set_child q xs v) k"
    using that par child F(1) pcb_relD(6)[OF rel] by (cases "k = i") auto
qed

lemma insert_child_rel:
  assumes "pcb_rel s v" "live v q" "live v i" "\<And>r. \<not> child_of v i r"
  shows "\<exists>h. insert_child (Some q) (Some i) s
      = Some (upd_pcb i (\<lambda>p. p\<lparr>p_parent := Some q\<rparr>) (s\<lparr>lh := h\<rparr>))
    \<and> pcb_rel (upd_pcb i (\<lambda>p. p\<lparr>p_parent := Some q\<rparr>) (s\<lparr>lh := h\<rparr>)) (set_child q (v_child v q @ [i]) v)"
proof -
  note R = pcb_relD(1)[OF assms(1)] and F = set_child_facts(3,4)[OF assms(2)]
  have ni: "i \<notin> set (v_child v q)" using assms(2,4) by (auto simp: child_of_def)
  have par: "p_parent (pcb_table s i) = None"
    using pcb_relD(6)[OF assms(1,3)] assms(4) by (cases "p_parent (pcb_table s i)") auto
  obtain h where h: "list_add_tail (Some (p_sib i)) (Some (p_child q)) (lh s) = Some h"
    "rings h ((rings_of v)(p_child q \<mapsto> map p_sib (v_child v q) @ [p_sib i]))"
    "same_on (- (insert (p_sib i) (insert (p_child q) (set (map p_sib (v_child v q)))))) (lh s) h"
    using rings_add_tail[OF R, of "p_child q" "map p_sib (v_child v q)" "p_sib i"] assms(2,4)
    by (auto simp: p_sib_ring_nodes)
  have "pcb_rel (upd_pcb i (\<lambda>p. p\<lparr>p_parent := Some q\<rparr>) (s\<lparr>lh := h\<rparr>)) (set_child q (v_child v q @ [i]) v)"
  proof (rule pcb_rel_set_child[OF assms(1-3)])
    show "rings h (rings_of (set_child q (v_child v q @ [i]) v))" using h(2) F(2) by simp
    show "same_on (- (insert (p_child q) (range p_sib))) (lh s) h"
      using h(3) by (rule same_on_subset) auto
  next
    fix k assume k: "k < MAX_PROC" "\<forall>r. \<not> child_of (set_child q (v_child v q @ [i]) v) k r"
    then have n: "\<not> (if r = q then k \<in> set (v_child v q @ [i]) else child_of v k r)" for r
      by (simp add: F(1))
    have "k \<noteq> i" "k \<notin> set (v_child v q)" using n[of q] by auto
    moreover have "\<forall>r. \<not> child_of v k r"
      using n calculation(2) by (metis child_of_def)
    ultimately have "k \<noteq> i" "k \<notin> set (v_child v q)" "\<forall>r. \<not> child_of v k r" by simp_all
    then show "nulled h (p_sib k)"
      using same_on_nulled[OF h(3), of "p_sib k"] pcb_relD(3)[OF assms(1) k(1)] by auto
  qed (use F(1) assms(4) in auto)
  moreover have "insert_child (Some q) (Some i) s
      = Some (upd_pcb i (\<lambda>p. p\<lparr>p_parent := Some q\<rparr>) (s\<lparr>lh := h\<rparr>))"
    using h(1) ni par pcb_rel_ring(3)[OF assms(1,2)]
    by (auto simp: insert_child_def list_contains_ring on_lists_def upd_pcb_def)
  ultimately show ?thesis by blast
qed

lemma out_child_rel:
  assumes "pcb_rel s v" "child_of v i q"
  shows "\<exists>h. out_child (Some i) s
      = Some (Some i, upd_pcb i (\<lambda>p. p\<lparr>p_parent := None\<rparr>) (s\<lparr>lh := h\<rparr>))
    \<and> pcb_rel (upd_pcb i (\<lambda>p. p\<lparr>p_parent := None\<rparr>) (s\<lparr>lh := h\<rparr>)) (set_child q (remove1 i (v_child v q)) v)"
proof -
  have q: "live v q" "i \<in> set (v_child v q)" using assms(2) by (auto simp: child_of_def)
  have i: "live v i" using pcb_relD(5)[OF assms] .
  note R = pcb_relD(1)[OF assms(1)] and F = set_child_facts(3,4)[OF q(1)]
  let ?v = "set_child q (remove1 i (v_child v q)) v"
  obtain h where h: "list_sdel (Some (p_sib i)) (lh s) = Some h"
    "rings h ((rings_of v)(p_child q \<mapsto> map p_sib (remove1 i (v_child v q))))" "nulled h (p_sib i)"
    "same_on (- (insert (p_child q) (set (map p_sib (v_child v q))))) (lh s) h"
    using rings_sdel[OF R, of "p_child q" "map p_sib (v_child v q)" "p_sib i"] q by auto
  have rm: "k \<in> set (remove1 i (v_child v q)) \<longleftrightarrow> k \<in> set (v_child v q) \<and> k \<noteq> i" for k
    using pcb_rel_distinct(3)[OF assms(1) q(1)] by auto
  have "pcb_rel (upd_pcb i (\<lambda>p. p\<lparr>p_parent := None\<rparr>) (s\<lparr>lh := h\<rparr>)) ?v"
  proof (rule pcb_rel_set_child[OF assms(1) q(1) i])
    show "rings h (rings_of ?v)" using h(2) F(2) by simp
    show "same_on (- (insert (p_child q) (range p_sib))) (lh s) h"
      using h(4) by (rule same_on_subset) auto
  next
    fix k assume k: "k < MAX_PROC" "\<forall>r. \<not> child_of ?v k r"
    show "nulled h (p_sib k)"
    proof (cases "k = i")
      case False
      have n: "\<not> (if r = q then k \<in> set (remove1 i (v_child v q)) else child_of v k r)" for r
        using k(2) by (simp add: F(1))
      have "k \<notin> set (v_child v q)" using n[of q] False by (simp add: rm)
      moreover from this have "\<forall>r. \<not> child_of v k r"
        using n by (metis child_of_def)
      ultimately show ?thesis
        using same_on_nulled[OF h(4), of "p_sib k"] pcb_relD(3)[OF assms(1) k(1)] by auto
    qed (simp add: h(3))
  next
    show "(None = Some r) = child_of ?v i r" for r
      using F(1) rm child_unique[OF assms(1,2)] by auto
  qed (simp add: rm)
  moreover have "out_child (Some i) s = Some (Some i, upd_pcb i (\<lambda>p. p\<lparr>p_parent := None\<rparr>) (s\<lparr>lh := h\<rparr>))"
    using h(1) q pcb_relD(6)[OF assms(1) i, of q] assms(2) pcb_rel_ring(3)[OF assms(1) q(1)]
    by (auto simp: out_child_def list_contains_ring list_empty_ring on_lists_def upd_pcb_def)
  ultimately show ?thesis by blast
qed

lemma remove_child_Nil:
  assumes "pcb_rel s v" "live v q" "v_child v q = []"
  shows "remove_child (Some q) s = Some (None, s)"
  using pcb_rel_ring(3)[OF assms(1,2)] assms(3)
  by (simp add: remove_child_def list_empty_ring del: ring_Nil)

lemma remove_child_Cons:
  assumes "pcb_rel s v" "live v q" "v_child v q = i # is"
  shows "\<exists>h. remove_child (Some q) s
      = Some (Some i, upd_pcb i (\<lambda>p. p\<lparr>p_parent := None\<rparr>) (s\<lparr>lh := h\<rparr>))
    \<and> pcb_rel (upd_pcb i (\<lambda>p. p\<lparr>p_parent := None\<rparr>) (s\<lparr>lh := h\<rparr>)) (set_child q is v)"
  using out_child_rel[OF assms(1), of i q] pcb_rel_ring(3)[OF assms(1,2)] assms(2,3)
  by (auto simp: remove_child_def child_of_def list_empty_ring list_next_ring)

section \<open>Initialisation\<close>

lemma init_pcbs_rings:
  assumes "rings (lh s) R" "pcb_free \<notin> ring_nodes R" "\<And>i. p_list i \<notin> ring_nodes R"
  shows "\<exists>h. init_pcbs s = Some (s\<lparr>lh := h, pcb_table :=
        (\<lambda>i. if i < MAX_PROC then (pcb_table s i)\<lparr>p_pid := NULL_PID\<rparr> else pcb_table s i)\<rparr>)
    \<and> rings h (R(pcb_free \<mapsto> map p_list (rev [0..<MAX_PROC])))
    \<and> same_on (- (insert pcb_free (range p_list))) (lh s) h"
proof -
  let ?tab = "\<lambda>pre i. if i \<in> set pre then (pcb_table s i)\<lparr>p_pid := NULL_PID\<rparr> else pcb_table s i"
  let ?I = "\<lambda>pre t. \<exists>h. t = s\<lparr>lh := h, pcb_table := ?tab pre\<rparr>
    \<and> rings h (R(pcb_free \<mapsto> map p_list (rev pre)))
    \<and> same_on (- (insert pcb_free (range p_list))) (lh s) h"
  obtain h0 where h0: "INIT_LIST_HEAD (Some pcb_free) (lh s) = Some h0" "rings h0 (R(pcb_free \<mapsto> []))"
    "same_on (- {pcb_free}) (lh s) h0"
    using rings_init[OF assms(1,2)] by blast
  have "\<exists>s'. for_each [0..<MAX_PROC] (\<lambda>i s. do {
       s \<leftarrow> on_lists (list_add (Some (p_list i)) (Some pcb_free)) s;
       Some (upd_pcb i (\<lambda>p. p\<lparr>p_pid := NULL_PID\<rparr>) s)
     }) (s\<lparr>lh := h0\<rparr>) = Some s' \<and> ?I [0..<MAX_PROC] s'"
  proof (rule for_each_invariant)
    show "?I [] (s\<lparr>lh := h0\<rparr>)"
      using h0(2) same_on_subset[OF h0(3), of "- (insert pcb_free (range p_list))"]
      by (intro exI[of _ h0]) auto
  next
    fix pre x rest t
    assume split: "[0..<MAX_PROC] = pre @ x # rest" and "?I pre t"
    then obtain h where h: "t = s\<lparr>lh := h, pcb_table := ?tab pre\<rparr>"
      "rings h (R(pcb_free \<mapsto> map p_list (rev pre)))"
      "same_on (- (insert pcb_free (range p_list))) (lh s) h" by blast
    have x: "x \<notin> set pre" using arg_cong[OF split, of distinct] by simp
    have "p_list x \<notin> ring_nodes (R(pcb_free \<mapsto> map p_list (rev pre)))"
      using assms(3)[of x] x by (auto simp: ring_nodes_def split: if_splits)
    then obtain h' where h': "list_add (Some (p_list x)) (Some pcb_free) h = Some h'"
      "rings h' (R(pcb_free \<mapsto> p_list x # map p_list (rev pre)))"
      "same_on (- (insert (p_list x) (insert pcb_free (set (map p_list (rev pre)))))) h h'"
      using rings_add[OF h(2), of pcb_free "map p_list (rev pre)" "p_list x"] by auto
    have "same_on (- (insert pcb_free (range p_list))) h h'"
      using h'(3) by (rule same_on_subset) auto
    with h(3) have "same_on (- (insert pcb_free (range p_list))) (lh s) h'" by (rule same_on_trans)
    moreover have "(?tab pre)(x := (?tab pre x)\<lparr>p_pid := NULL_PID\<rparr>) = ?tab (pre @ [x])"
      using x by auto
    ultimately show "\<exists>t'. (do {
         t \<leftarrow> on_lists (list_add (Some (p_list x)) (Some pcb_free)) t;
         Some (upd_pcb x (\<lambda>p. p\<lparr>p_pid := NULL_PID\<rparr>) t)
       }) = Some t' \<and> ?I (pre @ [x]) t'"
      using h(1) h'(1,2) by (auto simp: on_lists_def upd_pcb_def intro!: exI[of _ h'])
  qed
  then obtain h where "init_pcbs s = Some (s\<lparr>lh := h, pcb_table := ?tab [0..<MAX_PROC]\<rparr>)"
    "rings h (R(pcb_free \<mapsto> map p_list (rev [0..<MAX_PROC])))"
    "same_on (- (insert pcb_free (range p_list))) (lh s) h"
    using h0(1) by (auto simp only: init_pcbs_def on_lists_def bind.bind_lunit option.map)
  then show ?thesis by (intro exI[of _ h]) (simp add: atLeast0LessThan lessThan_iff)
qed

end
