(* ===== verification/Asl.thy ===== *)
theory Asl
  imports Pcb
begin

text \<open>
  The active semaphore list, \<^verbatim>\<open>os/src/asl.c\<close>: a table of descriptors, each either on the free
  list or on the active list; an active descriptor has the address of a semaphore as its key and
  the queue of the processes blocked on it.

  \<open>asl_rel s v\<close> extends \<open>pcb_rel\<close> with what holds between descriptors and processes. Seen from
  outside, the component is a map from semaphore addresses to first-in first-out queues,
  \<open>waiting s v k\<close>; the lemmas say how each operation changes that map, and that the descriptors
  never run out.
\<close>

section \<open>Operations\<close>

definition alloc_semd :: "u32 \<Rightarrow> kstate \<Rightarrow> (nat option \<times> kstate) option" where
  "alloc_semd sem_addr s = (if sem_addr = 0 then Some (None, s) else do {
     e \<leftarrow> list_empty (Some semd_free) (lh s);
     if e then Some (None, s) else do {
       first \<leftarrow> get_next (Some semd_free) (lh s);
       sem \<leftarrow> container_of_s_link first;
       s \<leftarrow> on_lists (list_del (Some (s_link sem))) s;
       s \<leftarrow> on_lists (list_add (Some (s_link sem)) (Some semd_h)) s;
       let s = upd_semd sem (\<lambda>d. d\<lparr>s_key := sem_addr\<rparr>) s;
       s \<leftarrow> on_lists (INIT_LIST_HEAD (Some (s_procq sem))) s;
       Some (Some sem, s)
     }
   })"

definition free_semd :: "nat option \<Rightarrow> kstate \<Rightarrow> (bool \<times> kstate) option" where
  "free_semd sem s = (case sem of None \<Rightarrow> Some (True, s) | Some j \<Rightarrow> do {
     e \<leftarrow> list_empty (Some (s_procq j)) (lh s);
     if \<not> e then Some (True, s) else do {
       s \<leftarrow> on_lists (list_del (Some (s_link j))) s;
       s \<leftarrow> on_lists (list_add (Some (s_link j)) (Some semd_free)) s;
       Some (False, s)
     }
   })"

text \<open>
  The key of the descriptor around a link: a table entry, or the local dummy descriptor that
  \<^verbatim>\<open>find_semd\<close> fills with the address it looks for.
\<close>

fun link_key :: "kstate \<Rightarrow> u32 \<Rightarrow> lnode \<Rightarrow> u32 option" where
  "link_key s sem_addr (s_link j) = Some (s_key (semd_table s j))"
| "link_key s sem_addr dummy_link = Some sem_addr"
| "link_key s sem_addr _ = None"

text \<open>The difference of two \<^verbatim>\<open>int *\<close> pointers counts words, not bytes.\<close>

definition key_cmp :: "kstate \<Rightarrow> u32 \<Rightarrow> lnode \<Rightarrow> lnode \<Rightarrow> u32 option" where
  "key_cmp s sem_addr first second = do {
     a \<leftarrow> link_key s sem_addr first;
     b \<leftarrow> link_key s sem_addr second;
     Some (signed_drop_bit 2 (a - b))
   }"

definition find_semd :: "lnode ptr \<Rightarrow> u32 \<Rightarrow> kstate \<Rightarrow> nat option option" where
  "find_semd list sem_addr s = (if list = None \<or> sem_addr = 0 then Some None else do {
     item \<leftarrow> list_search dummy_link list (key_cmp s sem_addr) (lh s);
     if item = None then Some None else do {
       j \<leftarrow> container_of_s_link item;
       Some (Some j)
     }
   })"

definition init_asl :: "kstate \<Rightarrow> kstate option" where
  "init_asl s = do {
     s \<leftarrow> on_lists (INIT_LIST_HEAD (Some semd_free)) s;
     s \<leftarrow> on_lists (INIT_LIST_HEAD (Some semd_h)) s;
     for_each [0..<MAX_PROC] (\<lambda>i. on_lists (list_add (Some (s_link i)) (Some semd_free))) s
   }"

definition insert_blocked :: "u32 \<Rightarrow> nat option \<Rightarrow> kstate \<Rightarrow> (nat \<times> kstate) option" where
  "insert_blocked sem_addr p s =
     (if sem_addr = 0 then Some (1, s)
      else case p of None \<Rightarrow> Some (2, s) | Some i \<Rightarrow>
        if p_sem_add (pcb_table s i) \<noteq> 0 then Some (3, s) else do {
          found \<leftarrow> find_semd (Some semd_h) sem_addr s;
          (sem, s) \<leftarrow> (case found of Some j \<Rightarrow> Some (Some j, s) | None \<Rightarrow> alloc_semd sem_addr s);
          case sem of None \<Rightarrow> Some (4, s) | Some j \<Rightarrow> do {
            s \<leftarrow> on_lists (list_add_tail (Some (p_list i)) (Some (s_procq j))) s;
            Some (0, upd_pcb i (\<lambda>p. p\<lparr>p_sem_add := sem_addr\<rparr>) s)
          }
        })"

definition out_blocked :: "nat option \<Rightarrow> kstate \<Rightarrow> (nat option \<times> kstate) option" where
  "out_blocked pcb s = (case pcb of None \<Rightarrow> Some (None, s) | Some i \<Rightarrow> do {
     sem \<leftarrow> find_semd (Some semd_h) (p_sem_add (pcb_table s i)) s;
     case sem of None \<Rightarrow> Some (None, s) | Some j \<Rightarrow> do {
       c \<leftarrow> list_contains (p_list i) (Some (s_procq j)) (lh s);
       if \<not> c then Some (None, s) else do {
         s \<leftarrow> on_lists (list_sdel (Some (p_list i))) s;
         let s = upd_pcb i (\<lambda>p. p\<lparr>p_sem_add := 0\<rparr>) s;
         e \<leftarrow> list_empty (Some (s_procq j)) (lh s);
         if e then do {
           (failed, s) \<leftarrow> free_semd (Some j) s;
           Some (if failed then None else Some i, s)
         } else Some (Some i, s)
       }
     }
   })"

definition head_blocked :: "u32 \<Rightarrow> kstate \<Rightarrow> nat option option" where
  "head_blocked sem_addr s = (if sem_addr = 0 then Some None else do {
     sem \<leftarrow> find_semd (Some semd_h) sem_addr s;
     case sem of None \<Rightarrow> Some None | Some j \<Rightarrow> do {
       first \<leftarrow> get_next (Some (s_procq j)) (lh s);
       i \<leftarrow> container_of_p_list first;
       Some (Some i)
     }
   })"

definition remove_blocked :: "u32 \<Rightarrow> kstate \<Rightarrow> (nat option \<times> kstate) option" where
  "remove_blocked sem_addr s = do {
     p \<leftarrow> head_blocked sem_addr s;
     out_blocked p s
   }"

section \<open>The relation to the view\<close>

abbreviation semd_key :: "kstate \<Rightarrow> nat \<Rightarrow> u32" where
  "semd_key s j \<equiv> s_key (semd_table s j)"

definition asl_rel :: "kstate \<Rightarrow> view \<Rightarrow> bool" where
  "asl_rel s v \<longleftrightarrow>
     pcb_rel s v
   \<and> splits_upto MAX_PROC (v_sfree v) (v_sact v)
   \<and> inj_on (semd_key s) (set (v_sact v))
   \<and> (\<forall>j\<in>set (v_sact v). semd_key s j \<noteq> 0 \<and> word_aligned (semd_key s j) \<and> v_procq v j \<noteq> [])
   \<and> (\<forall>j\<in>set (v_sact v). \<forall>i\<in>set (v_procq v j). p_sem_add (pcb_table s i) = semd_key s j)
   \<and> (\<forall>i. live v i \<longrightarrow> p_sem_add (pcb_table s i) \<noteq> 0 \<longrightarrow> blocked v i)"

text \<open>The queue of the processes that wait on a semaphore.\<close>

definition waiting :: "kstate \<Rightarrow> view \<Rightarrow> u32 \<Rightarrow> nat list" where
  "waiting s v k = (case find (\<lambda>j. semd_key s j = k) (v_sact v) of
     None \<Rightarrow> [] | Some j \<Rightarrow> v_procq v j)"

section \<open>Lemmas\<close>

lemma asl_relD:
  assumes "asl_rel s v"
  shows "pcb_rel s v" "splits_upto MAX_PROC (v_sfree v) (v_sact v)"
    "inj_on (semd_key s) (set (v_sact v))"
    "j \<in> set (v_sact v) \<Longrightarrow> semd_key s j \<noteq> 0"
    "j \<in> set (v_sact v) \<Longrightarrow> word_aligned (semd_key s j)"
    "j \<in> set (v_sact v) \<Longrightarrow> v_procq v j \<noteq> []"
    "j \<in> set (v_sact v) \<Longrightarrow> i \<in> set (v_procq v j) \<Longrightarrow> p_sem_add (pcb_table s i) = semd_key s j"
    "live v i \<Longrightarrow> p_sem_add (pcb_table s i) \<noteq> 0 \<Longrightarrow> blocked v i"
  using assms by (auto simp: asl_rel_def)

subsection \<open>Looking a semaphore up\<close>

lemma semd_ring:
  assumes "asl_rel s v"
  shows "ring (lh s) semd_h (map s_link (v_sact v))" "ring (lh s) semd_free (map s_link (v_sfree v))"
  using rings_ring[OF pcb_relD(1)[OF asl_relD(1)[OF assms]]] by auto

lemma find_semd_rel:
  assumes "asl_rel s v" "k = 0 \<or> word_aligned k"
  shows "find_semd (Some semd_h) k s = Some (find (\<lambda>j. semd_key s j = k) (v_sact v))"
proof (cases "k = 0")
  case True
  then have "find (\<lambda>j. semd_key s j = k) (v_sact v) = None"
    using asl_relD(4)[OF assms(1)] by (auto simp: find_None_iff)
  with True show ?thesis by (simp add: find_semd_def)
next
  case False
  have cmp: "key_cmp s k dummy_link (s_link j) = Some 0 \<longleftrightarrow> semd_key s j = k" if "j \<in> set (v_sact v)" for j
    using word_ptr_diff_eq_0[of k "semd_key s j"] False assms(2) asl_relD(5)[OF assms(1) that]
    by (auto simp: key_cmp_def)
  have "list_search dummy_link (Some semd_h) (key_cmp s k) (lh s)
      = Some (find (\<lambda>n. key_cmp s k dummy_link n = Some 0) (map s_link (v_sact v)))"
    by (rule list_search_ring[OF semd_ring(1)[OF assms(1)]]) (auto simp: key_cmp_def)
  also have "find ((\<lambda>n. key_cmp s k dummy_link n = Some 0) \<circ> s_link) (v_sact v)
      = find (\<lambda>j. semd_key s j = k) (v_sact v)"
    by (rule find_cong[OF refl]) (simp add: cmp)
  then have "Some (find (\<lambda>n. key_cmp s k dummy_link n = Some 0) (map s_link (v_sact v)))
      = Some (map_option s_link (find (\<lambda>j. semd_key s j = k) (v_sact v)))"
    by (simp add: find_map)
  finally show ?thesis
    using False by (cases "find (\<lambda>j. semd_key s j = k) (v_sact v)") (simp_all add: find_semd_def)
qed

lemma find_key:
  assumes "asl_rel s v"
  shows "find (\<lambda>j. semd_key s j = k) (v_sact v) = Some j \<longleftrightarrow> j \<in> set (v_sact v) \<and> semd_key s j = k"
proof
  assume "find (\<lambda>j. semd_key s j = k) (v_sact v) = Some j"
  then show "j \<in> set (v_sact v) \<and> semd_key s j = k" by (auto simp: find_Some_iff)
next
  assume "j \<in> set (v_sact v) \<and> semd_key s j = k"
  then show "find (\<lambda>j. semd_key s j = k) (v_sact v) = Some j"
    using asl_relD(3)[OF assms] by (intro find_unique) (auto simp: inj_on_def)
qed

lemma waiting_key:
  assumes "asl_rel s v" "j \<in> set (v_sact v)"
  shows "waiting s v (semd_key s j) = v_procq v j"
  using find_key[OF assms(1), of "semd_key s j" j] assms(2) by (simp add: waiting_def)

lemma waiting_Nil_iff:
  assumes "asl_rel s v"
  shows "waiting s v k = [] \<longleftrightarrow> k \<notin> semd_key s ` set (v_sact v)"
proof (cases "find (\<lambda>j. semd_key s j = k) (v_sact v)")
  case None
  then have "k \<notin> semd_key s ` set (v_sact v)" by (auto simp: find_None_iff)
  with None show ?thesis by (simp add: waiting_def)
next
  case (Some j)
  then have "j \<in> set (v_sact v)" "semd_key s j = k" using find_key[OF assms] by auto
  with Some show ?thesis using asl_relD(6)[OF assms] by (auto simp: waiting_def)
qed

lemma blocked_waiting:
  assumes "asl_rel s v"
  shows "blocked v i \<longleftrightarrow> (\<exists>k. i \<in> set (waiting s v k))"
proof
  assume "blocked v i"
  then obtain j where "j \<in> set (v_sact v)" "i \<in> set (v_procq v j)" by (auto simp: blocked_def)
  then show "\<exists>k. i \<in> set (waiting s v k)" using waiting_key[OF assms] by metis
next
  assume "\<exists>k. i \<in> set (waiting s v k)"
  then obtain k where k: "i \<in> set (waiting s v k)" by blast
  then obtain j where "find (\<lambda>j. semd_key s j = k) (v_sact v) = Some j"
    by (cases "find (\<lambda>j. semd_key s j = k) (v_sact v)") (auto simp: waiting_def)
  with k show "blocked v i" using find_key[OF assms] by (auto simp: waiting_def blocked_def)
qed

lemma blocked_live:
  assumes "asl_rel s v" "blocked v i"
  shows "live v i" "p_sem_add (pcb_table s i) \<noteq> 0" "i \<in> set (waiting s v (p_sem_add (pcb_table s i)))"
    "word_aligned (p_sem_add (pcb_table s i))"
proof -
  obtain j where j: "j \<in> set (v_sact v)" "i \<in> set (v_procq v j)"
    using assms(2) by (auto simp: blocked_def)
  note rel = asl_relD(1)[OF assms(1)]
  show "live v i"
    using queues_disjoint(1)[OF rel, of "s_procq j" i] pcb_relD(4)[OF rel, of i] j assms(2)
    by (auto simp: live_def queued_def)
  show "p_sem_add (pcb_table s i) \<noteq> 0" "i \<in> set (waiting s v (p_sem_add (pcb_table s i)))"
    "word_aligned (p_sem_add (pcb_table s i))"
    using asl_relD(4,5,7)[OF assms(1) j(1)] j waiting_key[OF assms(1) j(1)] by auto
qed

text \<open>
  The descriptors never run out: every active one has a process of its own blocked on it, so with
  a process left over there is a descriptor left over.
\<close>

lemma semd_available:
  assumes "asl_rel s v" "i < MAX_PROC" "\<not> blocked v i"
  shows "v_sfree v \<noteq> []"
proof
  assume "v_sfree v = []"
  then have act: "set (v_sact v) = {..<MAX_PROC}"
    using asl_relD(2)[OF assms(1)] by (simp add: splits_upto_def)
  have ne: "v_procq v j \<noteq> []" if "j < MAX_PROC" for j
    using asl_relD(6)[OF assms(1)] act that by auto
  let ?f = "\<lambda>j. hd (v_procq v j)"
  have "?f ` {..<MAX_PROC} \<subseteq> {..<MAX_PROC} - {i}"
  proof
    fix x assume "x \<in> ?f ` {..<MAX_PROC}"
    then obtain j where j: "j < MAX_PROC" "x = ?f j" by auto
    then have "x \<in> set (v_procq v j)" using ne by simp
    then have "blocked v x" using j(1) act by (auto simp: blocked_def)
    then show "x \<in> {..<MAX_PROC} - {i}"
      using assms(3) pcb_relD(4)[OF asl_relD(1)[OF assms(1)], of x] by (auto simp: queued_def)
  qed
  moreover have "inj_on ?f {..<MAX_PROC}"
  proof (rule inj_onI)
    fix a b assume ab: "a \<in> {..<MAX_PROC}" "b \<in> {..<MAX_PROC}" "?f a = ?f b"
    have "?f a \<in> set (v_procq v a)" "?f b \<in> set (v_procq v b)" using ne ab(1,2) by auto
    then show "a = b"
      using queues_disjoint(2)[OF asl_relD(1)[OF assms(1)], of "s_procq a" "?f a" "s_procq b"] ab act
      by auto
  qed
  ultimately have "card {..<MAX_PROC} \<le> card ({..<MAX_PROC} - {i})"
    by (metis card_image card_mono finite_Diff finite_lessThan)
  then show False using assms(2) by simp
qed

subsection \<open>Moving descriptors\<close>

lemma pcb_rel_cong:
  assumes "lh s' = lh s" "\<And>i. p_parent (pcb_table s' i) = p_parent (pcb_table s i)"
  shows "pcb_rel s' v = pcb_rel s v"
  using assms by (simp add: pcb_rel_def)

text \<open>Descriptor lists share no node with process queues and child lists.\<close>

lemma pcb_rel_semd:
  assumes rel: "pcb_rel s v" and rings: "rings (lh s') (rings_of v')"
    and same: "same_on (range p_list \<union> range p_sib) (lh s) (lh s')" "pcb_table s' = pcb_table s"
    and view: "v_free v' = v_free v" "v_lo v' = v_lo v" "v_hi v' = v_hi v" "v_child v' = v_child v"
    and blk: "\<And>k. blocked v' k = blocked v k"
  shows "pcb_rel s' v'"
proof -
  have "live v' = live v" "queued v' = queued v" "child_of v' = child_of v"
    using view blk by (auto simp: live_def queued_def child_of_def fun_eq_iff)
  then show ?thesis
    using rel rings same(2) same_on_nulled[OF same(1)] by (auto simp: pcb_rel_def)
qed

definition alloc_semd_view :: "nat \<Rightarrow> view \<Rightarrow> view" where
  "alloc_semd_view j v = v\<lparr>v_sfree := tl (v_sfree v), v_sact := j # v_sact v,
     v_procq := (v_procq v)(j := [])\<rparr>"

definition free_semd_view :: "nat \<Rightarrow> view \<Rightarrow> view" where
  "free_semd_view j v = v\<lparr>v_sfree := j # v_sfree v, v_sact := remove1 j (v_sact v)\<rparr>"

lemma map_s_link [simp]:
  "distinct (map s_link xs) = distinct xs"
  "remove1 (s_link j) (map s_link xs) = map s_link (remove1 j xs)"
  by (simp add: distinct_map inj_on_def, induction xs, auto)

lemma s_link_ring_nodes:
  "s_link j \<in> ring_nodes (rings_of v) \<longleftrightarrow> j \<in> set (v_sfree v) \<union> set (v_sact v)"
proof
  assume "s_link j \<in> ring_nodes (rings_of v)"
  then obtain c xs where "rings_of v c = Some xs" "s_link j \<in> insert c (set xs)"
    by (auto simp: ring_nodes_def)
  then show "j \<in> set (v_sfree v) \<union> set (v_sact v)" by (cases c) (auto split: if_splits)
next
  assume "j \<in> set (v_sfree v) \<union> set (v_sact v)"
  then show "s_link j \<in> ring_nodes (rings_of v)"
    by (auto intro: ring_nodesI[of _ semd_free] ring_nodesI[of _ semd_h])
qed

lemma s_procq_ring_nodes: "s_procq j \<in> ring_nodes (rings_of v) \<longleftrightarrow> j \<in> set (v_sact v)"
proof
  assume "s_procq j \<in> ring_nodes (rings_of v)"
  then obtain c xs where "rings_of v c = Some xs" "s_procq j \<in> insert c (set xs)"
    by (auto simp: ring_nodes_def)
  then show "j \<in> set (v_sact v)" by (cases c) (auto split: if_splits)
next
  assume "j \<in> set (v_sact v)"
  then show "s_procq j \<in> ring_nodes (rings_of v)"
    using ring_nodesI[of "rings_of v" "s_procq j"] by auto
qed

lemma rings_of_alloc_semd:
  assumes "v_sfree v = j # fs" "j \<notin> set (v_sact v)"
  shows "rings_of (alloc_semd_view j v) = (rings_of v)(semd_free \<mapsto> map s_link fs,
     semd_h \<mapsto> s_link j # map s_link (v_sact v), s_procq j \<mapsto> [])"
proof
  fix n
  show "rings_of (alloc_semd_view j v) n = ((rings_of v)(semd_free \<mapsto> map s_link fs,
     semd_h \<mapsto> s_link j # map s_link (v_sact v), s_procq j \<mapsto> [])) n"
    using assms by (cases n) (auto simp: alloc_semd_view_def live_def)
qed

lemma rings_of_free_semd:
  assumes "distinct (v_sact v)"
  shows "rings_of (free_semd_view j v) = (rings_of v)(semd_h \<mapsto> map s_link (remove1 j (v_sact v)),
     semd_free \<mapsto> s_link j # map s_link (v_sfree v), s_procq j := None)"
proof
  fix n
  show "rings_of (free_semd_view j v) n = ((rings_of v)(semd_h \<mapsto> map s_link (remove1 j (v_sact v)),
     semd_free \<mapsto> s_link j # map s_link (v_sfree v), s_procq j := None)) n"
    using assms by (cases n) (auto simp: free_semd_view_def live_def)
qed

lemma alloc_semd_rel:
  assumes "asl_rel s v" "v_sfree v = j # fs" "k \<noteq> 0"
  shows "\<exists>h. alloc_semd k s = Some (Some j, upd_semd j (\<lambda>d. d\<lparr>s_key := k\<rparr>) (s\<lparr>lh := h\<rparr>))
    \<and> pcb_rel (upd_semd j (\<lambda>d. d\<lparr>s_key := k\<rparr>) (s\<lparr>lh := h\<rparr>)) (alloc_semd_view j v)"
proof -
  note rel = asl_relD(1)[OF assms(1)] and R = pcb_relD(1)[OF asl_relD(1)[OF assms(1)]]
  have j: "j \<notin> set fs" "j \<notin> set (v_sact v)"
    using asl_relD(2)[OF assms(1)] assms(2) by (auto simp: splits_upto_def)
  let ?R1 = "(rings_of v)(semd_free \<mapsto> map s_link fs)"
  let ?R2 = "?R1(semd_h \<mapsto> s_link j # map s_link (v_sact v))"
  have free: "rings_of v semd_free = Some (map s_link (j # fs))" using assms(2) by simp
  obtain h1 where h1: "list_del (Some (s_link j)) (lh s) = Some h1" "rings h1 ?R1"
    "same_on (- (insert semd_free (set (map s_link (j # fs)) - {s_link j}))) (lh s) h1"
    using rings_del[OF R free, of "s_link j"] by auto
  have "ring_nodes ?R1 = (ring_nodes (rings_of v) - s_link ` set (j # fs)) \<union> insert semd_free (s_link ` set fs)"
    using ring_nodes_upd[OF R free, of "map s_link fs"] by simp
  then have n1: "s_link j \<notin> ring_nodes ?R1" "s_procq j \<notin> ring_nodes ?R1"
    using j s_procq_ring_nodes[of j v] by auto
  have "?R1 semd_h = Some (map s_link (v_sact v))" by simp
  then obtain h2 where h2: "list_add (Some (s_link j)) (Some semd_h) h1 = Some h2" "rings h2 ?R2"
    "same_on (- (insert (s_link j) (insert semd_h (set (map s_link (v_sact v)))))) h1 h2"
    using rings_add[OF h1(2) _ n1(1)] by blast
  have "s_procq j \<notin> ring_nodes ?R2"
    using n1(2) ring_nodes_upd[OF h1(2), of semd_h "map s_link (v_sact v)" "s_link j # map s_link (v_sact v)"]
    by auto
  then obtain h3 where h3: "INIT_LIST_HEAD (Some (s_procq j)) h2 = Some h3"
    "rings h3 (?R2(s_procq j \<mapsto> []))" "same_on (- {s_procq j}) h2 h3"
    using rings_init[OF h2(2)] by blast
  let ?s = "upd_semd j (\<lambda>d. d\<lparr>s_key := k\<rparr>) (s\<lparr>lh := h3\<rparr>)"
  have same: "same_on (range p_list \<union> range p_sib) (lh s) h3"
    by (rule same_on_trans[OF same_on_trans[OF same_on_subset[OF h1(3)] same_on_subset[OF h2(3)]]
        same_on_subset[OF h3(3)]]) auto
  have "pcb_rel ?s (alloc_semd_view j v)"
  proof (rule pcb_rel_semd[OF rel])
    show "rings (lh ?s) (rings_of (alloc_semd_view j v))"
      using h3(2) by (simp add: rings_of_alloc_semd[OF assms(2) j(2)])
    show "same_on (range p_list \<union> range p_sib) (lh s) (lh ?s)" using same by simp
    show "blocked (alloc_semd_view j v) i = blocked v i" for i
      using j(2) by (auto simp: blocked_def alloc_semd_view_def)
  qed (simp_all add: alloc_semd_view_def)
  moreover have "alloc_semd k s = Some (Some j, ?s)"
    using h1(1) h2(1) h3(1) assms(2,3) semd_ring(2)[OF assms(1)] ring_next[OF semd_ring(2)[OF assms(1)]]
    by (simp add: alloc_semd_def list_empty_ring on_lists_def upd_semd_def)
  ultimately show ?thesis by blast
qed

lemma free_semd_rel:
  assumes "pcb_rel s v" "splits_upto MAX_PROC (v_sfree v) (v_sact v)" "j \<in> set (v_sact v)" "v_procq v j = []"
  shows "\<exists>h. free_semd (Some j) s = Some (False, s\<lparr>lh := h\<rparr>)
    \<and> pcb_rel (s\<lparr>lh := h\<rparr>) (free_semd_view j v)"
proof -
  note R = pcb_relD(1)[OF assms(1)]
  have d: "distinct (v_sact v)" "j \<notin> set (v_sfree v)"
    using assms(2,3) by (auto simp: splits_upto_def)
  let ?R1 = "(rings_of v)(semd_h \<mapsto> map s_link (remove1 j (v_sact v)))"
  have act: "rings_of v semd_h = Some (map s_link (v_sact v))" by simp
  obtain h1 where h1: "list_del (Some (s_link j)) (lh s) = Some h1" "rings h1 ?R1"
    "same_on (- (insert semd_h (set (map s_link (v_sact v)) - {s_link j}))) (lh s) h1"
    using rings_del[OF R act, of "s_link j"] assms(3) by auto
  have "ring_nodes ?R1 = (ring_nodes (rings_of v) - s_link ` set (v_sact v))
      \<union> insert semd_h (s_link ` set (remove1 j (v_sact v)))"
    using ring_nodes_upd[OF R act, of "map s_link (remove1 j (v_sact v))"] by simp
  then have n1: "s_link j \<notin> ring_nodes ?R1" using d assms(3) by auto
  have "?R1 semd_free = Some (map s_link (v_sfree v))" by simp
  then obtain h2 where h2: "list_add (Some (s_link j)) (Some semd_free) h1 = Some h2"
    "rings h2 (?R1(semd_free \<mapsto> s_link j # map s_link (v_sfree v)))"
    "same_on (- (insert (s_link j) (insert semd_free (set (map s_link (v_sfree v)))))) h1 h2"
    using rings_add[OF h1(2) _ n1] by blast
  have same: "same_on (range p_list \<union> range p_sib) (lh s) h2"
    by (rule same_on_trans[OF same_on_subset[OF h1(3)] same_on_subset[OF h2(3)]]) auto
  have "pcb_rel (s\<lparr>lh := h2\<rparr>) (free_semd_view j v)"
  proof (rule pcb_rel_semd[OF assms(1)])
    show "rings (lh (s\<lparr>lh := h2\<rparr>)) (rings_of (free_semd_view j v))"
      using rings_drop[OF h2(2), of "s_procq j"] by (simp add: rings_of_free_semd[OF d(1)])
    show "same_on (range p_list \<union> range p_sib) (lh s) (lh (s\<lparr>lh := h2\<rparr>))" using same by simp
    show "blocked (free_semd_view j v) i = blocked v i" for i
      using d(1) assms(4) by (auto simp: blocked_def free_semd_view_def)
  qed (simp_all add: free_semd_view_def)
  moreover have "ring (lh s) (s_procq j) []" using rings_ring[OF R, of "s_procq j"] assms(3,4) by simp
  then have "free_semd (Some j) s = Some (False, s\<lparr>lh := h2\<rparr>)"
    using h1(1) h2(1) by (simp add: free_semd_def list_empty_ring on_lists_def del: ring_Nil)
  ultimately show ?thesis by blast
qed

subsection \<open>Blocking and unblocking\<close>

text \<open>
  Between two steps of an operation one active descriptor may have an empty queue;
  \<open>asl_rel_but e\<close> excepts the descriptor \<open>e\<close>.
\<close>

definition asl_rel_but :: "nat \<Rightarrow> kstate \<Rightarrow> view \<Rightarrow> bool" where
  "asl_rel_but e s v \<longleftrightarrow>
     pcb_rel s v
   \<and> splits_upto MAX_PROC (v_sfree v) (v_sact v)
   \<and> inj_on (semd_key s) (set (v_sact v))
   \<and> (\<forall>j\<in>set (v_sact v). semd_key s j \<noteq> 0 \<and> word_aligned (semd_key s j))
   \<and> (\<forall>j\<in>set (v_sact v). j \<noteq> e \<longrightarrow> v_procq v j \<noteq> [])
   \<and> (\<forall>j\<in>set (v_sact v). \<forall>i\<in>set (v_procq v j). p_sem_add (pcb_table s i) = semd_key s j)
   \<and> (\<forall>i. live v i \<longrightarrow> p_sem_add (pcb_table s i) \<noteq> 0 \<longrightarrow> blocked v i)"

lemma asl_rel_but_iff:
  "asl_rel s v \<longleftrightarrow> asl_rel_but e s v \<and> (e \<in> set (v_sact v) \<longrightarrow> v_procq v e \<noteq> [])"
proof -
  have A: "(\<forall>j\<in>set (v_sact v). semd_key s j \<noteq> 0 \<and> word_aligned (semd_key s j) \<and> v_procq v j \<noteq> [])
    \<longleftrightarrow> (\<forall>j\<in>set (v_sact v). semd_key s j \<noteq> 0 \<and> word_aligned (semd_key s j))
      \<and> (\<forall>j\<in>set (v_sact v). j \<noteq> e \<longrightarrow> v_procq v j \<noteq> []) \<and> (e \<in> set (v_sact v) \<longrightarrow> v_procq v e \<noteq> [])"
    by auto
  show ?thesis unfolding asl_rel_def asl_rel_but_def A by (simp only: conj_ac)
qed

lemma asl_rel_butD:
  assumes "asl_rel_but e s v"
  shows "pcb_rel s v" "splits_upto MAX_PROC (v_sfree v) (v_sact v)"
    "inj_on (semd_key s) (set (v_sact v))"
  using assms by (auto simp: asl_rel_but_def)

text \<open>The lists that blocking and unblocking leave alone.\<close>

definition same_lists :: "view \<Rightarrow> view \<Rightarrow> bool" where
  "same_lists v w \<longleftrightarrow> v_free w = v_free v \<and> v_lo w = v_lo v \<and> v_hi w = v_hi v \<and> v_child w = v_child v"

lemma live_procq [simp]: "live (v\<lparr>v_procq := f\<rparr>) = live v"
  by (simp add: live_def fun_eq_iff)

lemma same_lists_live: "same_lists v w \<Longrightarrow> live w = live v \<and> child_of w = child_of v"
  by (auto simp: same_lists_def live_def child_of_def fun_eq_iff)

lemma waiting_in:
  assumes "inj_on (semd_key s) (set (v_sact v))" "j \<in> set (v_sact v)"
  shows "waiting s v (semd_key s j) = v_procq v j"
proof -
  have "find (\<lambda>i. semd_key s i = semd_key s j) (v_sact v) = Some j"
    using assms by (intro find_unique) (auto simp: inj_on_def)
  then show ?thesis by (simp add: waiting_def)
qed

lemma waiting_out: "k \<notin> semd_key s ` set (v_sact v) \<Longrightarrow> waiting s v k = []"
  by (auto simp: waiting_def find_Some_iff split: option.split)

text \<open>
  Two views with the same queue for every key: how \<open>waiting\<close> follows from the change of one
  descriptor.
\<close>

lemma waiting_upd:
  assumes inj: "inj_on (semd_key s) (set (v_sact v))" "inj_on (semd_key s') (set (v_sact v'))"
    and keys: "\<And>j. j \<noteq> e \<Longrightarrow> j \<in> set (v_sact v') \<longleftrightarrow> j \<in> set (v_sact v)"
      "\<And>j. j \<noteq> e \<Longrightarrow> j \<in> set (v_sact v) \<Longrightarrow> semd_key s' j = semd_key s j \<and> v_procq v' j = v_procq v j"
    and old: "e \<in> set (v_sact v) \<Longrightarrow> semd_key s e = k"
    and new: "if e \<in> set (v_sact v') then semd_key s' e = k \<and> v_procq v' e = xs
      else k \<notin> semd_key s ` set (v_sact v') \<and> xs = []"
  shows "waiting s' v' = (waiting s v)(k := xs)"
proof
  fix l
  have act: "j \<in> set (v_sact v')" "semd_key s' j = semd_key s j" "v_procq v' j = v_procq v j"
    if "j \<noteq> e" "j \<in> set (v_sact v)" for j using keys that by auto
  show "waiting s' v' l = ((waiting s v)(k := xs)) l"
  proof (cases "l = k")
    case True
    show ?thesis
    proof (cases "e \<in> set (v_sact v')")
      case e: True
      then show ?thesis using waiting_in[OF inj(2) e] new True by simp
    next
      case e: False
      have "k \<notin> semd_key s' ` set (v_sact v')"
      proof
        assume "k \<in> semd_key s' ` set (v_sact v')"
        then obtain j where j: "j \<in> set (v_sact v')" "k = semd_key s' j" by blast
        then have "j \<noteq> e" using e by auto
        moreover from this have "j \<in> set (v_sact v)" using keys(1) j(1) by simp
        ultimately have "j \<noteq> e" "j \<in> set (v_sact v)" by simp_all
        with j show False using act(2) e new by auto
      qed
      then show ?thesis using waiting_out e new True by simp
    qed
  next
    case False
    show ?thesis
    proof (cases "l \<in> semd_key s ` (set (v_sact v) - {e})")
      case True
      then obtain j where j: "j \<in> set (v_sact v)" "j \<noteq> e" "l = semd_key s j" by blast
      then show ?thesis using waiting_in[OF inj(1) j(1)] waiting_in[OF inj(2) act(1)] act False by simp
    next
      case no: False
      have "l \<notin> semd_key s ` set (v_sact v)" using no old False by blast
      moreover have "l \<notin> semd_key s' ` set (v_sact v')"
      proof
        assume "l \<in> semd_key s' ` set (v_sact v')"
        then obtain j where j: "j \<in> set (v_sact v')" "l = semd_key s' j" by blast
        then show False using no False new keys by (cases "j = e") auto
      qed
      ultimately show ?thesis using waiting_out False by simp
    qed
  qed
qed

lemma alloc_semd_but:
  assumes "asl_rel s v" "v_sfree v = j # fs" "k \<noteq> 0" "word_aligned k" "k \<notin> semd_key s ` set (v_sact v)"
  shows "\<exists>h. alloc_semd k s = Some (Some j, upd_semd j (\<lambda>d. d\<lparr>s_key := k\<rparr>) (s\<lparr>lh := h\<rparr>))
    \<and> asl_rel_but j (upd_semd j (\<lambda>d. d\<lparr>s_key := k\<rparr>) (s\<lparr>lh := h\<rparr>)) (alloc_semd_view j v)"
proof -
  obtain h where h: "alloc_semd k s = Some (Some j, upd_semd j (\<lambda>d. d\<lparr>s_key := k\<rparr>) (s\<lparr>lh := h\<rparr>))"
    "pcb_rel (upd_semd j (\<lambda>d. d\<lparr>s_key := k\<rparr>) (s\<lparr>lh := h\<rparr>)) (alloc_semd_view j v)"
    using alloc_semd_rel[OF assms(1-3)] by blast
  let ?s = "upd_semd j (\<lambda>d. d\<lparr>s_key := k\<rparr>) (s\<lparr>lh := h\<rparr>)" and ?v = "alloc_semd_view j v"
  have j: "j \<notin> set (v_sact v)" using asl_relD(2)[OF assms(1)] assms(2) by (auto simp: splits_upto_def)
  have act: "v_sact ?v = j # v_sact v" "v_sfree ?v = fs" "live ?v = live v"
    using assms(2) by (auto simp: alloc_semd_view_def live_def fun_eq_iff)
  have blk: "blocked ?v i = blocked v i" for i
    using j by (auto simp: blocked_def alloc_semd_view_def)
  have key: "semd_key ?s i = semd_key s i" if "i \<in> set (v_sact v)" for i using that j by auto
  have q: "v_procq ?v i = v_procq v i" if "i \<in> set (v_sact v)" for i
    using that j by (auto simp: alloc_semd_view_def)
  have "asl_rel_but j ?s ?v"
    unfolding asl_rel_but_def act(1)
  proof (intro conjI)
    show "splits_upto MAX_PROC (v_sfree ?v) (j # v_sact v)"
      using asl_relD(2)[OF assms(1)] assms(2) act(2) splits_upto_move by simp
    show "inj_on (semd_key ?s) (set (j # v_sact v))"
      using asl_relD(3)[OF assms(1)] assms(5) key j by (auto simp: inj_on_def)
    show "\<forall>i\<in>set (j # v_sact v). semd_key ?s i \<noteq> 0 \<and> word_aligned (semd_key ?s i)"
      using asl_relD(4,5)[OF assms(1)] assms(3,4) by simp
    show "\<forall>i\<in>set (j # v_sact v). i \<noteq> j \<longrightarrow> v_procq ?v i \<noteq> []"
      using asl_relD(6)[OF assms(1)] q by simp
    show "\<forall>l\<in>set (j # v_sact v). \<forall>i\<in>set (v_procq ?v l). p_sem_add (pcb_table ?s i) = semd_key ?s l"
      using asl_relD(7)[OF assms(1)] q key by (auto simp: alloc_semd_view_def)
    show "\<forall>i. live ?v i \<longrightarrow> p_sem_add (pcb_table ?s i) \<noteq> 0 \<longrightarrow> blocked ?v i"
      using asl_relD(8)[OF assms(1)] blk act(3) by simp
  qed (rule h(2))
  with h(1) show ?thesis by blast
qed

lemma block_step:
  assumes "asl_rel_but j s v" "j \<in> set (v_sact v)" "live v i" "\<not> queued v i"
  shows "\<exists>h. on_lists (list_add_tail (Some (p_list i)) (Some (s_procq j))) s = Some (s\<lparr>lh := h\<rparr>)
    \<and> asl_rel (upd_pcb i (\<lambda>p. p\<lparr>p_sem_add := semd_key s j\<rparr>) (s\<lparr>lh := h\<rparr>))
        (set_queue v (s_procq j) (v_procq v j @ [i]))"
proof -
  have i: "i < MAX_PROC" using assms(3) by (simp add: live_def)
  let ?v = "set_queue v (s_procq j) (v_procq v j @ [i])"
  obtain h where h: "on_lists (list_add_tail (Some (p_list i)) (Some (s_procq j))) s = Some (s\<lparr>lh := h\<rparr>)"
    "pcb_rel (s\<lparr>lh := h\<rparr>) ?v"
    using in_queue_step[OF asl_rel_butD(1)[OF assms(1)] _ assms(4) i, of "s_procq j"] assms(2) by auto
  let ?s = "upd_pcb i (\<lambda>p. p\<lparr>p_sem_add := semd_key s j\<rparr>) (s\<lparr>lh := h\<rparr>)"
  note A = assms(1)[unfolded asl_rel_but_def]
  have ni: "i \<notin> set (v_procq v l)" if "l \<in> set (v_sact v)" for l
    using assms(4) that by (auto simp: queued_def blocked_def)
  have "asl_rel ?s ?v"
    unfolding asl_rel_def
  proof (intro conjI)
    show "pcb_rel ?s ?v"
      using h(2) pcb_rel_cong[of ?s "s\<lparr>lh := h\<rparr>" ?v] by simp
    show "splits_upto MAX_PROC (v_sfree ?v) (v_sact ?v)" using A by simp
    show "inj_on (semd_key ?s) (set (v_sact ?v))" using A by simp
    show "\<forall>j\<in>set (v_sact ?v). semd_key ?s j \<noteq> 0 \<and> word_aligned (semd_key ?s j) \<and> v_procq ?v j \<noteq> []"
      using A by simp
    show "\<forall>l\<in>set (v_sact ?v). \<forall>k\<in>set (v_procq ?v l). p_sem_add (pcb_table ?s k) = semd_key ?s l"
      using A ni by auto
    show "\<forall>k. live ?v k \<longrightarrow> p_sem_add (pcb_table ?s k) \<noteq> 0 \<longrightarrow> blocked ?v k"
    proof (intro allI impI)
      fix k assume k: "live ?v k" "p_sem_add (pcb_table ?s k) \<noteq> 0"
      show "blocked ?v k"
      proof (cases "k = i")
        case True
        then show ?thesis using assms(2) by (auto simp: blocked_def)
      next
        case False
        then have "blocked v k" using k A by simp
        then show ?thesis by (auto simp: blocked_def)
      qed
    qed
  qed
  with h(1) show ?thesis by blast
qed

lemma unblock_step:
  assumes "asl_rel s v" "j \<in> set (v_sact v)" "i \<in> set (v_procq v j)"
  shows "\<exists>h. on_lists (list_sdel (Some (p_list i))) s = Some (s\<lparr>lh := h\<rparr>)
    \<and> asl_rel_but j (upd_pcb i (\<lambda>p. p\<lparr>p_sem_add := 0\<rparr>) (s\<lparr>lh := h\<rparr>))
        (set_queue v (s_procq j) (remove1 i (v_procq v j)))"
proof -
  let ?v = "set_queue v (s_procq j) (remove1 i (v_procq v j))"
  obtain h where h: "on_lists (list_sdel (Some (p_list i))) s = Some (s\<lparr>lh := h\<rparr>)"
    "pcb_rel (s\<lparr>lh := h\<rparr>) ?v"
    using out_queue_step[OF asl_relD(1)[OF assms(1)], of "s_procq j" i] assms(2,3) by auto
  let ?s = "upd_pcb i (\<lambda>p. p\<lparr>p_sem_add := 0\<rparr>) (s\<lparr>lh := h\<rparr>)"
  note A = assms(1)[unfolded asl_rel_def]
  have d: "distinct (v_procq v j)"
    using pcb_rel_distinct(2)[OF asl_relD(1)[OF assms(1)], of "s_procq j"] assms(2) by simp
  have ni: "i \<notin> set (v_procq v l)" if "l \<in> set (v_sact v)" "l \<noteq> j" for l
    using queues_disjoint(2)[OF asl_relD(1)[OF assms(1)], of "s_procq j" i "s_procq l"] assms(2,3) that
    by auto
  have "asl_rel_but j ?s ?v"
    unfolding asl_rel_but_def
  proof (intro conjI)
    show "pcb_rel ?s ?v"
      using h(2) pcb_rel_cong[of ?s "s\<lparr>lh := h\<rparr>" ?v] by simp
    show "splits_upto MAX_PROC (v_sfree ?v) (v_sact ?v)" using A by simp
    show "inj_on (semd_key ?s) (set (v_sact ?v))" using A by simp
    show "\<forall>j\<in>set (v_sact ?v). semd_key ?s j \<noteq> 0 \<and> word_aligned (semd_key ?s j)" using A by simp
    show "\<forall>l\<in>set (v_sact ?v). l \<noteq> j \<longrightarrow> v_procq ?v l \<noteq> []" using A by simp
    show "\<forall>l\<in>set (v_sact ?v). \<forall>k\<in>set (v_procq ?v l). p_sem_add (pcb_table ?s k) = semd_key ?s l"
      using A ni d by auto
    show "\<forall>k. live ?v k \<longrightarrow> p_sem_add (pcb_table ?s k) \<noteq> 0 \<longrightarrow> blocked ?v k"
    proof (intro allI impI)
      fix k assume k: "live ?v k" "p_sem_add (pcb_table ?s k) \<noteq> 0"
      then have "k \<noteq> i" "blocked v k" using A by (auto split: if_splits)
      then show "blocked ?v k" using d by (auto simp: blocked_def)
    qed
  qed
  with h(1) show ?thesis by blast
qed

lemma free_semd_but:
  assumes "asl_rel_but j s v" "j \<in> set (v_sact v)" "v_procq v j = []"
  shows "\<exists>h. free_semd (Some j) s = Some (False, s\<lparr>lh := h\<rparr>) \<and> asl_rel (s\<lparr>lh := h\<rparr>) (free_semd_view j v)"
proof -
  note A = assms(1)[unfolded asl_rel_but_def]
  obtain h where h: "free_semd (Some j) s = Some (False, s\<lparr>lh := h\<rparr>)"
    "pcb_rel (s\<lparr>lh := h\<rparr>) (free_semd_view j v)"
    using free_semd_rel[OF asl_rel_butD(1,2)[OF assms(1)] assms(2,3)] by blast
  let ?v = "free_semd_view j v"
  have d: "distinct (v_sact v)" using asl_rel_butD(2)[OF assms(1)] by (auto simp: splits_upto_def)
  have act: "v_sact ?v = remove1 j (v_sact v)" "v_procq ?v = v_procq v" "live ?v = live v"
    "v_sfree ?v = j # v_sfree v"
    by (auto simp: free_semd_view_def live_def fun_eq_iff)
  have blk: "blocked ?v i = blocked v i" for i
    using d assms(3) by (auto simp: blocked_def free_semd_view_def)
  have "asl_rel (s\<lparr>lh := h\<rparr>) ?v"
    unfolding asl_rel_def act
  proof (intro conjI)
    show "splits_upto MAX_PROC (j # v_sfree v) (remove1 j (v_sact v))"
      using splits_upto_back[OF asl_rel_butD(2)[OF assms(1)] assms(2)] .
    show "inj_on (semd_key (s\<lparr>lh := h\<rparr>)) (set (remove1 j (v_sact v)))"
      using asl_rel_butD(3)[OF assms(1)] by (simp add: inj_on_def d)
    show "\<forall>i. live v i \<longrightarrow> p_sem_add (pcb_table (s\<lparr>lh := h\<rparr>) i) \<noteq> 0 \<longrightarrow> blocked ?v i"
      using A blk by simp
  qed (use h(2) A d in auto)
  with h(1) show ?thesis by blast
qed

subsection \<open>The operations on the map of queues\<close>

lemma not_blocked_sem_add:
  "asl_rel s v \<Longrightarrow> live v i \<Longrightarrow> \<not> blocked v i \<Longrightarrow> p_sem_add (pcb_table s i) = 0"
  using asl_relD(8) by blast

lemma insert_blocked_rel:
  assumes "asl_rel s v" "live v i" "\<not> queued v i" "k \<noteq> 0" "word_aligned k"
  shows "\<exists>h t v'. insert_blocked k (Some i) s
      = Some (0, upd_pcb i (\<lambda>p. p\<lparr>p_sem_add := k\<rparr>) (s\<lparr>lh := h, semd_table := t\<rparr>))
    \<and> asl_rel (upd_pcb i (\<lambda>p. p\<lparr>p_sem_add := k\<rparr>) (s\<lparr>lh := h, semd_table := t\<rparr>)) v'
    \<and> waiting (upd_pcb i (\<lambda>p. p\<lparr>p_sem_add := k\<rparr>) (s\<lparr>lh := h, semd_table := t\<rparr>)) v'
      = (waiting s v)(k := waiting s v k @ [i])
    \<and> same_lists v v'"
proof -
  have nb: "\<not> blocked v i" "p_sem_add (pcb_table s i) = 0"
    using assms(3) not_blocked_sem_add[OF assms(1,2)] by (auto simp: queued_def)
  note find = find_semd_rel[OF assms(1), of k]
  show ?thesis
  proof (cases "find (\<lambda>j. semd_key s j = k) (v_sact v)")
    case (Some j)
    then have j: "j \<in> set (v_sact v)" "semd_key s j = k" using find_key[OF assms(1)] by auto
    let ?v = "set_queue v (s_procq j) (v_procq v j @ [i])"
    obtain h where h: "on_lists (list_add_tail (Some (p_list i)) (Some (s_procq j))) s = Some (s\<lparr>lh := h\<rparr>)"
      "asl_rel (upd_pcb i (\<lambda>p. p\<lparr>p_sem_add := k\<rparr>) (s\<lparr>lh := h\<rparr>)) ?v"
      using block_step[of j s v i] asl_rel_but_iff[of s v j] assms(1-3) j by auto
    let ?s = "upd_pcb i (\<lambda>p. p\<lparr>p_sem_add := k\<rparr>) (s\<lparr>lh := h, semd_table := semd_table s\<rparr>)"
    have "waiting ?s ?v = (waiting s v)(k := v_procq v j @ [i])"
      by (rule waiting_upd[OF asl_relD(3)[OF assms(1)], where e = j])
        (use asl_relD(3)[OF assms(1)] j in auto)
    moreover have "insert_blocked k (Some i) s = Some (0, ?s)"
      using h(1) nb(2) find assms(4,5) Some by (simp add: insert_blocked_def)
    moreover have "same_lists v ?v" by (simp add: same_lists_def)
    ultimately show ?thesis
      using h(2) waiting_key[OF assms(1) j(1)] j(2)
      by (intro exI[of _ h] exI[of _ "semd_table s"] exI[of _ ?v]) simp
  next
    case None
    obtain j fs where j: "v_sfree v = j # fs"
      using semd_available[OF assms(1) _ nb(1)] assms(2) by (cases "v_sfree v") (auto simp: live_def)
    have nk: "k \<notin> semd_key s ` set (v_sact v)" using None by (auto simp: find_None_iff)
    obtain h1 where h1: "alloc_semd k s = Some (Some j, upd_semd j (\<lambda>d. d\<lparr>s_key := k\<rparr>) (s\<lparr>lh := h1\<rparr>))"
      "asl_rel_but j (upd_semd j (\<lambda>d. d\<lparr>s_key := k\<rparr>) (s\<lparr>lh := h1\<rparr>)) (alloc_semd_view j v)"
      using alloc_semd_but[OF assms(1) j assms(4,5) nk] by blast
    let ?s1 = "upd_semd j (\<lambda>d. d\<lparr>s_key := k\<rparr>) (s\<lparr>lh := h1\<rparr>)" and ?v1 = "alloc_semd_view j v"
    have j1: "j \<in> set (v_sact ?v1)" "v_procq ?v1 j = []" "live ?v1 i" "semd_key ?s1 j = k"
      using assms(2) by (auto simp: alloc_semd_view_def live_def)
    have ja: "j \<notin> set (v_sact v)"
      using asl_relD(2)[OF assms(1)] j by (auto simp: splits_upto_def)
    have nq: "\<not> queued ?v1 i"
      using assms(3) ja by (auto simp: queued_def blocked_def alloc_semd_view_def)
    let ?v = "set_queue ?v1 (s_procq j) [i]"
    obtain h where h: "on_lists (list_add_tail (Some (p_list i)) (Some (s_procq j))) ?s1 = Some (?s1\<lparr>lh := h\<rparr>)"
      "asl_rel (upd_pcb i (\<lambda>p. p\<lparr>p_sem_add := k\<rparr>) (?s1\<lparr>lh := h\<rparr>)) ?v"
      using block_step[OF h1(2) j1(1,3) nq] j1(2,4) by auto
    let ?t = "(semd_table s)(j := (semd_table s j)\<lparr>s_key := k\<rparr>)"
    let ?s = "upd_pcb i (\<lambda>p. p\<lparr>p_sem_add := k\<rparr>) (s\<lparr>lh := h, semd_table := ?t\<rparr>)"
    have eq: "?s1\<lparr>lh := h\<rparr> = s\<lparr>lh := h, semd_table := ?t\<rparr>" by (simp add: upd_semd_def)
    have "waiting ?s ?v = (waiting s v)(k := [i])"
    proof (rule waiting_upd[OF asl_relD(3)[OF assms(1)], where e = j])
      show "inj_on (semd_key ?s) (set (v_sact ?v))"
        using asl_relD(3)[OF h(2)] by (simp add: eq)
    qed (use ja nk in \<open>auto simp: alloc_semd_view_def\<close>)
    moreover have "insert_blocked k (Some i) s = Some (0, ?s)"
      using h(1) h1(1) nb(2) find assms(4,5) None eq by (simp add: insert_blocked_def)
    moreover have "same_lists v ?v" by (simp add: same_lists_def alloc_semd_view_def)
    moreover have "waiting s v k = []" using waiting_out[OF nk] .
    ultimately show ?thesis
      using h(2) eq by (intro exI[of _ h] exI[of _ ?t] exI[of _ ?v]) simp
  qed
qed

lemma out_blocked_rel:
  assumes "asl_rel s v" "blocked v i" "k = p_sem_add (pcb_table s i)"
  shows "\<exists>h v'. out_blocked (Some i) s = Some (Some i, upd_pcb i (\<lambda>p. p\<lparr>p_sem_add := 0\<rparr>) (s\<lparr>lh := h\<rparr>))
    \<and> asl_rel (upd_pcb i (\<lambda>p. p\<lparr>p_sem_add := 0\<rparr>) (s\<lparr>lh := h\<rparr>)) v'
    \<and> waiting (upd_pcb i (\<lambda>p. p\<lparr>p_sem_add := 0\<rparr>) (s\<lparr>lh := h\<rparr>)) v'
      = (waiting s v)(k := remove1 i (waiting s v k))
    \<and> same_lists v v'"
proof -
  obtain j where j: "j \<in> set (v_sact v)" "i \<in> set (v_procq v j)"
    using assms(2) by (auto simp: blocked_def)
  have k: "semd_key s j = k" "word_aligned k" "k \<noteq> 0"
    using asl_relD(4,5,7)[OF assms(1) j(1)] j(2) assms(3) by auto
  have find: "find_semd (Some semd_h) k s = Some (Some j)"
    using find_semd_rel[OF assms(1), of k] k find_key[OF assms(1), of k j] j(1) by simp
  have w: "waiting s v k = v_procq v j" using waiting_key[OF assms(1) j(1)] k(1) by simp
  let ?v = "set_queue v (s_procq j) (remove1 i (v_procq v j))"
  obtain h where h: "on_lists (list_sdel (Some (p_list i))) s = Some (s\<lparr>lh := h\<rparr>)"
    "asl_rel_but j (upd_pcb i (\<lambda>p. p\<lparr>p_sem_add := 0\<rparr>) (s\<lparr>lh := h\<rparr>)) ?v"
    using unblock_step[OF assms(1) j] by blast
  let ?s = "upd_pcb i (\<lambda>p. p\<lparr>p_sem_add := 0\<rparr>) (s\<lparr>lh := h\<rparr>)"
  have q: "list_contains (p_list i) (Some (s_procq j)) (lh s) = Some True"
    "list_empty (Some (s_procq j)) h = Some (remove1 i (v_procq v j) = [])"
    using pcb_rel_ring(2)[OF asl_relD(1)[OF assms(1)], of "s_procq j"] j
      pcb_rel_ring(2)[OF asl_rel_butD(1)[OF h(2)], of "s_procq j"]
    by (auto simp: list_contains_ring list_empty_ring simp del: ring_Nil)
  show ?thesis
  proof (cases "remove1 i (v_procq v j) = []")
    case False
    have "asl_rel ?s ?v" using h(2) False asl_rel_but_iff[of ?s ?v j] by simp
    moreover have "waiting ?s ?v = (waiting s v)(k := remove1 i (v_procq v j))"
      by (rule waiting_upd[OF asl_relD(3)[OF assms(1)], where e = j])
        (use asl_relD(3)[OF assms(1)] j k in auto)
    moreover have "out_blocked (Some i) s = Some (Some i, ?s)"
      using find q h(1) False assms(3) by (simp add: out_blocked_def)
    ultimately show ?thesis using w by (intro exI[of _ h] exI[of _ ?v]) (simp add: same_lists_def)
  next
    case True
    obtain h2 where h2: "free_semd (Some j) ?s = Some (False, ?s\<lparr>lh := h2\<rparr>)"
      "asl_rel (?s\<lparr>lh := h2\<rparr>) (free_semd_view j ?v)"
      using free_semd_but[OF h(2), of] j(1) True by auto
    let ?v2 = "free_semd_view j ?v" and ?s2 = "upd_pcb i (\<lambda>p. p\<lparr>p_sem_add := 0\<rparr>) (s\<lparr>lh := h2\<rparr>)"
    have eq: "?s\<lparr>lh := h2\<rparr> = ?s2" by (simp add: upd_pcb_def)
    have d: "distinct (v_sact v)" using asl_relD(2)[OF assms(1)] by (auto simp: splits_upto_def)
    have act: "set (v_sact ?v2) = set (v_sact v) - {j}" using d by (simp add: free_semd_view_def)
    have "k \<notin> semd_key s ` (set (v_sact v) - {j})"
      using asl_relD(3)[OF assms(1)] j(1) k(1) by (auto simp: inj_on_def)
    then have "waiting ?s2 ?v2 = (waiting s v)(k := [])"
      by (intro waiting_upd[OF asl_relD(3)[OF assms(1)], where e = j])
        (use asl_relD(3)[OF h2(2)] act k in \<open>auto simp: eq free_semd_view_def\<close>)
    moreover have "out_blocked (Some i) s = Some (Some i, ?s2)"
      using find q h(1) h2(1) True assms(3) by (simp add: out_blocked_def eq)
    ultimately show ?thesis using w True h2(2) eq
      by (intro exI[of _ h2] exI[of _ ?v2]) (simp add: same_lists_def free_semd_view_def)
  qed
qed

lemma out_blocked_notin:
  assumes "asl_rel s v" "live v i" "\<not> blocked v i"
  shows "out_blocked (Some i) s = Some (None, s)"
  using not_blocked_sem_add[OF assms] by (simp add: out_blocked_def find_semd_def)

lemma head_blocked_rel:
  assumes "asl_rel s v" "k = 0 \<or> word_aligned k"
  shows "head_blocked k s = Some (case waiting s v k of [] \<Rightarrow> None | i # _ \<Rightarrow> Some i)"
proof (cases "find (\<lambda>j. semd_key s j = k) (v_sact v)")
  case None
  then show ?thesis using find_semd_rel[OF assms] by (simp add: head_blocked_def waiting_def)
next
  case (Some j)
  then have j: "j \<in> set (v_sact v)" "semd_key s j = k" using find_key[OF assms(1)] by auto
  obtain i xs where q: "v_procq v j = i # xs"
    using asl_relD(6)[OF assms(1) j(1)] by (cases "v_procq v j") auto
  have "ring (lh s) (s_procq j) (p_list i # map p_list xs)"
    using pcb_rel_ring(2)[OF asl_relD(1)[OF assms(1)], of "s_procq j"] j q by simp
  from ring_next[OF this] show ?thesis
    using find_semd_rel[OF assms] Some asl_relD(4)[OF assms(1) j(1)] j(2) q
    by (simp add: head_blocked_def waiting_def)
qed

lemma remove_blocked_Nil:
  assumes "asl_rel s v" "k = 0 \<or> word_aligned k" "waiting s v k = []"
  shows "remove_blocked k s = Some (None, s)"
  using head_blocked_rel[OF assms(1,2)] assms(3) by (simp add: remove_blocked_def out_blocked_def)

lemma waiting_sem_add:
  assumes "asl_rel s v" "i \<in> set (waiting s v k)"
  shows "blocked v i" "p_sem_add (pcb_table s i) = k" "k \<noteq> 0" "word_aligned k"
proof -
  show b: "blocked v i" using blocked_waiting[OF assms(1)] assms(2) by blast
  obtain j where "find (\<lambda>j. semd_key s j = k) (v_sact v) = Some j" "i \<in> set (v_procq v j)"
    using assms(2) by (cases "find (\<lambda>j. semd_key s j = k) (v_sact v)") (auto simp: waiting_def)
  then show "p_sem_add (pcb_table s i) = k" "k \<noteq> 0" "word_aligned k"
    using find_key[OF assms(1)] asl_relD(4,5,7)[OF assms(1)] by auto
qed

lemma remove_blocked_Cons:
  assumes "asl_rel s v" "waiting s v k = i # xs"
  shows "\<exists>h v'. remove_blocked k s = Some (Some i, upd_pcb i (\<lambda>p. p\<lparr>p_sem_add := 0\<rparr>) (s\<lparr>lh := h\<rparr>))
    \<and> asl_rel (upd_pcb i (\<lambda>p. p\<lparr>p_sem_add := 0\<rparr>) (s\<lparr>lh := h\<rparr>)) v'
    \<and> waiting (upd_pcb i (\<lambda>p. p\<lparr>p_sem_add := 0\<rparr>) (s\<lparr>lh := h\<rparr>)) v' = (waiting s v)(k := xs)
    \<and> same_lists v v'"
proof -
  note w = waiting_sem_add[OF assms(1), of i k]
  have i: "blocked v i" "k = p_sem_add (pcb_table s i)" "word_aligned k" using w assms(2) by auto
  from out_blocked_rel[OF assms(1) i(1,2)] show ?thesis
    using head_blocked_rel[OF assms(1), of k] i(3) assms(2) by (auto simp: remove_blocked_def)
qed

lemma not_queued_live: "i < MAX_PROC \<Longrightarrow> \<not> queued v i \<Longrightarrow> live v i"
  by (auto simp: queued_def live_def)

lemma queued_same_lists:
  assumes "asl_rel s v" "asl_rel s' v'" "same_lists v v'" "waiting s' v' = (waiting s v)(k := xs)"
  shows "queued v' i \<longleftrightarrow> i \<in> set (v_free v) \<or> i \<in> set (v_lo v) \<or> i \<in> set (v_hi v)
    \<or> i \<in> set xs \<or> (\<exists>l. l \<noteq> k \<and> i \<in> set (waiting s v l))"
  using assms(3) blocked_waiting[OF assms(2), of i] assms(4) by (auto simp: queued_def same_lists_def)

section \<open>Semaphore queues as queues\<close>

definition holds_blocked :: "kstate \<Rightarrow> u32 \<Rightarrow> nat list \<Rightarrow> bool" where
  "holds_blocked s k xs \<longleftrightarrow> k \<noteq> 0 \<and> word_aligned k \<and> (\<exists>v. asl_rel s v \<and> waiting s v k = xs)"

text \<open>Blocking as an operation that succeeds with code 0 or not at all.\<close>

definition block_on :: "u32 \<Rightarrow> nat \<Rightarrow> kstate \<Rightarrow> kstate option" where
  "block_on k i s = do {
     (code, s) \<leftarrow> insert_blocked k (Some i) s;
     if code = 0 then Some s else None
   }"

interpretation sem_q: fifo holds_blocked detached block_on remove_blocked
proof unfold_locales
  fix s k xs i
  assume "holds_blocked s k xs" "detached s i"
  then obtain v where k: "k \<noteq> 0" "word_aligned k" and v: "asl_rel s v" "waiting s v k = xs"
    by (auto simp: holds_blocked_def)
  have i: "i < MAX_PROC" "\<not> queued v i"
    using \<open>detached s i\<close> detached_iff[OF asl_relD(1)[OF v(1)]] by auto
  obtain s' v' where s': "insert_blocked k (Some i) s = Some (0, s')" "asl_rel s' v'"
    "waiting s' v' = (waiting s v)(k := xs @ [i])" "same_lists v v'"
    using insert_blocked_rel[OF v(1) not_queued_live[OF i] i(2) k] v(2) by blast
  have "\<not> queued v' j" if "j \<noteq> i" "\<not> queued v j" for j
    using that queued_same_lists[OF v(1) s'(2,4,3)] blocked_waiting[OF v(1), of j] v(2)
    by (auto simp: queued_def)
  then have "\<forall>j. j \<noteq> i \<longrightarrow> detached s j \<longrightarrow> detached s' j"
    using detached_iff[OF asl_relD(1)[OF v(1)]] detached_iff[OF asl_relD(1)[OF s'(2)]] by blast
  then show "\<exists>s'. block_on k i s = Some s' \<and> holds_blocked s' k (xs @ [i])
      \<and> (\<forall>j. j \<noteq> i \<longrightarrow> detached s j \<longrightarrow> detached s' j)"
    using s' k by (auto simp: block_on_def holds_blocked_def)
next
  fix s k x xs
  assume "holds_blocked s k (x # xs)"
  then obtain v where v: "k \<noteq> 0" "word_aligned k" "asl_rel s v" "waiting s v k = x # xs"
    by (auto simp: holds_blocked_def)
  obtain s' v' where s': "remove_blocked k s = Some (Some x, s')" "asl_rel s' v'"
    "waiting s' v' = (waiting s v)(k := xs)"
    using remove_blocked_Cons[OF v(3,4)] by blast
  then show "\<exists>s'. remove_blocked k s = Some (Some x, s') \<and> holds_blocked s' k xs"
    using v(1,2) by (auto simp: holds_blocked_def intro!: exI[of _ v'])
next
  fix s k
  assume "holds_blocked s k []"
  then show "remove_blocked k s = Some (None, s)"
    using remove_blocked_Nil by (auto simp: holds_blocked_def)
qed

section \<open>Initialisation\<close>

lemma init_asl_rings:
  assumes "rings (lh s) R" "semd_free \<notin> ring_nodes R" "semd_h \<notin> ring_nodes R"
    "\<And>j. s_link j \<notin> ring_nodes R"
  shows "\<exists>h. init_asl s = Some (s\<lparr>lh := h\<rparr>)
    \<and> rings h (R(semd_h \<mapsto> [], semd_free \<mapsto> map s_link (rev [0..<MAX_PROC])))
    \<and> same_on (- (insert semd_free (insert semd_h (range s_link)))) (lh s) h"
proof -
  let ?F = "insert semd_free (insert semd_h (range s_link))"
  let ?I = "\<lambda>pre t. \<exists>h. t = s\<lparr>lh := h\<rparr> \<and> rings h (R(semd_h \<mapsto> [], semd_free \<mapsto> map s_link (rev pre)))
    \<and> same_on (- ?F) (lh s) h"
  obtain h0 where h0: "INIT_LIST_HEAD (Some semd_free) (lh s) = Some h0" "rings h0 (R(semd_free \<mapsto> []))"
    "same_on (- {semd_free}) (lh s) h0"
    using rings_init[OF assms(1,2)] by blast
  have "semd_h \<notin> ring_nodes (R(semd_free \<mapsto> []))"
    using assms(3) by (auto simp: ring_nodes_def split: if_splits)
  then obtain h1 where h1: "INIT_LIST_HEAD (Some semd_h) h0 = Some h1"
    "rings h1 (R(semd_free \<mapsto> [], semd_h \<mapsto> []))" "same_on (- {semd_h}) h0 h1"
    using rings_init[OF h0(2)] by blast
  have "\<exists>s'. for_each [0..<MAX_PROC] (\<lambda>i. on_lists (list_add (Some (s_link i)) (Some semd_free)))
      (s\<lparr>lh := h1\<rparr>) = Some s' \<and> ?I [0..<MAX_PROC] s'"
  proof (rule for_each_invariant)
    have "same_on (- ?F) (lh s) h1"
      by (rule same_on_trans[OF same_on_subset[OF h0(3)] same_on_subset[OF h1(3)]]) auto
    then show "?I [] (s\<lparr>lh := h1\<rparr>)"
      using h1(2) by (intro exI[of _ h1]) (simp add: fun_upd_twist)
  next
    fix pre x rest t
    assume split: "[0..<MAX_PROC] = pre @ x # rest" and "?I pre t"
    then obtain h where h: "t = s\<lparr>lh := h\<rparr>"
      "rings h (R(semd_h \<mapsto> [], semd_free \<mapsto> map s_link (rev pre)))" "same_on (- ?F) (lh s) h" by blast
    have x: "x \<notin> set pre" using arg_cong[OF split, of distinct] by simp
    have "s_link x \<notin> ring_nodes (R(semd_h \<mapsto> [], semd_free \<mapsto> map s_link (rev pre)))"
      using assms(4)[of x] x by (auto simp: ring_nodes_def split: if_splits)
    then obtain h' where h': "list_add (Some (s_link x)) (Some semd_free) h = Some h'"
      "rings h' (R(semd_h \<mapsto> [], semd_free \<mapsto> s_link x # map s_link (rev pre)))"
      "same_on (- (insert (s_link x) (insert semd_free (set (map s_link (rev pre)))))) h h'"
      using rings_add[OF h(2), of semd_free "map s_link (rev pre)" "s_link x"] by auto
    have "same_on (- ?F) h h'" using h'(3) by (rule same_on_subset) auto
    with h(3) have "same_on (- ?F) (lh s) h'" by (rule same_on_trans)
    then show "\<exists>t'. on_lists (list_add (Some (s_link x)) (Some semd_free)) t = Some t' \<and> ?I (pre @ [x]) t'"
      using h(1) h'(1,2) by (auto simp: on_lists_def intro!: exI[of _ h'])
  qed
  then obtain h where "init_asl s = Some (s\<lparr>lh := h\<rparr>)"
    "rings h (R(semd_h \<mapsto> [], semd_free \<mapsto> map s_link (rev [0..<MAX_PROC])))" "same_on (- ?F) (lh s) h"
    using h0(1) h1(1) by (auto simp: init_asl_def on_lists_def simp del: upt_rec_numeral)
  then show ?thesis by (intro exI[of _ h]) simp
qed

end
