(* ===== verification/Processor.thy ===== *)
theory Processor
  imports Asl
begin

text \<open>
  The architecture layer: \<^verbatim>\<open>phase2/src/processor.c\<close> (status and cause registers),
  \<^verbatim>\<open>phase2/src/devices.c\<close> (which device a command address belongs to, timers) and
  \<^verbatim>\<open>phase2/src/semaphores.c\<close> (the array of device semaphores). A function that updates a status
  word through a pointer is a function from the old word to the new one.

  A message passed to \<^verbatim>\<open>scheduler_panic\<close> is printed on terminal 0 before the machine stops; the
  model keeps it in the exit value.
\<close>

section \<open>Status and cause registers\<close>

definition scheduler_panic :: "string \<Rightarrow> kstate \<Rightarrow> 'a kres option" where
  "scheduler_panic msg s = Some (Exit (PANIC msg) s)"

definition init_puv :: "u32 \<Rightarrow> u32 \<Rightarrow> kstate \<Rightarrow> kstate" where
  "init_puv tlb_refill_handler exception_handler s = s\<lparr>passupvector :=
     \<lparr>pv_tlb_refill_handler = tlb_refill_handler, pv_tlb_refill_stackPtr = KERNELSTACK,
      pv_exception_handler = exception_handler, pv_exception_stackPtr = KERNELSTACK\<rparr>\<rparr>"

definition is_user_mode :: "kstate \<Rightarrow> u32 option" where
  "is_user_mode s = map_option
     (\<lambda>i. drop_bit 31 (push_bit 28 (status (p_s (pcb_table s i))))) (active_process s)"

definition status_interrupts_on_nucleus :: "umps \<Rightarrow> u32 \<Rightarrow> u32" where
  "status_interrupts_on_nucleus U prev = prev OR STATUS_IEc U"

definition status_interrupts_off_nucleus :: "umps \<Rightarrow> u32 \<Rightarrow> u32" where
  "status_interrupts_off_nucleus U prev = (prev OR STATUS_IEc U) XOR STATUS_IEc U"

definition status_interrupts_on_process :: "umps \<Rightarrow> u32 \<Rightarrow> u32" where
  "status_interrupts_on_process U prev = prev OR STATUS_IEp U"

definition status_local_timer_toggle :: "umps \<Rightarrow> u32 \<Rightarrow> u32" where
  "status_local_timer_toggle U prev = prev XOR STATUS_TE U"

definition status_local_timer_on :: "umps \<Rightarrow> u32 \<Rightarrow> u32" where
  "status_local_timer_on U prev = prev OR (STATUS_TE U OR STATUS_IM U (IL_TIMER U))"

definition status_local_timer_off :: "umps \<Rightarrow> u32 \<Rightarrow> u32" where
  "status_local_timer_off U prev =
     (prev OR (STATUS_TE U OR STATUS_IM U (IL_TIMER U))) XOR (STATUS_TE U OR STATUS_IM U (IL_TIMER U))"

definition status_local_timer_on_process :: "umps \<Rightarrow> u32 \<Rightarrow> u32" where
  "status_local_timer_on_process U prev = prev OR (STATUS_TE U OR STATUS_IM U (IL_TIMER U))"

definition status_kernel_mode_on_nucleus :: "umps \<Rightarrow> u32 \<Rightarrow> u32" where
  "status_kernel_mode_on_nucleus U prev = (prev OR STATUS_KUc U) XOR STATUS_KUc U"

definition status_kernel_mode_off_nucleus :: "umps \<Rightarrow> u32 \<Rightarrow> u32" where
  "status_kernel_mode_off_nucleus U prev = prev OR STATUS_KUc U"

definition status_kernel_mode_on_process :: "umps \<Rightarrow> u32 \<Rightarrow> u32" where
  "status_kernel_mode_on_process U prev = (prev OR STATUS_KUp U) XOR STATUS_KUp U"

definition status_kernel_mode_off_process :: "umps \<Rightarrow> u32 \<Rightarrow> u32" where
  "status_kernel_mode_off_process U prev = prev OR STATUS_KUc U"

definition cause_clean :: "u32 \<Rightarrow> u32" where
  "cause_clean prev = prev AND CLEAREXECCODE"

definition cause_reserved_instruction :: "umps \<Rightarrow> u32 \<Rightarrow> u32" where
  "cause_reserved_instruction U prev = prev OR push_bit CAUSESHIFT (EXC_RI U)"

section \<open>Device semaphores\<close>

text \<open>The array \<^verbatim>\<open>semaphores\<close>, at the address \<open>semaphores_addr\<close>; its last entry is the timer's.\<close>

definition SEMAPHORES_NUM :: "umps \<Rightarrow> nat" where
  "SEMAPHORES_NUM U = (DEVINTNUM U + 1) * DEVPERINT U + 1"

definition sem_addr_of :: "umps \<Rightarrow> int \<Rightarrow> u32" where
  "sem_addr_of U k = semaphores_addr U + 4 * word_of_int k"

definition get_semaphore :: "umps \<Rightarrow> int \<Rightarrow> int \<Rightarrow> bool \<Rightarrow> kstate \<Rightarrow> u32 kres option" where
  "get_semaphore U int_l dev_n is_w s =
     (if int_l > int (IL_TERMINAL U) \<or> int_l < int (IL_DISK U)
      then scheduler_panic ''Semaphore not found\<newline>'' s
      else
        let sem = (int_l - int (IL_DISK U)) * int (DEVPERINT U);
            sem = (if int_l = int (IL_TERMINAL U) then sem + (2 * dev_n + (if is_w then 1 else 0))
                   else sem + dev_n)
        in Some (Ret (sem_addr_of U sem) s))"

definition get_timer_semaphore :: "umps \<Rightarrow> u32" where
  "get_timer_semaphore U = sem_addr_of U (int (SEMAPHORES_NUM U) - 1)"

definition init_semaphores :: "umps \<Rightarrow> kstate \<Rightarrow> kstate option" where
  "init_semaphores U s = for_each [0..<SEMAPHORES_NUM U] (\<lambda>i. store_word (sem_addr_of U (int i)) 0) s"

section \<open>Devices\<close>

record iodev_t =
  semaphore :: u32
  interrupt_line :: int

definition is_in_line :: "umps \<Rightarrow> int \<Rightarrow> nat \<Rightarrow> bool" where
  "is_in_line U dev il = (let il = (if il = IL_TERMINAL U then il * 2 else il)
     in dev < (int il + 1 - int (IL_DISK U)) * int (DEVPERINT U))"

abbreviation (input) RECV_STATUS :: u32 where "RECV_STATUS \<equiv> 0x0"
abbreviation (input) RECV_COMMAND :: u32 where "RECV_COMMAND \<equiv> 0x4"
abbreviation (input) TRANSM_STATUS :: u32 where "TRANSM_STATUS \<equiv> 0x8"
abbreviation (input) TRANSM_COMMAND :: u32 where "TRANSM_COMMAND \<equiv> 0xC"

definition get_iodev :: "umps \<Rightarrow> u32 \<Rightarrow> kstate \<Rightarrow> iodev_t kres option" where
  "get_iodev U cmd_addr s = (if DEV_REG_SIZE U = 0 then None else
     let dev_n = uint ((cmd_addr - DEV_REG_START U) div DEV_REG_SIZE U);
         int_l = (case find (is_in_line U dev_n) [IL_DISK U..<IL_TERMINAL U + 1] of
                    None \<Rightarrow> - 1 | Some i \<Rightarrow> int i);
         base = DEV_REG_SIZE U * word_of_int dev_n + DEV_REG_START U;
         is_w = (base + TRANSM_COMMAND = cmd_addr)
     in kbind (get_semaphore U int_l (dev_n mod int (DEVPERINT U)) is_w s) (\<lambda>sem s.
          Some (Ret \<lparr>semaphore = sem, interrupt_line = int_l\<rparr> s)))"

definition status_il_on_all :: "umps \<Rightarrow> u32 \<Rightarrow> u32" where
  "status_il_on_all U prev = prev OR STATUS_IM_MASK U"

definition status_il_on :: "umps \<Rightarrow> nat \<Rightarrow> u32 \<Rightarrow> u32" where
  "status_il_on U line prev = prev OR STATUS_IM U line"

definition store_tod :: "kstate \<Rightarrow> u32 \<times> kstate" where
  "store_tod s = (clock s (ticks s), s\<lparr>ticks := Suc (ticks s)\<rparr>)"

definition load_interval_timer :: "u32 \<Rightarrow> kstate \<Rightarrow> kstate" where
  "load_interval_timer time s = s\<lparr>interval_timer := time\<rparr>"

definition load_local_timer :: "u32 \<Rightarrow> kstate \<Rightarrow> kstate" where
  "load_local_timer time s = s\<lparr>local_timer := time * mem s TIMESCALEADDR\<rparr>"

section \<open>The array of semaphores\<close>

text \<open>
  What the emulator's headers and the linker give: interrupt lines numbered without gaps from the
  disks to the terminals, and an array of semaphores that is aligned and lies inside memory.
\<close>

definition lines_ok :: "umps \<Rightarrow> bool" where
  "lines_ok U \<longleftrightarrow> IL_TERMINAL U + 1 = IL_DISK U + DEVINTNUM U \<and> 0 < DEVINTNUM U \<and> 0 < DEVPERINT U"

definition sems_ok :: "umps \<Rightarrow> bool" where
  "sems_ok U \<longleftrightarrow> semaphores_addr U \<noteq> 0 \<and> word_aligned (semaphores_addr U)
     \<and> unat (semaphores_addr U) + 4 * SEMAPHORES_NUM U \<le> 2 ^ 32"

lemma word_aligned_mod: "word_aligned a \<longleftrightarrow> unat a mod 4 = 0"
proof -
  have "unat (take_bit 2 a) = take_bit 2 (unat a)" by (simp add: unsigned_take_bit_eq)
  moreover have "take_bit 2 a = 0 \<longleftrightarrow> unat (take_bit 2 a) = 0" by (simp add: unsigned_eq_0_iff)
  ultimately show ?thesis by (simp add: word_aligned_def take_bit_eq_mod)
qed

lemma unat_sem_addr:
  assumes "sems_ok U" "k < SEMAPHORES_NUM U"
  shows "unat (sem_addr_of U (int k)) = unat (semaphores_addr U) + 4 * k"
proof -
  have b: "unat (semaphores_addr U) + 4 * k < 2 ^ 32" using assms by (simp add: sems_ok_def)
  have "sem_addr_of U (int k) = of_nat (unat (semaphores_addr U) + 4 * k)"
    by (simp add: sem_addr_of_def)
  then show ?thesis using b by (simp only: unat_of_nat) simp
qed

lemma sem_addr_facts:
  assumes "sems_ok U" "k < SEMAPHORES_NUM U"
  shows "sem_addr_of U (int k) \<noteq> 0" "word_aligned (sem_addr_of U (int k))"
    and "j < SEMAPHORES_NUM U \<Longrightarrow> sem_addr_of U (int k) = sem_addr_of U (int j) \<longleftrightarrow> k = j"
proof -
  note u = unat_sem_addr[OF assms]
  have b: "0 < unat (semaphores_addr U)" "unat (semaphores_addr U) mod 4 = 0"
    using assms(1) by (simp_all add: sems_ok_def word_aligned_mod unat_gt_0)
  show "sem_addr_of U (int k) \<noteq> 0" using u b(1) by (metis add_is_0 less_numeral_extra(3) unsigned_0)
  show "word_aligned (sem_addr_of U (int k))" using u b(2) unfolding word_aligned_mod by presburger
  show "sem_addr_of U (int k) = sem_addr_of U (int j) \<longleftrightarrow> k = j" if "j < SEMAPHORES_NUM U"
  proof
    assume "sem_addr_of U (int k) = sem_addr_of U (int j)"
    then have "unat (semaphores_addr U) + 4 * k = unat (semaphores_addr U) + 4 * j"
      using u unat_sem_addr[OF assms(1) that] by (simp only:)
    then show "k = j" by linarith
  qed (simp only:)
qed

lemma timer_semaphore_facts:
  assumes "sems_ok U"
  shows "get_timer_semaphore U \<noteq> 0" "word_aligned (get_timer_semaphore U)"
proof -
  have e: "int (SEMAPHORES_NUM U) - 1 = int (SEMAPHORES_NUM U - 1)" "SEMAPHORES_NUM U - 1 < SEMAPHORES_NUM U"
    by (simp_all add: SEMAPHORES_NUM_def)
  show "get_timer_semaphore U \<noteq> 0" "word_aligned (get_timer_semaphore U)"
    using sem_addr_facts(1,2)[OF assms e(2)] unfolding get_timer_semaphore_def e(1) by blast+
qed

text \<open>The position of a device's semaphore in the array; terminals have two each.\<close>

definition sem_index :: "umps \<Rightarrow> nat \<Rightarrow> nat \<Rightarrow> bool \<Rightarrow> nat" where
  "sem_index U il dev w = (il - IL_DISK U) * DEVPERINT U +
     (if il = IL_TERMINAL U then 2 * dev + (if w then 1 else 0) else dev)"

lemma get_semaphore_index:
  assumes "IL_DISK U \<le> il" "il \<le> IL_TERMINAL U"
  shows "get_semaphore U (int il) (int dev) w s = Some (Ret (sem_addr_of U (int (sem_index U il dev w))) s)"
  using assms by (auto simp: get_semaphore_def sem_index_def Let_def of_nat_diff)

lemma sem_index_bound:
  assumes "lines_ok U" "IL_DISK U \<le> il" "il \<le> IL_TERMINAL U" "dev < DEVPERINT U"
  shows "sem_index U il dev w < SEMAPHORES_NUM U - 1"
proof -
  let ?n = "DEVPERINT U"
  have d: "il - IL_DISK U < DEVINTNUM U" using assms(1-3) unfolding lines_ok_def by linarith
  show ?thesis
  proof (cases "il = IL_TERMINAL U")
    case True
    then have e: "il - IL_DISK U + 1 = DEVINTNUM U" using assms(1,2) unfolding lines_ok_def by linarith
    have "sem_index U il dev w \<le> (il - IL_DISK U) * ?n + (2 * dev + 1)" using True by (simp add: sem_index_def)
    also have "\<dots> < (il - IL_DISK U) * ?n + 2 * ?n" using assms(4) by simp
    also have "\<dots> = (DEVINTNUM U + 1) * ?n" using e by (simp add: algebra_simps flip: e)
    finally show ?thesis by (simp add: SEMAPHORES_NUM_def)
  next
    case False
    have "sem_index U il dev w < (il - IL_DISK U) * ?n + ?n" using False assms(4) by (simp add: sem_index_def)
    also have "\<dots> = (il - IL_DISK U + 1) * ?n" by simp
    also have "\<dots> \<le> (DEVINTNUM U + 1) * ?n" using d by (intro mult_le_mono1) simp
    finally show ?thesis by (simp add: SEMAPHORES_NUM_def)
  qed
qed

lemma sem_index_inj:
  assumes "lines_ok U" "IL_DISK U \<le> il" "il \<le> IL_TERMINAL U" "dev < DEVPERINT U"
    and "IL_DISK U \<le> il'" "il' \<le> IL_TERMINAL U" "dev' < DEVPERINT U"
    and "sem_index U il dev w = sem_index U il' dev' w'"
  shows "il = il' \<and> dev = dev' \<and> (il = IL_TERMINAL U \<longrightarrow> w = w')"
proof -
  let ?n = "DEVPERINT U" and ?f = "\<lambda>il dev w. if il = IL_TERMINAL U then 2 * dev + (if w then 1 else 0) else (dev :: nat)"
  have lt: "sem_index U a d v < (a - IL_DISK U + 1) * ?n" if "a < IL_TERMINAL U" "d < ?n" for a d v
    using that by (simp add: sem_index_def)
  have ge: "(a - IL_DISK U) * ?n \<le> sem_index U a d v" for a d v by (simp add: sem_index_def)
  have less: "sem_index U a d v < sem_index U b e u"
    if "a < b" "IL_DISK U \<le> a" "b \<le> IL_TERMINAL U" "d < ?n" for a b d e v u
  proof -
    have "sem_index U a d v < (a - IL_DISK U + 1) * ?n" using lt[of a d v] that by simp
    also have "\<dots> \<le> (b - IL_DISK U) * ?n" using that by (intro mult_le_mono1) simp
    also have "\<dots> \<le> sem_index U b e u" by (rule ge)
    finally show ?thesis .
  qed
  have il: "il = il'"
    using less[of il il' dev w dev' w'] less[of il' il dev' w' dev w] assms
    by (metis less_irrefl linorder_neqE_nat)
  then have eq: "?f il dev w = ?f il dev' w'" using assms(8) by (simp add: sem_index_def)
  show ?thesis
  proof (cases "il = IL_TERMINAL U")
    case True
    then have e: "2 * dev + (if w then 1 else 0) = 2 * dev' + (if w' then 1 else 0)" using eq by simp
    have "dev = dev' \<and> w = w'" using e by (cases w; cases w'; simp; presburger)
    then show ?thesis using il by simp
  next
    case False
    then show ?thesis using eq il by simp
  qed
qed

lemma init_semaphores_ok:
  assumes "sems_ok U"
  shows "\<exists>m. init_semaphores U s = Some (s\<lparr>mem := m\<rparr>)
    \<and> (\<forall>k<SEMAPHORES_NUM U. m (sem_addr_of U (int k)) = 0)
    \<and> (\<forall>a. (\<forall>k<SEMAPHORES_NUM U. a \<noteq> sem_addr_of U (int k)) \<longrightarrow> m a = mem s a)"
proof -
  let ?I = "\<lambda>pre t. \<exists>m. t = s\<lparr>mem := m\<rparr> \<and> (\<forall>k\<in>set pre. m (sem_addr_of U (int k)) = 0)
    \<and> (\<forall>a. (\<forall>k\<in>set pre. a \<noteq> sem_addr_of U (int k)) \<longrightarrow> m a = mem s a)"
  have "\<exists>t. for_each [0..<SEMAPHORES_NUM U] (\<lambda>i. store_word (sem_addr_of U (int i)) 0) s = Some t
      \<and> ?I [0..<SEMAPHORES_NUM U] t"
  proof (rule for_each_invariant)
    show "?I [] s" by (intro exI[of _ "mem s"]) simp
  next
    fix pre x rest t
    assume split: "[0..<SEMAPHORES_NUM U] = pre @ x # rest" and "?I pre t"
    then obtain m where m: "t = s\<lparr>mem := m\<rparr>" "\<forall>k\<in>set pre. m (sem_addr_of U (int k)) = 0"
      "\<forall>a. (\<forall>k\<in>set pre. a \<noteq> sem_addr_of U (int k)) \<longrightarrow> m a = mem s a" by blast
    have "x < SEMAPHORES_NUM U" using arg_cong[OF split, of set] by auto
    then have "store_word (sem_addr_of U (int x)) 0 t = Some (s\<lparr>mem := m(sem_addr_of U (int x) := 0)\<rparr>)"
      using sem_addr_facts(1,2)[OF assms] m(1) by (simp add: store_word_def)
    then show "\<exists>t'. store_word (sem_addr_of U (int x)) 0 t = Some t' \<and> ?I (pre @ [x]) t'"
      using m by (intro exI[of _ "s\<lparr>mem := m(sem_addr_of U (int x) := 0)\<rparr>"]) auto
  qed
  then show ?thesis by (auto simp: init_semaphores_def)
qed

end
