(* ===== verification/Scheduler.thy ===== *)
theory Scheduler
  imports Processor
begin

text \<open>
  The first part of \<^verbatim>\<open>os/src/scheduler.c\<close>: process identifiers, the ready queues, creation and
  termination of processes. The choice of the next process to run is in \<open>Dispatch\<close>.

  \<open>sched_inv s v\<close> is the invariant of the nucleus between operations: \<open>asl_rel\<close>, identifiers
  that name their table entry, ready queues sorted by priority, a process tree without cycles, a
  well-formed log, and counters that agree with the lists they count.
\<close>

section \<open>Process identifiers\<close>

definition PID_ID_MASK :: u32 where
  "PID_ID_MASK = push_bit MAX_PROC_BITS 1 - 1"

definition make_pid :: "u32 \<Rightarrow> u32 \<Rightarrow> u32" where
  "make_pid ident recycle = (ident OR push_bit MAX_PROC_BITS recycle) + 1"

definition mask_pid_id :: "u32 \<Rightarrow> u32" where
  "mask_pid_id p = (p - 1) AND PID_ID_MASK"

definition mask_recycle :: "u32 \<Rightarrow> u32" where
  "mask_recycle p = drop_bit MAX_PROC_BITS (p - 1)"

section \<open>Processes\<close>

definition reset_timer :: "kstate \<Rightarrow> kstate" where
  "reset_timer s = load_interval_timer IT_INTERVAL s"

definition reset_local_timer :: "kstate \<Rightarrow> kstate" where
  "reset_local_timer s = load_local_timer PLT_INTERVAL s"

definition process_queue :: "nat \<Rightarrow> kstate \<Rightarrow> lnode" where
  "process_queue i s = (if p_prio (pcb_table s i) \<noteq> 0 then ready_queue_hi else ready_queue_lo)"

definition enqueue_process :: "nat option \<Rightarrow> kstate \<Rightarrow> kstate option" where
  "enqueue_process p s = (case p of None \<Rightarrow> Some s
     | Some i \<Rightarrow> insert_proc_q (Some (process_queue i s)) (Some i) s)"

definition dequeue_process :: "nat option \<Rightarrow> kstate \<Rightarrow> (nat option \<times> kstate) option" where
  "dequeue_process p s = (case p of None \<Rightarrow> Some (None, s)
     | Some i \<Rightarrow> out_proc_q (Some (process_queue i s)) (Some i) s)"

text \<open>The comparison \<^verbatim>\<open>i < 0\<close> of the source is on an unsigned number and never holds.\<close>

definition find_process :: "u32 \<Rightarrow> kstate \<Rightarrow> nat option" where
  "find_process pid s = (let i = unat (mask_pid_id pid)
     in if i \<ge> MAX_PROC \<or> p_pid (pcb_table s i) \<noteq> pid then None else Some i)"

definition spawn_process :: "umps \<Rightarrow> u32 \<Rightarrow> kstate \<Rightarrow> (nat option \<times> kstate) option" where
  "spawn_process U priority s =
     (if priority \<noteq> 1 \<and> priority \<noteq> 0 then Some (None, s) else do {
       (p, s) \<leftarrow> alloc_pcb U s;
       case p of None \<Rightarrow> Some (None, s) | Some i \<Rightarrow> do {
         let s = s\<lparr>process_count := process_count s + 1\<rparr>;
         let pid = make_pid (of_nat i) (recycle_count s);
         let s = s\<lparr>recycle_count := recycle_count s + 1\<rparr>;
         let s = upd_pcb i (\<lambda>p. p\<lparr>p_pid := pid\<rparr>) s;
         let s = upd_pcb i (\<lambda>p. p\<lparr>p_prio := priority\<rparr>) s;
         s \<leftarrow> enqueue_process (Some i) s;
         Some (Some i, s)
       }
     })"

text \<open>The block of \<^verbatim>\<open>kill_process\<close> that takes the process off the queue it is on, if any.\<close>

definition leave_queues :: "nat \<Rightarrow> kstate \<Rightarrow> kstate option" where
  "leave_queues i s = do {
     isnull \<leftarrow> list_null (Some (p_list i)) (lh s);
     if \<not> isnull then do {
       (out, s) \<leftarrow> (if p_sem_add (pcb_table s i) \<noteq> 0 then do {
           (r, s) \<leftarrow> out_blocked (Some i) s;
           Some (r = Some i, s)
         } else Some (False, s));
       if out then Some (s\<lparr>softblock_count := softblock_count s - 1\<rparr>)
       else map_option snd (dequeue_process (Some i) s)
     } else Some s
   }"

definition kill_process :: "nat option \<Rightarrow> kstate \<Rightarrow> (nat \<times> kstate) option" where
  "kill_process p s = (case p of None \<Rightarrow> Some (1, s) | Some i \<Rightarrow> do {
     (orphan, s) \<leftarrow> (if p_parent (pcb_table s i) \<noteq> None then do {
         (r, s) \<leftarrow> out_child (Some i) s;
         Some (r = Some i, s)
       } else Some (True, s));
     if \<not> orphan then Some (2, s) else do {
       s \<leftarrow> pandos_kprintf ''kill proc\<newline>'' [] s;
       let s = s\<lparr>process_count := process_count s - 1\<rparr>;
       s \<leftarrow> leave_queues i s;
       s \<leftarrow> free_pcb (Some i) s;
       Some (0, s)
     }
   })"

text \<open>
  The recursion and the loop over the children in one: after a child is dead the loop goes on
  from its head, which has no state of its own.
\<close>

partial_function (option) kill_progeny :: "nat option \<Rightarrow> kstate \<Rightarrow> (nat \<times> kstate) option" where
  "kill_progeny p s = do {
     (child, s) \<leftarrow> remove_child p s;
     if child = None then kill_process p s
     else do {
       (r, s) \<leftarrow> kill_progeny child s;
       if r \<noteq> 0 then Some (3, s) else kill_progeny p s
     }
   }"

definition init_scheduler :: "kstate \<Rightarrow> kstate option" where
  "init_scheduler s = do {
     let s = s\<lparr>process_count := 0, softblock_count := 0\<rparr>;
     s \<leftarrow> mk_empty_proc_q (Some ready_queue_hi) s;
     s \<leftarrow> mk_empty_proc_q (Some ready_queue_lo) s;
     let s = s\<lparr>active_process := None, yield_process := None\<rparr>;
     let (tod, s) = store_tod s;
     Some (s\<lparr>start_tod := tod, recycle_count := 0\<rparr>)
   }"

section \<open>Identifiers name their table entry\<close>

lemma PID_ID_MASK_eq: "PID_ID_MASK = mask 5"
  by (simp add: PID_ID_MASK_def mask_eq_exp_minus_1 push_bit_eq_mult)

lemma small_id: "unat (i :: u32) < 32 \<Longrightarrow> take_bit 5 i = i"
proof -
  assume "unat i < 32"
  moreover have "uint i = int (unat i)" by simp
  ultimately have "uint i < 32" by linarith
  then have "take_bit 5 (uint i) = uint i" by (simp add: take_bit_int_eq_self)
  then show ?thesis by (metis unsigned_take_bit_eq word_uint_eq_iff unsigned_word_eqI)
qed

lemma mask_pid_id_make_pid:
  assumes "unat i < 32"
  shows "mask_pid_id (make_pid i r) = i"
proof -
  have "(i OR push_bit 5 r) AND mask 5 = take_bit 5 i OR take_bit 5 (push_bit 5 r)"
    by (simp flip: take_bit_eq_mask)
  also have "\<dots> = i" using small_id[OF assms] by (simp add: take_bit_push_bit)
  finally show ?thesis by (simp add: mask_pid_id_def make_pid_def PID_ID_MASK_eq)
qed

lemma make_pid_not_null:
  assumes "unat i < MAX_PROC"
  shows "make_pid i r \<noteq> NULL_PID"
proof
  assume "make_pid i r = NULL_PID"
  then have "mask_pid_id (make_pid i r) = mask 5"
    by (simp add: mask_pid_id_def PID_ID_MASK_eq)
  then have "i = mask 5" using mask_pid_id_make_pid[of i r] assms by simp
  then have "unat i = 31" by (simp add: mask_eq_exp_minus_1)
  with assms show False by simp
qed

lemma mask_recycle_make_pid:
  assumes "unat i < 32"
  shows "push_bit 5 (mask_recycle (make_pid i r)) = push_bit 5 r"
proof (rule bit_word_eqI)
  fix n assume n: "n < LENGTH(32)"
  have "bit i m \<Longrightarrow> m < 5" for m
    using small_id[OF assms] by (metis bit_take_bit_iff)
  then show "bit (push_bit 5 (mask_recycle (make_pid i r))) n = bit (push_bit 5 r) n"
    using n by (auto simp: mask_recycle_def make_pid_def bit_simps)
qed

section \<open>The invariant\<close>

definition tree_rel :: "view \<Rightarrow> (nat \<times> nat) set" where
  "tree_rel v = {(i, q). child_of v i q}"

text \<open>A process and its progeny.\<close>

definition progeny :: "view \<Rightarrow> nat \<Rightarrow> nat set" where
  "progeny v p = {i. (i, p) \<in> (tree_rel v)\<^sup>*}"

definition pids_ok :: "kstate \<Rightarrow> view \<Rightarrow> bool" where
  "pids_ok s v \<longleftrightarrow> (\<forall>i<MAX_PROC. if live v i
     then p_pid (pcb_table s i) \<noteq> NULL_PID \<and> unat (mask_pid_id (p_pid (pcb_table s i))) = i
     else p_pid (pcb_table s i) = NULL_PID)"

definition prios_ok :: "kstate \<Rightarrow> view \<Rightarrow> bool" where
  "prios_ok s v \<longleftrightarrow> (\<forall>i\<in>set (v_lo v). p_prio (pcb_table s i) = PROCESS_PRIO_LOW)
   \<and> (\<forall>i\<in>set (v_hi v). p_prio (pcb_table s i) \<noteq> PROCESS_PRIO_LOW)"

definition sched_inv :: "kstate \<Rightarrow> view \<Rightarrow> bool" where
  "sched_inv s v \<longleftrightarrow> asl_rel s v \<and> pids_ok s v \<and> prios_ok s v \<and> acyclic (tree_rel v)
   \<and> log_ok (kstdout s)
   \<and> process_count s = of_nat (card {i. live v i})
   \<and> softblock_count s = of_nat (card {i. blocked v i})"

lemma sched_invD:
  assumes "sched_inv s v"
  shows "asl_rel s v" "pids_ok s v" "prios_ok s v" "acyclic (tree_rel v)" "log_ok (kstdout s)"
    "process_count s = of_nat (card {i. live v i})"
    "softblock_count s = of_nat (card {i. blocked v i})" "pcb_rel s v"
  using assms asl_relD(1) by (auto simp: sched_inv_def)

lemma live_finite [simp]: "finite {i. live v i}"
  by (rule finite_subset[of _ "{..<MAX_PROC}"]) (auto simp: live_def)

lemma blocked_finite: "asl_rel s v \<Longrightarrow> finite {i. blocked v i}"
  by (rule finite_subset[of _ "{..<MAX_PROC}"]) (auto dest!: blocked_live(1) simp: live_def)

text \<open>The counters do not wrap around: they are at most the size of the table.\<close>

lemma live_card: "card {i. live v i} \<le> MAX_PROC"
  using card_mono[of "{..<MAX_PROC}" "{i. live v i}"] by (auto simp: live_def)

lemma blocked_card: "asl_rel s v \<Longrightarrow> card {i. blocked v i} \<le> MAX_PROC"
  using card_mono[of "{..<MAX_PROC}" "{i. blocked v i}"] blocked_live(1)
  by (auto simp: live_def)

lemma ready_live:
  assumes "pcb_rel s v" "i \<in> set (v_lo v) \<or> i \<in> set (v_hi v)"
  shows "live v i" "\<not> blocked v i"
proof -
  obtain c where c: "is_queue v c" "i \<in> set (queue_of v c)" "c = ready_queue_lo \<or> c = ready_queue_hi"
    using assms(2) is_queue.simps(1,2) queue_of.simps(1,2) by metis
  show "live v i"
    using queues_disjoint(1)[OF assms(1) c(1,2)] pcb_relD(4)[OF assms(1), of i] assms(2)
    by (auto simp: live_def queued_def)
  show "\<not> blocked v i"
    using queues_disjoint(2)[OF assms(1) c(1,2), of "s_procq _"] c(3) by (auto simp: blocked_def)
qed

lemma lo_hi_disjoint: "pcb_rel s v \<Longrightarrow> i \<in> set (v_lo v) \<Longrightarrow> i \<notin> set (v_hi v)"
  using queues_disjoint(2)[of s v ready_queue_lo i ready_queue_hi] by simp

text \<open>
  Operations on processes and ready queues leave the semaphore queues alone: \<open>asl_rel\<close> carries
  over when \<open>pcb_rel\<close> does.
\<close>

lemma asl_rel_transfer:
  assumes "asl_rel s v" "pcb_rel s' v'" "semd_table s' = semd_table s"
    and view: "v_sfree v' = v_sfree v" "v_sact v' = v_sact v" "v_procq v' = v_procq v"
    and "\<And>i. blocked v i \<Longrightarrow> p_sem_add (pcb_table s' i) = p_sem_add (pcb_table s i)"
    and "\<And>i. live v' i \<Longrightarrow> p_sem_add (pcb_table s' i) \<noteq> 0 \<Longrightarrow> live v i \<and> p_sem_add (pcb_table s i) \<noteq> 0"
  shows "asl_rel s' v'" "blocked v' = blocked v" "waiting s' v' = waiting s v"
proof -
  show b: "blocked v' = blocked v" using view by (simp add: blocked_def fun_eq_iff)
  have key: "semd_key s' j = semd_key s j" for j using assms(3) by simp
  show "waiting s' v' = waiting s v" by (intro ext) (simp add: waiting_def assms(3) view split: option.split)
  have "p_sem_add (pcb_table s' i) = semd_key s' j" if "j \<in> set (v_sact v)" "i \<in> set (v_procq v j)" for i j
  proof -
    have "blocked v i" using that by (auto simp: blocked_def)
    then show ?thesis using asl_relD(7)[OF assms(1) that] assms(7)[of i] key by simp
  qed
  moreover have "blocked v' i" if "live v' i" "p_sem_add (pcb_table s' i) \<noteq> 0" for i
    using assms(8)[OF that] asl_relD(8)[OF assms(1)] b by auto
  ultimately show "asl_rel s' v'"
    using assms(2) asl_relD(2-6)[OF assms(1)] unfolding asl_rel_def view assms(3) by simp
qed

lemma asl_rel_ready:
  assumes "asl_rel s v" "pcb_rel (s\<lparr>lh := h\<rparr>) (set_queue v c xs)" "c = ready_queue_lo \<or> c = ready_queue_hi"
  shows "asl_rel (s\<lparr>lh := h\<rparr>) (set_queue v c xs)"
    "blocked (set_queue v c xs) = blocked v" "waiting (s\<lparr>lh := h\<rparr>) (set_queue v c xs) = waiting s v"
  using asl_rel_transfer[OF assms(1,2)] assms(3) by (auto simp: live_def)

section \<open>Ready queues\<close>

lemma process_queue_is: "is_queue v (process_queue i s)"
  "process_queue i s = ready_queue_lo \<or> process_queue i s = ready_queue_hi"
  by (simp_all add: process_queue_def)

text \<open>The view with a process appended to the ready queue of its priority.\<close>

definition enqueue_view :: "nat \<Rightarrow> kstate \<Rightarrow> view \<Rightarrow> view" where
  "enqueue_view i s v = set_queue v (process_queue i s) (queue_of v (process_queue i s) @ [i])"

lemma enqueue_view_same [simp]:
  "live (enqueue_view i s v) = live v" "child_of (enqueue_view i s v) = child_of v"
  "v_child (enqueue_view i s v) = v_child v" "tree_rel (enqueue_view i s v) = tree_rel v"
  "v_free (enqueue_view i s v) = v_free v" "blocked (enqueue_view i s v) = blocked v"
  by (auto simp: enqueue_view_def tree_rel_def process_queue_def blocked_def)

lemma enqueue_view_queues:
  "v_lo (enqueue_view i s v) = (if p_prio (pcb_table s i) = 0 then v_lo v @ [i] else v_lo v)"
  "v_hi (enqueue_view i s v) = (if p_prio (pcb_table s i) = 0 then v_hi v else v_hi v @ [i])"
  by (auto simp: enqueue_view_def process_queue_def)

lemma enqueue_process_rel:
  assumes "asl_rel s v" "\<not> queued v i" "i < MAX_PROC"
  shows "\<exists>h. enqueue_process (Some i) s = Some (s\<lparr>lh := h\<rparr>)
    \<and> asl_rel (s\<lparr>lh := h\<rparr>) (enqueue_view i s v) \<and> waiting (s\<lparr>lh := h\<rparr>) (enqueue_view i s v) = waiting s v"
proof -
  obtain h where h: "insert_proc_q (Some (process_queue i s)) (Some i) s = Some (s\<lparr>lh := h\<rparr>)"
    "pcb_rel (s\<lparr>lh := h\<rparr>) (enqueue_view i s v)"
    using insert_proc_q_detached[OF asl_relD(1)[OF assms(1)] process_queue_is(1) assms(2,3), of i s]
    unfolding enqueue_view_def by blast
  with asl_rel_ready[OF assms(1) _ process_queue_is(2)] show ?thesis
    by (auto simp: enqueue_process_def enqueue_view_def)
qed

lemma enqueue_process_lists:
  "enqueue_process (Some i) s = map_option (\<lambda>h. s\<lparr>lh := h\<rparr>)
     (list_sdel (Some (p_list i)) (lh s) \<bind> list_add_tail (Some (p_list i)) (Some (process_queue i s)))"
  by (cases "list_sdel (Some (p_list i)) (lh s)")
    (simp_all add: enqueue_process_def insert_proc_q_def on_lists_def)

lemma enqueue_process_frame:
  assumes "enqueue_process (Some i) s = Some (s\<lparr>lh := h\<rparr>)" "lh s' = lh s" "pcb_table s' = pcb_table s"
  shows "enqueue_process (Some i) s' = Some (s'\<lparr>lh := h\<rparr>)"
proof -
  obtain h' where h': "list_sdel (Some (p_list i)) (lh s)
      \<bind> list_add_tail (Some (p_list i)) (Some (process_queue i s)) = Some h'" "s\<lparr>lh := h'\<rparr> = s\<lparr>lh := h\<rparr>"
    using assms(1) by (auto simp: enqueue_process_lists)
  from arg_cong[OF h'(2), of lh] have "h' = h" by simp
  with h'(1) assms(2,3) show ?thesis by (simp add: enqueue_process_lists process_queue_def)
qed

lemma enqueue_process_inv:
  assumes "sched_inv s v" "\<not> queued v i" "live v i"
  shows "\<exists>h. enqueue_process (Some i) s = Some (s\<lparr>lh := h\<rparr>)
    \<and> sched_inv (s\<lparr>lh := h\<rparr>) (enqueue_view i s v) \<and> waiting (s\<lparr>lh := h\<rparr>) (enqueue_view i s v) = waiting s v"
proof -
  obtain h where h: "enqueue_process (Some i) s = Some (s\<lparr>lh := h\<rparr>)"
    "asl_rel (s\<lparr>lh := h\<rparr>) (enqueue_view i s v)" "waiting (s\<lparr>lh := h\<rparr>) (enqueue_view i s v) = waiting s v"
    using enqueue_process_rel[OF sched_invD(1)[OF assms(1)] assms(2)] assms(3) by (auto simp: live_def)
  moreover have "prios_ok (s\<lparr>lh := h\<rparr>) (enqueue_view i s v)"
    using sched_invD(3)[OF assms(1)] by (auto simp: prios_ok_def enqueue_view_queues)
  moreover have "pids_ok (s\<lparr>lh := h\<rparr>) (enqueue_view i s v)"
    using sched_invD(2)[OF assms(1)] by (simp add: pids_ok_def)
  ultimately show ?thesis
    using sched_invD(4-7)[OF assms(1)] by (intro exI[of _ h]) (simp add: sched_inv_def)
qed

text \<open>Taking a process off the ready queue it is on.\<close>

lemma dequeue_process_rel:
  assumes "asl_rel s v" "prios_ok s v" "i \<in> set (v_lo v) \<or> i \<in> set (v_hi v)"
  shows "\<exists>h v'. dequeue_process (Some i) s = Some (Some i, s\<lparr>lh := h\<rparr>)
    \<and> asl_rel (s\<lparr>lh := h\<rparr>) v' \<and> waiting (s\<lparr>lh := h\<rparr>) v' = waiting s v \<and> blocked v' = blocked v
    \<and> v_lo v' = filter (\<lambda>k. k \<noteq> i) (v_lo v) \<and> v_hi v' = filter (\<lambda>k. k \<noteq> i) (v_hi v)
    \<and> v_free v' = v_free v \<and> v_child v' = v_child v"
proof -
  let ?c = "process_queue i s"
  let ?v = "set_queue v ?c (remove1 i (queue_of v ?c))"
  note rel = asl_relD(1)[OF assms(1)]
  have i: "i \<in> set (queue_of v ?c)"
    using assms(2,3) by (auto simp: prios_ok_def process_queue_def)
  obtain h where h: "out_proc_q (Some ?c) (Some i) s = Some (Some i, s\<lparr>lh := h\<rparr>)" "pcb_rel (s\<lparr>lh := h\<rparr>) ?v"
    using out_proc_q_in[OF rel process_queue_is(1) i] by blast
  have d: "distinct (v_lo v)" "distinct (v_hi v)"
    using pcb_rel_distinct(2)[OF rel, of ready_queue_lo] pcb_rel_distinct(2)[OF rel, of ready_queue_hi]
    by auto
  have x: "i \<in> set (v_lo v) \<Longrightarrow> i \<notin> set (v_hi v)" using lo_hi_disjoint[OF rel] .
  have "v_lo ?v = filter (\<lambda>k. k \<noteq> i) (v_lo v) \<and> v_hi ?v = filter (\<lambda>k. k \<noteq> i) (v_hi v)"
  proof (cases "p_prio (pcb_table s i) = 0")
    case True
    then have "i \<notin> set (v_hi v)" using i x by (simp add: process_queue_def)
    then show ?thesis using True d by (simp add: process_queue_def remove1_filter filter_other)
  next
    case False
    then have "i \<notin> set (v_lo v)" using i x by (auto simp: process_queue_def)
    then show ?thesis using False d by (simp add: process_queue_def remove1_filter filter_other)
  qed
  then show ?thesis
    using h asl_rel_ready[OF assms(1) h(2) process_queue_is(2)]
    by (intro exI[of _ h] exI[of _ ?v]) (simp add: dequeue_process_def)
qed

section \<open>Killing one process\<close>

lemma upd_pcb_id: "f (pcb_table s i) = pcb_table s i \<Longrightarrow> upd_pcb i f s = s"
  by (simp add: upd_pcb_def)

lemma live_child [simp]: "live (v\<lparr>v_child := c\<rparr>) = live v"
  by (simp add: live_def fun_eq_iff)

text \<open>First the process leaves its parent.\<close>

lemma orphan_step:
  assumes "asl_rel s v" "live v i"
  shows "\<exists>h c. (if p_parent (pcb_table s i) \<noteq> None then do {
         (r, s) \<leftarrow> out_child (Some i) s;
         Some (r = Some i, s)
       } else Some (True, s)) = Some (True, upd_pcb i (\<lambda>p. p\<lparr>p_parent := None\<rparr>) (s\<lparr>lh := h\<rparr>))
    \<and> asl_rel (upd_pcb i (\<lambda>p. p\<lparr>p_parent := None\<rparr>) (s\<lparr>lh := h\<rparr>)) (v\<lparr>v_child := c\<rparr>)
    \<and> waiting (upd_pcb i (\<lambda>p. p\<lparr>p_parent := None\<rparr>) (s\<lparr>lh := h\<rparr>)) (v\<lparr>v_child := c\<rparr>) = waiting s v
    \<and> (\<forall>q. live v q \<longrightarrow> c q = filter (\<lambda>k. k \<noteq> i) (v_child v q))"
proof (cases "p_parent (pcb_table s i)")
  case None
  then have "i \<notin> set (v_child v q)" if "live v q" for q
    using pcb_relD(6)[OF asl_relD(1)[OF assms(1)] assms(2), of q] that by (auto simp: child_of_def)
  then have "\<forall>q. live v q \<longrightarrow> v_child v q = filter (\<lambda>k. k \<noteq> i) (v_child v q)"
    by (simp add: filter_other)
  moreover have "upd_pcb i (\<lambda>p. p\<lparr>p_parent := None\<rparr>) (s\<lparr>lh := lh s\<rparr>) = s"
    using None by (simp add: upd_pcb_id)
  ultimately show ?thesis using None assms(1)
    by (intro exI[of _ "lh s"] exI[of _ "v_child v"]) simp
next
  case (Some q)
  note rel = asl_relD(1)[OF assms(1)]
  have q: "child_of v i q" "live v q"
    using pcb_relD(6)[OF rel assms(2), of q] Some by (auto simp: child_of_def)
  let ?v = "set_child q (remove1 i (v_child v q)) v"
  obtain h where h: "out_child (Some i) s = Some (Some i, upd_pcb i (\<lambda>p. p\<lparr>p_parent := None\<rparr>) (s\<lparr>lh := h\<rparr>))"
    "pcb_rel (upd_pcb i (\<lambda>p. p\<lparr>p_parent := None\<rparr>) (s\<lparr>lh := h\<rparr>)) ?v"
    using out_child_rel[OF rel q(1)] by blast
  have "((v_child v)(q := remove1 i (v_child v q))) r = filter (\<lambda>k. k \<noteq> i) (v_child v r)" if "live v r" for r
  proof (cases "r = q")
    case False
    then have "i \<notin> set (v_child v r)" using child_unique[OF rel q(1), of r] that by (auto simp: child_of_def)
    then show ?thesis using False by (simp add: filter_other)
  qed (simp add: remove1_filter[OF pcb_rel_distinct(3)[OF rel q(2)]])
  moreover have "asl_rel (upd_pcb i (\<lambda>p. p\<lparr>p_parent := None\<rparr>) (s\<lparr>lh := h\<rparr>)) ?v"
    "waiting (upd_pcb i (\<lambda>p. p\<lparr>p_parent := None\<rparr>) (s\<lparr>lh := h\<rparr>)) ?v = waiting s v"
    by (rule asl_rel_transfer[OF assms(1) h(2)]; auto simp: set_child_def split: if_splits)+
  ultimately show ?thesis using h(1) Some
    by (intro exI[of _ h] exI[of _ "(v_child v)(q := remove1 i (v_child v q))"]) (simp add: set_child_def)
qed

text \<open>Then it leaves whatever queue it is on.\<close>

lemma nulled_iff:
  assumes "pcb_rel s v" "i < MAX_PROC"
  shows "nulled (lh s) (p_list i) \<longleftrightarrow> \<not> queued v i"
  using detached_iff[OF assms(1), of i] assms(2) by (simp add: detached_def)

lemma asl_rel_cong:
  assumes "lh s' = lh s" "pcb_table s' = pcb_table s" "semd_table s' = semd_table s"
  shows "asl_rel s' v = asl_rel s v" "waiting s' v = waiting s v"
  using assms pcb_rel_cong[of s' s v] by (simp_all add: asl_rel_def waiting_def fun_eq_iff)

lemma waiting_queue:
  assumes "asl_rel s v"
  shows "distinct (waiting s v k)" "i \<in> set (waiting s v k) \<Longrightarrow> l \<noteq> k \<Longrightarrow> i \<notin> set (waiting s v l)"
proof -
  show "distinct (waiting s v k)"
  proof (cases "waiting s v k = []")
    case False
    then obtain j where "j \<in> set (v_sact v)" "k = semd_key s j"
      using waiting_Nil_iff[OF assms] by blast
    then show ?thesis
      using pcb_rel_distinct(2)[OF asl_relD(1)[OF assms], of "s_procq j"] waiting_key[OF assms] by simp
  qed simp
  show "i \<notin> set (waiting s v l)" if "i \<in> set (waiting s v k)" "l \<noteq> k"
    using waiting_sem_add(2)[OF assms] that by blast
qed

lemma leave_queues_rel:
  assumes "asl_rel s v" "prios_ok s v" "live v i"
  shows "\<exists>h v'. leave_queues i s = Some (upd_pcb i (\<lambda>p. p\<lparr>p_sem_add := 0\<rparr>)
        (s\<lparr>lh := h, softblock_count := softblock_count s - (if blocked v i then 1 else 0)\<rparr>))
    \<and> asl_rel (upd_pcb i (\<lambda>p. p\<lparr>p_sem_add := 0\<rparr>) (s\<lparr>lh := h\<rparr>)) v' \<and> \<not> queued v' i
    \<and> (\<forall>k. waiting (upd_pcb i (\<lambda>p. p\<lparr>p_sem_add := 0\<rparr>) (s\<lparr>lh := h\<rparr>)) v' k
         = filter (\<lambda>j. j \<noteq> i) (waiting s v k))
    \<and> v_lo v' = filter (\<lambda>k. k \<noteq> i) (v_lo v) \<and> v_hi v' = filter (\<lambda>k. k \<noteq> i) (v_hi v)
    \<and> v_free v' = v_free v \<and> v_child v' = v_child v"
proof -
  note rel = asl_relD(1)[OF assms(1)]
  have i: "i < MAX_PROC" "i \<notin> set (v_free v)" using assms(3) by (auto simp: live_def)
  have null: "list_null (Some (p_list i)) (lh s) = Some (\<not> queued v i)"
    using nulled_iff[OF rel i(1)] by (simp add: list_null_iff)
  consider (none) "\<not> queued v i" | (sem) "blocked v i"
    | (ready) "i \<in> set (v_lo v) \<or> i \<in> set (v_hi v)"
    using i(2) by (auto simp: queued_def)
  then show ?thesis
  proof cases
    case none
    then have "\<not> blocked v i" "i \<notin> set (v_lo v)" "i \<notin> set (v_hi v)" by (auto simp: queued_def)
    moreover have "p_sem_add (pcb_table s i) = 0"
      using not_blocked_sem_add[OF assms(1,3)] calculation(1) .
    then have "upd_pcb i (\<lambda>p. p\<lparr>p_sem_add := 0\<rparr>) s = s" by (simp add: upd_pcb_id)
    moreover have "i \<notin> set (waiting s v k)" for k
      using calculation(1) blocked_waiting[OF assms(1)] by blast
    ultimately show ?thesis using none null assms(1)
      by (intro exI[of _ "lh s"] exI[of _ v]) (simp add: leave_queues_def filter_other)
  next
    case sem
    let ?k = "p_sem_add (pcb_table s i)"
    obtain h v' where h: "out_blocked (Some i) s = Some (Some i, upd_pcb i (\<lambda>p. p\<lparr>p_sem_add := 0\<rparr>) (s\<lparr>lh := h\<rparr>))"
      "asl_rel (upd_pcb i (\<lambda>p. p\<lparr>p_sem_add := 0\<rparr>) (s\<lparr>lh := h\<rparr>)) v'"
      "waiting (upd_pcb i (\<lambda>p. p\<lparr>p_sem_add := 0\<rparr>) (s\<lparr>lh := h\<rparr>)) v' = (waiting s v)(?k := remove1 i (waiting s v ?k))"
      "same_lists v v'"
      using out_blocked_rel[OF assms(1) sem refl] by blast
    note b = blocked_live[OF assms(1) sem]
    have "queued v i" using sem by (simp add: queued_def)
    moreover have ready: "i \<notin> set (v_lo v)" "i \<notin> set (v_hi v)" using ready_live(2)[OF rel] sem by blast+
    moreover have w: "waiting (upd_pcb i (\<lambda>p. p\<lparr>p_sem_add := 0\<rparr>) (s\<lparr>lh := h\<rparr>)) v' k
        = filter (\<lambda>j. j \<noteq> i) (waiting s v k)" for k
      using h(3) remove1_filter[OF waiting_queue(1)[OF assms(1)]] waiting_queue(2)[OF assms(1) b(3), of k]
      by (simp add: filter_other)
    moreover have "\<not> queued v' i"
      using h(4) i(2) ready blocked_waiting[OF h(2), of i] w by (auto simp: queued_def same_lists_def)
    ultimately show ?thesis using null h sem b(2)
      by (intro exI[of _ h] exI[of _ v'])
        (simp add: leave_queues_def same_lists_def filter_other upd_pcb_def)
  next
    case ready
    obtain h v' where h: "dequeue_process (Some i) s = Some (Some i, s\<lparr>lh := h\<rparr>)"
      "asl_rel (s\<lparr>lh := h\<rparr>) v'" "waiting (s\<lparr>lh := h\<rparr>) v' = waiting s v" "blocked v' = blocked v"
      "v_lo v' = filter (\<lambda>k. k \<noteq> i) (v_lo v)" "v_hi v' = filter (\<lambda>k. k \<noteq> i) (v_hi v)"
      "v_free v' = v_free v" "v_child v' = v_child v"
      using dequeue_process_rel[OF assms(1,2) ready] by blast
    have nb: "\<not> blocked v i" using ready_live(2)[OF rel ready] .
    then have sa: "p_sem_add (pcb_table s i) = 0" using not_blocked_sem_add[OF assms(1,3)] by blast
    then have "upd_pcb i (\<lambda>p. p\<lparr>p_sem_add := 0\<rparr>) (s\<lparr>lh := h\<rparr>) = s\<lparr>lh := h\<rparr>" by (simp add: upd_pcb_id)
    moreover have "i \<notin> set (waiting s v k)" for k
      using nb blocked_waiting[OF assms(1)] by blast
    moreover have "queued v i" using ready by (auto simp: queued_def)
    moreover have "\<not> queued v' i" using h(4-7) nb i(2) by (auto simp: queued_def)
    ultimately show ?thesis using null h nb sa
      by (intro exI[of _ h] exI[of _ v']) (simp add: leave_queues_def filter_other)
  qed
qed

lemma kprintf_ok:
  assumes "log_ok (kstdout s)" "fmt_ok fmt args"
  shows "\<exists>out. pandos_kprintf fmt args s = Some (s\<lparr>kstdout := out\<rparr>) \<and> log_ok out"
proof -
  obtain n out where "pandos_kfprintf (kstdout s) fmt args = Some (n, out)" "log_ok out"
    using log.printf_answers[OF assms] by (auto simp: pandos_kfprintf_def)
  then show ?thesis by (auto simp: pandos_kprintf_def)
qed

text \<open>
  What a kill leaves: the processes of \<open>D\<close> are gone from the process table, from every queue and
  from the tree; all other processes, their order in every queue, and the rest of the kernel are
  as before. The counters are part of \<open>sched_inv\<close>.
\<close>

definition same_rest :: "kstate \<Rightarrow> kstate \<Rightarrow> bool" where
  "same_rest s s' \<longleftrightarrow> mem s' = mem s \<and> states s' = states s \<and> supports s' = supports s
   \<and> active_process s' = active_process s \<and> yield_process s' = yield_process s
   \<and> start_tod s' = start_tod s \<and> recycle_count s' = recycle_count s
   \<and> cp0_status s' = cp0_status s \<and> cp0_cause s' = cp0_cause s \<and> clock s' = clock s \<and> ticks s' = ticks s
   \<and> interval_timer s' = interval_timer s \<and> local_timer s' = local_timer s
   \<and> passupvector s' = passupvector s"

definition killed :: "nat set \<Rightarrow> kstate \<Rightarrow> view \<Rightarrow> kstate \<Rightarrow> view \<Rightarrow> bool" where
  "killed D s v s' v' \<longleftrightarrow> sched_inv s' v'
   \<and> (\<forall>i. live v' i \<longleftrightarrow> live v i \<and> i \<notin> D)
   \<and> v_lo v' = filter (\<lambda>i. i \<notin> D) (v_lo v) \<and> v_hi v' = filter (\<lambda>i. i \<notin> D) (v_hi v)
   \<and> (\<forall>k. waiting s' v' k = filter (\<lambda>i. i \<notin> D) (waiting s v k))
   \<and> (\<forall>q. live v' q \<longrightarrow> v_child v' q = filter (\<lambda>i. i \<notin> D) (v_child v q))
   \<and> (\<forall>i. live v' i \<longrightarrow> pcb_table s' i = pcb_table s i)
   \<and> same_rest s s'"

lemma blocked_filter:
  assumes "asl_rel s v" "asl_rel s' v'" "\<And>k. waiting s' v' k = filter (\<lambda>i. i \<notin> D) (waiting s v k)"
  shows "{i. blocked v' i} = {i. blocked v i} - D"
  using blocked_waiting[OF assms(1)] blocked_waiting[OF assms(2)] assms(3) by auto

lemma card_dec:
  assumes "finite A" "x \<in> A"
  shows "(of_nat (card A) :: u32) - 1 = of_nat (card (A - {x}))"
proof -
  have "card A = Suc (card (A - {x}))" using card.remove[OF assms] by simp
  then show ?thesis by simp
qed

lemma kill_process_rel:
  assumes "sched_inv s v" "live v i" "v_child v i = []"
  shows "\<exists>s' v'. kill_process (Some i) s = Some (0, s') \<and> killed {i} s v s' v'"
proof -
  note I = sched_invD[OF assms(1)]
  obtain h1 c where 1: "(if p_parent (pcb_table s i) \<noteq> None then do {
         (r, s) \<leftarrow> out_child (Some i) s;
         Some (r = Some i, s)
       } else Some (True, s)) = Some (True, upd_pcb i (\<lambda>p. p\<lparr>p_parent := None\<rparr>) (s\<lparr>lh := h1\<rparr>))"
    "asl_rel (upd_pcb i (\<lambda>p. p\<lparr>p_parent := None\<rparr>) (s\<lparr>lh := h1\<rparr>)) (v\<lparr>v_child := c\<rparr>)"
    "waiting (upd_pcb i (\<lambda>p. p\<lparr>p_parent := None\<rparr>) (s\<lparr>lh := h1\<rparr>)) (v\<lparr>v_child := c\<rparr>) = waiting s v"
    "\<forall>q. live v q \<longrightarrow> c q = filter (\<lambda>k. k \<noteq> i) (v_child v q)"
    using orphan_step[OF I(1) assms(2)] by blast
  let ?s1 = "upd_pcb i (\<lambda>p. p\<lparr>p_parent := None\<rparr>) (s\<lparr>lh := h1\<rparr>)" and ?v1 = "v\<lparr>v_child := c\<rparr>"
  have "log_ok (kstdout ?s1)" using I(5) by simp
  then obtain out where 2: "pandos_kprintf ''kill proc\<newline>'' [] ?s1 = Some (?s1\<lparr>kstdout := out\<rparr>)" "log_ok out"
    using kprintf_ok[of ?s1 "''kill proc\<newline>''" "[]"] by auto
  let ?s3 = "?s1\<lparr>kstdout := out, process_count := process_count s - 1\<rparr>"
  have 3: "asl_rel ?s3 ?v1" "waiting ?s3 ?v1 = waiting s v" "prios_ok ?s3 ?v1"
    using asl_rel_cong[of ?s3 ?s1 ?v1] 1(2,3) I(3) by (auto simp: prios_ok_def)
  obtain h4 v4 where 4: "leave_queues i ?s3 = Some (upd_pcb i (\<lambda>p. p\<lparr>p_sem_add := 0\<rparr>)
        (?s3\<lparr>lh := h4, softblock_count := softblock_count ?s3 - (if blocked ?v1 i then 1 else 0)\<rparr>))"
    "asl_rel (upd_pcb i (\<lambda>p. p\<lparr>p_sem_add := 0\<rparr>) (?s3\<lparr>lh := h4\<rparr>)) v4" "\<not> queued v4 i"
    "\<And>k. waiting (upd_pcb i (\<lambda>p. p\<lparr>p_sem_add := 0\<rparr>) (?s3\<lparr>lh := h4\<rparr>)) v4 k
         = filter (\<lambda>j. j \<noteq> i) (waiting ?s3 ?v1 k)"
    "v_lo v4 = filter (\<lambda>k. k \<noteq> i) (v_lo ?v1)" "v_hi v4 = filter (\<lambda>k. k \<noteq> i) (v_hi ?v1)"
    "v_free v4 = v_free ?v1" "v_child v4 = v_child ?v1"
    using leave_queues_rel[OF 3(1,3), of i] assms(2) by (auto simp only: live_child)
  let ?s4 = "upd_pcb i (\<lambda>p. p\<lparr>p_sem_add := 0\<rparr>)
        (?s3\<lparr>lh := h4, softblock_count := softblock_count ?s3 - (if blocked ?v1 i then 1 else 0)\<rparr>)"
  have live4: "live v4 = live v" using 4(7) by (simp add: live_def fun_eq_iff)
  have a4: "asl_rel ?s4 v4" "waiting ?s4 v4 k = filter (\<lambda>j. j \<noteq> i) (waiting s v k)" for k
    using asl_rel_cong[of ?s4 "upd_pcb i (\<lambda>p. p\<lparr>p_sem_add := 0\<rparr>) (?s3\<lparr>lh := h4\<rparr>)" v4] 4(2,4) 3(2)
    by (simp_all add: upd_pcb_def)
  have ch4: "v_child v4 q = filter (\<lambda>k. k \<noteq> i) (v_child v q)" if "live v q" for q
    using 4(8) 1(4) that by simp
  then have noch: "v_child v4 i = []" "\<not> child_of v4 i q" for q
    using assms(2,3) live4 by (auto simp: child_of_def)
  obtain h5 where 5: "free_pcb (Some i) ?s4 = Some (upd_pcb i (\<lambda>p. p\<lparr>p_pid := NULL_PID\<rparr>) ?s4\<lparr>lh := h5\<rparr>)"
    "pcb_rel (upd_pcb i (\<lambda>p. p\<lparr>p_pid := NULL_PID\<rparr>) ?s4\<lparr>lh := h5\<rparr>) (free_view i v4)"
    using free_pcb_detached[OF asl_relD(1)[OF a4(1)] _ 4(3) noch] assms(2) live4 by auto
  let ?s5 = "upd_pcb i (\<lambda>p. p\<lparr>p_pid := NULL_PID\<rparr>) ?s4\<lparr>lh := h5\<rparr>" and ?v5 = "free_view i v4"
  note F = free_view_facts[OF asl_relD(1)[OF a4(1)] _ noch]
  have live5: "live ?v5 k \<longleftrightarrow> live v k \<and> k \<noteq> i" for k using F(1) assms(2) live4 by simp
  have view5: "v_lo ?v5 = v_lo v4" "v_hi ?v5 = v_hi v4" "v_child ?v5 = v_child v4" "v_sact ?v5 = v_sact v4"
    "v_sfree ?v5 = v_sfree v4" "v_procq ?v5 = v_procq v4"
    by (simp_all add: free_view_def)
  have a5: "asl_rel ?s5 ?v5" "waiting ?s5 ?v5 = waiting ?s4 v4"
    by (rule asl_rel_transfer[OF a4(1) 5(2)]; use live5 live4 view5 in \<open>auto split: if_splits\<close>)+
  have w5: "waiting ?s5 ?v5 k = filter (\<lambda>j. j \<noteq> i) (waiting s v k)" for k using a5(2) a4(2) by simp
  have tab: "k \<noteq> i \<Longrightarrow> pcb_table ?s5 k = pcb_table s k" for k by simp
  have "{k. live ?v5 k} = {k. live v k} - {i}" using live5 by auto
  then have pc: "process_count ?s5 = of_nat (card {k. live ?v5 k})"
    using I(6) card_dec[of "{k. live v k}" i] assms(2) by simp
  have bl: "{k. blocked ?v5 k} = {k. blocked v k} - {i}"
    using blocked_filter[OF I(1) a5(1), of "{i}"] w5 by simp
  have b1: "blocked ?v1 i = blocked v i" by (simp add: blocked_def)
  have sc: "softblock_count ?s5 = of_nat (card {k. blocked ?v5 k})"
    using I(7) card_dec[OF blocked_finite[OF I(1)], of i] b1 unfolding bl by (simp add: upd_pcb_def)
  have "acyclic (tree_rel ?v5)"
  proof (rule acyclic_subset[OF I(4)])
    show "tree_rel ?v5 \<subseteq> tree_rel v"
      using live5 ch4 view5(3) by (auto simp: tree_rel_def child_of_def)
  qed
  moreover have "pids_ok ?s5 ?v5" using I(2) live5 by (simp add: pids_ok_def)
  moreover have "prios_ok ?s5 ?v5" using I(3) 4(5,6) view5(1,2) by (auto simp: prios_ok_def)
  ultimately have "sched_inv ?s5 ?v5" using a5(1) pc sc 2(2) by (simp add: sched_inv_def)
  then have "killed {i} s v ?s5 ?v5"
    using live5 4(5,6) view5 w5 ch4 tab
    by (simp add: killed_def same_rest_def upd_pcb_def)
  moreover have "kill_process (Some i) s = Some (0, ?s5)"
    using 1(1) 2(1) 4(1) 5(1) by (simp add: kill_process_def)
  ultimately show ?thesis by blast
qed

section \<open>Killing a process and its progeny\<close>

lemma same_rest_trans: "same_rest s t \<Longrightarrow> same_rest t u \<Longrightarrow> same_rest s u"
  by (simp add: same_rest_def)

lemma killed_trans:
  assumes "killed D s v t w" "killed E t w u x"
  shows "killed (D \<union> E) s v u x"
  using assms same_rest_trans[of s t u] unfolding killed_def
  by (auto simp: filter_filter intro!: filter_cong)

lemma progeny_self [simp]: "i \<in> progeny v i"
  by (simp add: progeny_def)

lemma progeny_live:
  assumes "pcb_rel s v" "live v i"
  shows "progeny v i \<subseteq> {k. live v k}"
proof
  fix k assume "k \<in> progeny v i"
  then have "(k, i) \<in> (tree_rel v)\<^sup>*" by (simp add: progeny_def)
  then show "k \<in> {k. live v k}"
    using assms pcb_relD(5)[OF assms(1)] by (cases rule: converse_rtranclE) (auto simp: tree_rel_def)
qed

lemma progeny_finite: "pcb_rel s v \<Longrightarrow> live v i \<Longrightarrow> finite (progeny v i)"
  by (rule finite_subset[OF progeny_live live_finite])

text \<open>Two facts on cutting a subtree off a tree.\<close>

lemma rtrancl_cut_edge:
  assumes "acyclic R" "(c, i) \<in> R"
  shows "(k, c) \<in> (R - {(c, i)})\<^sup>* \<longleftrightarrow> (k, c) \<in> R\<^sup>*"
proof
  show "(k, c) \<in> R\<^sup>*" if "(k, c) \<in> (R - {(c, i)})\<^sup>*" using that rtrancl_mono[of "R - {(c, i)}" R] by auto
  show "(k, c) \<in> (R - {(c, i)})\<^sup>*" if "(k, c) \<in> R\<^sup>*"
    using that
  proof (induction rule: converse_rtrancl_induct)
    case (step k y)
    have "(k, y) \<noteq> (c, i)"
      using step(2) assms by (auto simp: acyclic_def dest: rtrancl_into_trancl2)
    with step(1,3) show ?case by (auto intro: converse_rtrancl_into_rtrancl)
  qed simp
qed

lemma rtrancl_cut_subtree:
  assumes "acyclic R" "(c, i) \<in> R" "D = {k. (k, c) \<in> R\<^sup>*}" "R2 = {(k, q) \<in> R. k \<notin> D \<and> q \<notin> D}"
  shows "{k. (k, i) \<in> R2\<^sup>*} = {k. (k, i) \<in> R\<^sup>*} - D"
proof (intro equalityI subsetI)
  have iD: "i \<notin> D" using assms(1-3) by (auto simp: acyclic_def dest: rtrancl_into_trancl2)
  fix k assume "k \<in> {k. (k, i) \<in> R2\<^sup>*}"
  then have k: "(k, i) \<in> R2\<^sup>*" by simp
  then have "(k, i) \<in> R\<^sup>*" using rtrancl_mono[of R2 R] assms(4) by auto
  moreover have "k \<notin> D" using k iD assms(4) by (cases rule: converse_rtranclE) auto
  ultimately show "k \<in> {k. (k, i) \<in> R\<^sup>*} - D" by simp
next
  fix k assume "k \<in> {k. (k, i) \<in> R\<^sup>*} - D"
  then have "(k, i) \<in> R\<^sup>*" "k \<notin> D" by auto
  then show "k \<in> {k. (k, i) \<in> R2\<^sup>*}"
  proof (induction rule: converse_rtrancl_induct)
    case (step k y)
    have "y \<notin> D" using step(1,4) assms(3) by (auto intro: converse_rtrancl_into_rtrancl)
    then show ?case using step assms(4) by (auto intro: converse_rtrancl_into_rtrancl)
  qed simp
qed

text \<open>Taking the first child of a process.\<close>

lemma pop_child:
  assumes "sched_inv s v" "live v i" "v_child v i = c # cs"
  shows "\<exists>h. remove_child (Some i) s = Some (Some c, upd_pcb c (\<lambda>p. p\<lparr>p_parent := None\<rparr>) (s\<lparr>lh := h\<rparr>))
    \<and> sched_inv (upd_pcb c (\<lambda>p. p\<lparr>p_parent := None\<rparr>) (s\<lparr>lh := h\<rparr>)) (set_child i cs v)
    \<and> waiting (upd_pcb c (\<lambda>p. p\<lparr>p_parent := None\<rparr>) (s\<lparr>lh := h\<rparr>)) (set_child i cs v) = waiting s v
    \<and> tree_rel (set_child i cs v) = tree_rel v - {(c, i)} \<and> (c, i) \<in> tree_rel v"
proof -
  note I = sched_invD[OF assms(1)]
  obtain h where h: "remove_child (Some i) s = Some (Some c, upd_pcb c (\<lambda>p. p\<lparr>p_parent := None\<rparr>) (s\<lparr>lh := h\<rparr>))"
    "pcb_rel (upd_pcb c (\<lambda>p. p\<lparr>p_parent := None\<rparr>) (s\<lparr>lh := h\<rparr>)) (set_child i cs v)"
    using remove_child_Cons[OF I(8) assms(2,3)] by blast
  let ?s = "upd_pcb c (\<lambda>p. p\<lparr>p_parent := None\<rparr>) (s\<lparr>lh := h\<rparr>)" and ?v = "set_child i cs v"
  have F: "live ?v = live v" "v_lo ?v = v_lo v" "v_hi ?v = v_hi v"
    "child_of ?v k r \<longleftrightarrow> (if r = i then k \<in> set cs else child_of v k r)" for k r
    using set_child_facts(1)[of i cs v] set_child_facts(3)[OF assms(2), of cs k r]
    by (simp_all add: set_child_def)
  have A: "asl_rel ?s ?v" "blocked ?v = blocked v" "waiting ?s ?v = waiting s v"
    by (rule asl_rel_transfer[OF I(1) h(2)]; auto simp: set_child_def split: if_splits)+
  have "c \<notin> set cs" using pcb_rel_distinct(3)[OF I(8) assms(2)] assms(3) by simp
  then have T: "tree_rel ?v = tree_rel v - {(c, i)}" "(c, i) \<in> tree_rel v"
    using F(4) assms(2,3) by (auto simp: tree_rel_def child_of_def split: if_splits)
  then have "acyclic (tree_rel ?v)" using I(4) by (auto intro: acyclic_subset)
  moreover have "pids_ok ?s ?v" using I(2) F(1) by (simp add: pids_ok_def)
  moreover have "prios_ok ?s ?v" using I(3) F(2,3) by (simp add: prios_ok_def)
  ultimately have "sched_inv ?s ?v"
    using A I(5-7) F(1) by (simp add: sched_inv_def)
  with h(1) A(3) T show ?thesis by blast
qed

theorem kill_progeny_rel:
  "sched_inv s v \<Longrightarrow> live v i \<Longrightarrow>
    \<exists>s' v'. kill_progeny (Some i) s = Some (0, s') \<and> killed (progeny v i) s v s' v'"
proof (induction "card (progeny v i)" arbitrary: s v i rule: less_induct)
  case less
  note I = sched_invD[OF less.prems(1)]
  show ?case
  proof (cases "v_child v i")
    case Nil
    have "k = i" if "(k, i) \<in> (tree_rel v)\<^sup>*" for k
      using that Nil by (cases rule: rtranclE) (auto simp: tree_rel_def child_of_def)
    then have "progeny v i = {i}" by (auto simp: progeny_def)
    moreover have "kill_progeny (Some i) s = kill_process (Some i) s"
      using remove_child_Nil[OF I(8) less.prems(2) Nil] by (subst kill_progeny.simps) simp
    ultimately show ?thesis using kill_process_rel[OF less.prems Nil] by simp
  next
    case (Cons c cs)
    obtain h where 1: "remove_child (Some i) s = Some (Some c, upd_pcb c (\<lambda>p. p\<lparr>p_parent := None\<rparr>) (s\<lparr>lh := h\<rparr>))"
      "sched_inv (upd_pcb c (\<lambda>p. p\<lparr>p_parent := None\<rparr>) (s\<lparr>lh := h\<rparr>)) (set_child i cs v)"
      "waiting (upd_pcb c (\<lambda>p. p\<lparr>p_parent := None\<rparr>) (s\<lparr>lh := h\<rparr>)) (set_child i cs v) = waiting s v"
      "tree_rel (set_child i cs v) = tree_rel v - {(c, i)}" "(c, i) \<in> tree_rel v"
      using pop_child[OF less.prems Cons] by blast
    let ?s1 = "upd_pcb c (\<lambda>p. p\<lparr>p_parent := None\<rparr>) (s\<lparr>lh := h\<rparr>)" and ?v1 = "set_child i cs v"
    let ?D = "progeny v c"
    have live1: "live ?v1 = live v" by (rule set_child_facts(1))
    have c: "live v c" using 1(5) pcb_relD(5)[OF I(8)] by (auto simp: tree_rel_def)
    have D1: "progeny ?v1 c = ?D"
      using rtrancl_cut_edge[OF I(4) 1(5)] 1(4) by (simp add: progeny_def)
    have sub: "?D \<subseteq> progeny v i" using 1(5) by (auto simp: progeny_def intro: rtrancl_into_rtrancl)
    have iD: "i \<notin> ?D"
      using I(4) 1(5) by (auto simp: progeny_def acyclic_def dest: rtrancl_into_trancl2)
    have fin: "finite (progeny v i)" using progeny_finite[OF I(8) less.prems(2)] .
    have less1: "card ?D < card (progeny v i)"
      using sub iD fin by (intro psubset_card_mono) (auto simp: psubset_eq)
    obtain s2 v2 where 2: "kill_progeny (Some c) ?s1 = Some (0, s2)" "killed ?D ?s1 ?v1 s2 v2"
      using less.hyps[of ?v1 c ?s1] less1 D1 1(2) c live1 by auto
    have K: "killed ?D s v s2 v2"
      using 2(2) 1(3) Cons progeny_self[of c v] live1
      by (auto simp: killed_def same_rest_def set_child_def upd_pcb_def)
    have "tree_rel v2 = {(k, q) \<in> tree_rel v. k \<notin> ?D \<and> q \<notin> ?D}"
      using K by (auto simp: killed_def tree_rel_def child_of_def)
    then have D2: "progeny v2 i = progeny v i - ?D"
      using rtrancl_cut_subtree[OF I(4) 1(5), of ?D "tree_rel v2"] by (simp add: progeny_def)
    have i2: "live v2 i" "sched_inv s2 v2" using K iD less.prems(2) by (auto simp: killed_def)
    have "card (progeny v2 i) < card (progeny v i)"
      unfolding D2 using sub progeny_self[of c v] by (intro psubset_card_mono[OF fin]) blast
    then obtain s3 v3 where 3: "kill_progeny (Some i) s2 = Some (0, s3)" "killed (progeny v2 i) s2 v2 s3 v3"
      using less.hyps[of v2 i s2] i2 by blast
    have "?D \<union> progeny v2 i = progeny v i" using D2 sub by auto
    then have "killed (progeny v i) s v s3 v3" using killed_trans[OF K 3(2)] by simp
    moreover have "kill_progeny (Some i) s = Some (0, s3)"
      using 1(1) 2(1) 3(1) by (subst kill_progeny.simps) simp
    ultimately show ?thesis by blast
  qed
qed

section \<open>Creating a process\<close>

text \<open>The invariant does not look at registers, timers, memory or the running process.\<close>

definition same_kernel :: "kstate \<Rightarrow> kstate \<Rightarrow> bool" where
  "same_kernel s s' \<longleftrightarrow> lh s' = lh s \<and> semd_table s' = semd_table s
   \<and> process_count s' = process_count s \<and> softblock_count s' = softblock_count s \<and> kstdout s' = kstdout s
   \<and> (\<forall>i. p_parent (pcb_table s' i) = p_parent (pcb_table s i) \<and> p_sem_add (pcb_table s' i) = p_sem_add (pcb_table s i)
        \<and> p_prio (pcb_table s' i) = p_prio (pcb_table s i) \<and> p_pid (pcb_table s' i) = p_pid (pcb_table s i))"

lemma same_kernel_inv:
  assumes "same_kernel s s'"
  shows "asl_rel s' v = asl_rel s v" "waiting s' v = waiting s v" "sched_inv s' v = sched_inv s v"
proof -
  show a: "asl_rel s' v = asl_rel s v"
    using assms pcb_rel_cong[of s' s v] by (simp add: same_kernel_def asl_rel_def)
  show "waiting s' v = waiting s v"
    using assms by (simp add: same_kernel_def waiting_def fun_eq_iff)
  show "sched_inv s' v = sched_inv s v"
    using assms a by (simp add: sched_inv_def same_kernel_def pids_ok_def prios_ok_def)
qed

lemma card_inc:
  assumes "finite A" "x \<notin> A"
  shows "(of_nat (card A) :: u32) + 1 = of_nat (card (insert x A))"
  using assms by simp

lemma spawn_process_full:
  assumes "pcb_rel s v" "v_free v = []"
  shows "spawn_process U prio s = Some (None, s)"
  using alloc_pcb_Nil[OF assms] by (simp add: spawn_process_def)

definition spawned_pcb :: "umps \<Rightarrow> nat \<Rightarrow> u32 \<Rightarrow> u32 \<Rightarrow> pcb_t" where
  "spawned_pcb U i recycle prio =
     (cleared_pcb U)\<lparr>p_pid := make_pid (of_nat i) recycle, p_prio := prio\<rparr>"

lemma spawn_process_rel:
  assumes "sched_inv s v" "v_free v = i # fs" "prio \<in> {0, 1}"
  shows "\<exists>h v'. spawn_process U prio s = Some (Some i, s\<lparr>lh := h,
        pcb_table := (pcb_table s)(i := spawned_pcb U i (recycle_count s) prio),
        process_count := process_count s + 1, recycle_count := recycle_count s + 1\<rparr>)
    \<and> sched_inv (s\<lparr>lh := h, pcb_table := (pcb_table s)(i := spawned_pcb U i (recycle_count s) prio),
        process_count := process_count s + 1, recycle_count := recycle_count s + 1\<rparr>) v'
    \<and> v_free v' = fs \<and> v_child v' = (v_child v)(i := [])
    \<and> v_sfree v' = v_sfree v \<and> v_sact v' = v_sact v \<and> v_procq v' = v_procq v
    \<and> v_lo v' = (if prio = 0 then v_lo v @ [i] else v_lo v)
    \<and> v_hi v' = (if prio = 0 then v_hi v else v_hi v @ [i])
    \<and> waiting (s\<lparr>lh := h, pcb_table := (pcb_table s)(i := spawned_pcb U i (recycle_count s) prio),
        process_count := process_count s + 1, recycle_count := recycle_count s + 1\<rparr>) v' = waiting s v"
proof -
  note I = sched_invD[OF assms(1)] and F = alloc_view_facts[OF sched_invD(8)[OF assms(1)] assms(2)]
  obtain h1 where h1: "alloc_pcb U s = Some (Some i, s\<lparr>lh := h1, pcb_table := (pcb_table s)(i := cleared_pcb U)\<rparr>)"
    "pcb_rel (s\<lparr>lh := h1, pcb_table := (pcb_table s)(i := cleared_pcb U)\<rparr>) (alloc_view i v)"
    using alloc_pcb_Cons[OF I(8) assms(2)] by blast
  let ?tab = "(pcb_table s)(i := spawned_pcb U i (recycle_count s) prio)" and ?v1 = "alloc_view i v"
  let ?s1 = "s\<lparr>lh := h1, pcb_table := ?tab, process_count := process_count s + 1,
    recycle_count := recycle_count s + 1\<rparr>"
  have p1: "pcb_rel ?s1 ?v1"
    using h1(2) pcb_rel_cong[of ?s1 "s\<lparr>lh := h1, pcb_table := (pcb_table s)(i := cleared_pcb U)\<rparr>" ?v1]
    by (simp add: spawned_pcb_def)
  have nb: "\<not> blocked v i" using blocked_live(1)[OF I(1), of i] F(3) by blast
  have v1: "v_lo ?v1 = v_lo v" "v_hi ?v1 = v_hi v" "v_sact ?v1 = v_sact v" "v_sfree ?v1 = v_sfree v"
    "v_procq ?v1 = v_procq v" "v_child ?v1 = (v_child v)(i := [])"
    by (simp_all add: alloc_view_def)
  have a1: "asl_rel ?s1 ?v1" "blocked ?v1 = blocked v" "waiting ?s1 ?v1 = waiting s v"
    by (rule asl_rel_transfer[OF I(1) p1]; use v1 nb F(5) in \<open>auto simp: spawned_pcb_def cleared_pcb_def split: if_splits\<close>)+
  have nq: "\<not> queued ?v1 i" using F(7) by simp
  obtain h v' where h: "enqueue_process (Some i) ?s1 = Some (?s1\<lparr>lh := h\<rparr>)" "v' = enqueue_view i ?s1 ?v1"
    "asl_rel (?s1\<lparr>lh := h\<rparr>) v'" "waiting (?s1\<lparr>lh := h\<rparr>) v' = waiting s v"
    using enqueue_process_rel[OF a1(1) nq F(1)] a1(3) by auto
  let ?s = "s\<lparr>lh := h, pcb_table := ?tab, process_count := process_count s + 1,
    recycle_count := recycle_count s + 1\<rparr>"
  have eq: "?s1\<lparr>lh := h\<rparr> = ?s" by simp
  note h = h(1,2) h(3,4)[unfolded eq]
  have q: "v_lo v' = (if prio = 0 then v_lo v @ [i] else v_lo v)"
    "v_hi v' = (if prio = 0 then v_hi v else v_hi v @ [i])"
    "v_free v' = fs" "v_child v' = (v_child v)(i := [])"
    using h(2) v1 F(4) by (auto simp: enqueue_view_queues spawned_pcb_def)
  have sems: "v_sfree v' = v_sfree v" "v_sact v' = v_sact v" "v_procq v' = v_procq v"
    using h(2) v1 by (auto simp: enqueue_view_def process_queue_def)
  have live': "live v' k \<longleftrightarrow> live v k \<or> k = i" for k using h(2) F(5) by simp
  have "of_nat i < (2 ^ 32 :: nat)" using F(1) by simp
  then have id: "unat (of_nat i :: u32) = i" by (simp add: unat_of_nat)
  have "pids_ok ?s v'"
    using I(2) live' F(1,3) make_pid_not_null[of "of_nat i"] mask_pid_id_make_pid[of "of_nat i"] id
    by (simp add: pids_ok_def spawned_pcb_def)
  moreover have "i \<notin> set (v_lo v)" "i \<notin> set (v_hi v)" using ready_live(1)[OF I(8)] F(3) by blast+
  then have "prios_ok ?s v'" using I(3) q(1,2) assms(3) by (auto simp: prios_ok_def spawned_pcb_def)
  moreover have "tree_rel v' = tree_rel v" using h(2) F(6) by (simp add: tree_rel_def)
  moreover have "process_count ?s = of_nat (card {k. live v' k})"
  proof -
    have "{k. live v' k} = insert i {k. live v k}" using live' by auto
    then show ?thesis using I(6) card_inc[of "{k. live v k}" i] F(3) by simp
  qed
  moreover have "blocked v' = blocked v" using h(2) a1(2) by simp
  ultimately have "sched_inv ?s v'" using h(3) I(4,5,7) by (simp add: sched_inv_def)
  moreover have "spawn_process U prio s = Some (Some i, ?s)"
  proof -
    have "spawn_process U prio s = enqueue_process (Some i) ?s1 \<bind> (\<lambda>s. Some (Some i, s))"
      using h1(1) assms(3)
      by (auto simp: spawn_process_def upd_pcb_def spawned_pcb_def Let_def
          intro!: arg_cong[where f = "\<lambda>s. enqueue_process (Some i) s \<bind> (\<lambda>s. Some (Some i, s))"])
    then show ?thesis using h(1) by simp
  qed
  ultimately show ?thesis using q sems h(4) by (intro exI[of _ h] exI[of _ v']) simp
qed

section \<open>Looking a process up\<close>

lemma find_process_iff:
  assumes "sched_inv s v" "pid \<noteq> NULL_PID"
  shows "find_process pid s = Some i \<longleftrightarrow> live v i \<and> p_pid (pcb_table s i) = pid"
proof
  assume "find_process pid s = Some i"
  then have i: "i < MAX_PROC" "p_pid (pcb_table s i) = pid"
    by (auto simp: find_process_def Let_def split: if_splits)
  have "live v i" using sched_invD(2)[OF assms(1)] i assms(2) unfolding pids_ok_def by metis
  with i show "live v i \<and> p_pid (pcb_table s i) = pid" by simp
next
  assume a: "live v i \<and> p_pid (pcb_table s i) = pid"
  then have "i < MAX_PROC" by (simp add: live_def)
  moreover have "unat (mask_pid_id pid) = i"
    using sched_invD(2)[OF assms(1)] a calculation unfolding pids_ok_def by metis
  ultimately show "find_process pid s = Some i" using a by (simp add: find_process_def Let_def)
qed

end
