(* ===== verification/Dispatch.thy ===== *)
theory Dispatch
  imports Scheduler
begin

text \<open>
  The second part of \<^verbatim>\<open>os/src/scheduler.c\<close>: \<^verbatim>\<open>schedule\<close> and what it calls. The abstract
  specification is \<open>pick\<close>, a function on views: the process told to keep the processor, else the
  first of the high priority queue, else the first of the low priority queue, else the process
  that yielded. The lemmas show that \<^verbatim>\<open>schedule\<close> dispatches exactly the process picked, keeps the
  invariant, and otherwise stops, waits or reports a deadlock as the counters say.
\<close>

section \<open>Scheduling\<close>

text \<open>
  \<^verbatim>\<open>wait()\<close> stops the processor until an interrupt, which enters the nucleus through the exception
  handler on its own stack; the call that follows it in the source is not reached from here.
\<close>

definition scheduler_wait :: "umps \<Rightarrow> kstate \<Rightarrow> unit kres option" where
  "scheduler_wait U s = (
     let s = reset_timer (s\<lparr>active_process := None\<rparr>);
         status = status_interrupts_on_nucleus U (cp0_status s);
         status = status_il_on_all U status;
         s = s\<lparr>cp0_status := status\<rparr>
     in Some (Exit WAIT s))"

definition scheduler_takeover :: "umps \<Rightarrow> kstate \<Rightarrow> unit kres option" where
  "scheduler_takeover U s = (case active_process s of None \<Rightarrow> None | Some i \<Rightarrow>
     let s = upd_pcb i (\<lambda>p. p\<lparr>p_s := (p_s p)\<lparr>status := status_interrupts_on_process U (status (p_s p))\<rparr>\<rparr>) s;
         s = reset_local_timer s;
         s = (if p_prio (pcb_table s i) \<noteq> 0
              then upd_pcb i (\<lambda>p. p\<lparr>p_s := (p_s p)\<lparr>status := status_local_timer_on U (status (p_s p))\<rparr>\<rparr>) s
              else s);
         (tod, s) = store_tod s;
         s = s\<lparr>start_tod := tod\<rparr>
     in Some (Exit (LDST (p_s (pcb_table s i))) s))"

definition wait_or_die :: "umps \<Rightarrow> kstate \<Rightarrow> unit kres option" where
  "wait_or_die U s =
     (if process_count s = 0 then Some (Exit HALT s)
      else if softblock_count s \<noteq> 0 then scheduler_wait U s
      else scheduler_panic ''Deadlock detected\<newline>'' s)"

definition select_process :: "umps \<Rightarrow> nat option \<Rightarrow> bool \<Rightarrow> kstate \<Rightarrow> unit kres option" where
  "select_process U pcb enqueue s =
     (if pcb \<noteq> None \<and> \<not> enqueue then Some (Ret () (s\<lparr>active_process := pcb\<rparr>)) else do {
       hi_empty \<leftarrow> list_empty (Some ready_queue_hi) (lh s);
       if \<not> hi_empty then do {
         (p, s) \<leftarrow> remove_proc_q (Some ready_queue_hi) s;
         Some (Ret () (s\<lparr>active_process := p\<rparr>))
       } else do {
         lo_empty \<leftarrow> list_empty (Some ready_queue_lo) (lh s);
         if \<not> lo_empty then do {
           (p, s) \<leftarrow> remove_proc_q (Some ready_queue_lo) s;
           Some (Ret () (s\<lparr>active_process := p\<rparr>))
         } else if yield_process s \<noteq> None
         then Some (Ret () (s\<lparr>active_process := yield_process s, yield_process := None\<rparr>))
         else wait_or_die U s
       }
     })"

definition schedule :: "umps \<Rightarrow> nat option \<Rightarrow> bool \<Rightarrow> kstate \<Rightarrow> unit kres option" where
  "schedule U pcb enqueue s = do {
     s \<leftarrow> (if enqueue \<and> pcb \<noteq> None then enqueue_process pcb s else Some s);
     kbind (select_process U pcb enqueue s) (\<lambda>_ s. do {
       s \<leftarrow> (case yield_process s of None \<Rightarrow> Some s | Some y \<Rightarrow> do {
           s \<leftarrow> insert_proc_q (Some (process_queue y s)) (Some y) s;
           Some (s\<lparr>yield_process := None\<rparr>)
         });
       if active_process s \<noteq> None then scheduler_takeover U s else Some (Ret () s)
     })
   }"

section \<open>The choice of a process\<close>

definition pick :: "nat option \<Rightarrow> bool \<Rightarrow> nat option \<Rightarrow> view \<Rightarrow> (nat \<times> view \<times> nat option) option" where
  "pick pcb enqueue y v =
     (if pcb \<noteq> None \<and> \<not> enqueue then Some (the pcb, v, y)
      else case v_hi v of j # js \<Rightarrow> Some (j, v\<lparr>v_hi := js\<rparr>, y)
      | [] \<Rightarrow> (case v_lo v of j # js \<Rightarrow> Some (j, v\<lparr>v_lo := js\<rparr>, y)
      | [] \<Rightarrow> (case y of Some j \<Rightarrow> Some (j, v, None) | None \<Rightarrow> None)))"

text \<open>The view after the calling process has been put back, and after a yielding one has been.\<close>

definition requeue :: "nat option \<Rightarrow> kstate \<Rightarrow> view \<Rightarrow> view" where
  "requeue p s v = (case p of None \<Rightarrow> v | Some i \<Rightarrow> enqueue_view i s v)"

text \<open>A process that is on no list: running, or about to be put somewhere.\<close>

definition off_lists :: "view \<Rightarrow> nat \<Rightarrow> bool" where
  "off_lists v i \<longleftrightarrow> live v i \<and> \<not> queued v i"

lemma live_ready [simp]: "live (v\<lparr>v_lo := xs\<rparr>) = live v" "live (v\<lparr>v_hi := xs\<rparr>) = live v"
  by (simp_all add: live_def fun_eq_iff)

lemma sched_inv_ready:
  assumes "sched_inv s v" "pcb_rel (s\<lparr>lh := h\<rparr>) (set_queue v c xs)"
    "c = ready_queue_lo \<or> c = ready_queue_hi" "set xs \<subseteq> set (queue_of v c)"
  shows "sched_inv (s\<lparr>lh := h\<rparr>) (set_queue v c xs)" "waiting (s\<lparr>lh := h\<rparr>) (set_queue v c xs) = waiting s v"
proof -
  note I = sched_invD[OF assms(1)] and A = asl_rel_ready[OF sched_invD(1)[OF assms(1)] assms(2,3)]
  have "tree_rel (set_queue v c xs) = tree_rel v" by (simp add: tree_rel_def)
  moreover have "pids_ok (s\<lparr>lh := h\<rparr>) (set_queue v c xs)" using I(2) by (simp add: pids_ok_def)
  moreover have "prios_ok (s\<lparr>lh := h\<rparr>) (set_queue v c xs)"
    using I(3) assms(3,4) by (auto simp: prios_ok_def)
  ultimately show "sched_inv (s\<lparr>lh := h\<rparr>) (set_queue v c xs)"
    using A(1,2) I(4-7) by (simp add: sched_inv_def)
  show "waiting (s\<lparr>lh := h\<rparr>) (set_queue v c xs) = waiting s v" by (rule A(3))
qed

lemma pick_cases:
  assumes "pick pcb enqueue z v = Some (j, w, y)"
  obtains (keep) "pcb = Some j" "\<not> enqueue" "w = v" "y = z"
  | (hi) js where "pcb = None \<or> enqueue" "v_hi v = j # js" "w = set_queue v ready_queue_hi js" "y = z"
  | (lo) js where "pcb = None \<or> enqueue" "v_hi v = []" "v_lo v = j # js"
      "w = set_queue v ready_queue_lo js" "y = z"
  | (yield) "pcb = None \<or> enqueue" "v_hi v = []" "v_lo v = []" "z = Some j" "w = v" "y = None"
proof (cases "pcb \<noteq> None \<and> \<not> enqueue")
  case True
  then show thesis using assms keep by (auto simp: pick_def)
next
  case False
  then have p: "pcb = None \<or> enqueue" by blast
  show thesis
  proof (cases "v_hi v")
    case (Cons a js)
    then show thesis using assms p hi[of js] by (auto simp: pick_def)
  next
    case Nil
    show thesis
    proof (cases "v_lo v")
      case (Cons a js)
      then show thesis using assms p Nil lo[of js] by (auto simp: pick_def)
    next
      case lo_Nil: Nil
      then show thesis using assms p Nil yield by (auto simp: pick_def split: option.splits)
    qed
  qed
qed

lemma select_process_pick:
  assumes "sched_inv s v" "pick pcb enqueue (yield_process s) v = Some (j, w, y)"
  shows "\<exists>h. select_process U pcb enqueue s
      = Some (Ret () (s\<lparr>lh := h, active_process := Some j, yield_process := y\<rparr>))
    \<and> sched_inv (s\<lparr>lh := h\<rparr>) w \<and> waiting (s\<lparr>lh := h\<rparr>) w = waiting s v"
proof -
  note rel = sched_invD(8)[OF assms(1)]
  have E: "list_empty (Some ready_queue_hi) (lh s) = Some (v_hi v = [])"
    "list_empty (Some ready_queue_lo) (lh s) = Some (v_lo v = [])"
    using pcb_rel_ring(2)[OF rel, of ready_queue_hi] pcb_rel_ring(2)[OF rel, of ready_queue_lo]
    by (simp_all add: list_empty_ring del: ring_Nil)
  from assms(2) show ?thesis
  proof (cases rule: pick_cases)
    case keep
    then show ?thesis using assms by (intro exI[of _ "lh s"]) (auto simp: pick_def select_process_def)
  next
    case (hi js)
    obtain h where h: "remove_proc_q (Some ready_queue_hi) s = Some (Some j, s\<lparr>lh := h\<rparr>)"
      "pcb_rel (s\<lparr>lh := h\<rparr>) (set_queue v ready_queue_hi js)"
      using remove_proc_q_Cons[OF rel, of ready_queue_hi j js] hi(2) by auto
    from sched_inv_ready[OF assms(1) h(2)] hi show ?thesis using h(1) E
      by (intro exI[of _ h]) (auto simp: select_process_def)
  next
    case (lo js)
    obtain h where h: "remove_proc_q (Some ready_queue_lo) s = Some (Some j, s\<lparr>lh := h\<rparr>)"
      "pcb_rel (s\<lparr>lh := h\<rparr>) (set_queue v ready_queue_lo js)"
      using remove_proc_q_Cons[OF rel, of ready_queue_lo j js] lo(3) by auto
    from sched_inv_ready[OF assms(1) h(2)] lo show ?thesis using h(1) E
      by (intro exI[of _ h]) (auto simp: select_process_def)
  next
    case yield
    then show ?thesis using E assms(1)
      by (intro exI[of _ "lh s"]) (auto simp: select_process_def)
  qed
qed

lemma select_process_none:
  assumes "sched_inv s v" "pick pcb enqueue (yield_process s) v = None"
  shows "select_process U pcb enqueue s = wait_or_die U s"
proof -
  note rel = sched_invD(8)[OF assms(1)]
  have "pcb = None \<or> enqueue" "v_hi v = []" "v_lo v = []" "yield_process s = None"
    using assms(2) by (auto simp: pick_def split: if_splits list.splits option.splits)
  then show ?thesis
    using pcb_rel_ring(2)[OF rel, of ready_queue_hi] pcb_rel_ring(2)[OF rel, of ready_queue_lo]
    by (auto simp: select_process_def list_empty_ring simp del: ring_Nil)
qed

text \<open>Whoever is picked is on no list afterwards, and whoever yielded still is not.\<close>

lemma pick_off_lists:
  assumes "pcb_rel s v" "pick pcb enqueue z v = Some (j, w, y)"
    "\<And>i. pcb = Some i \<Longrightarrow> \<not> enqueue \<Longrightarrow> off_lists v i" "\<And>i. z = Some i \<Longrightarrow> off_lists v i \<and> (pcb = Some i \<longrightarrow> enqueue)"
  shows "off_lists w j" "y = Some i \<Longrightarrow> off_lists w i \<and> i \<noteq> j"
    "live w = live v" "queued w i \<longleftrightarrow> queued v i \<and> i \<noteq> j" "y = (if z = Some j then None else z)"
proof -
  from assms(2) have "off_lists w j \<and> (y = Some i \<longrightarrow> off_lists w i \<and> i \<noteq> j) \<and> live w = live v
    \<and> (\<forall>i. queued w i \<longleftrightarrow> queued v i \<and> i \<noteq> j) \<and> y = (if z = Some j then None else z)" for i
  proof (cases rule: pick_cases)
    case keep
    then show ?thesis using assms(3,4) by (auto simp: off_lists_def)
  next
    case (hi js)
    have q: "queued w k \<longleftrightarrow> queued v k \<and> k \<noteq> j" for k
      using pcb_rel_distinct(2)[OF assms(1), of ready_queue_hi] ready_live[OF assms(1), of j]
        lo_hi_disjoint[OF assms(1), of j] hi(2,3) by (auto simp: queued_def blocked_def live_def)
    have "live v j" "queued v j" using hi(2) ready_live(1)[OF assms(1), of j] by (auto simp: queued_def)
    then show ?thesis using q hi(3,4) assms(4) by (auto simp: off_lists_def)
  next
    case (lo js)
    have q: "queued w k \<longleftrightarrow> queued v k \<and> k \<noteq> j" for k
      using pcb_rel_distinct(2)[OF assms(1), of ready_queue_lo] ready_live[OF assms(1), of j]
        lo_hi_disjoint[OF assms(1), of j] lo(3,4) by (auto simp: queued_def blocked_def live_def)
    have "live v j" "queued v j" using lo(3) ready_live(1)[OF assms(1), of j] by (auto simp: queued_def)
    then show ?thesis using q lo(4,5) assms(4) by (auto simp: off_lists_def)
  next
    case yield
    then show ?thesis using assms(4) by (auto simp: off_lists_def)
  qed
  then show "off_lists w j" "y = Some i \<Longrightarrow> off_lists w i \<and> i \<noteq> j" "live w = live v"
    "queued w i \<longleftrightarrow> queued v i \<and> i \<noteq> j" "y = (if z = Some j then None else z)" by blast+
qed

section \<open>The scheduler refines the choice\<close>

lemma takeover_rel:
  assumes "active_process s = Some j"
  shows "\<exists>s'. scheduler_takeover U s = Some (Exit (LDST (p_s (pcb_table s' j))) s')
    \<and> same_kernel s s' \<and> active_process s' = Some j \<and> yield_process s' = yield_process s
    \<and> (\<forall>k. k \<noteq> j \<longrightarrow> pcb_table s' k = pcb_table s k) \<and> mem s' = mem s \<and> start_tod s' = clock s (ticks s)
    \<and> (pcb_table s' j)\<lparr>p_s := (p_s (pcb_table s' j))\<lparr>status := 0\<rparr>\<rparr> = (pcb_table s j)\<lparr>p_s := (p_s (pcb_table s j))\<lparr>status := 0\<rparr>\<rparr>
    \<and> supports s' = supports s \<and> states s' = states s"
  using assms by (auto simp: scheduler_takeover_def same_kernel_def Let_def store_tod_def
      reset_local_timer_def load_local_timer_def upd_pcb_def)

lemma requeue_step:
  assumes "sched_inv s v" "\<And>i. p = Some i \<Longrightarrow> off_lists v i"
  shows "\<exists>h. (case p of None \<Rightarrow> Some s | Some i \<Rightarrow> enqueue_process (Some i) s) = Some (s\<lparr>lh := h\<rparr>)
    \<and> sched_inv (s\<lparr>lh := h\<rparr>) (requeue p s v) \<and> waiting (s\<lparr>lh := h\<rparr>) (requeue p s v) = waiting s v"
proof (cases p)
  case None
  then show ?thesis using assms(1) by (intro exI[of _ "lh s"]) (simp add: requeue_def)
next
  case (Some i)
  then show ?thesis
    using enqueue_process_inv[OF assms(1), of i] assms(2)[OF Some] by (simp add: requeue_def off_lists_def)
qed

lemma requeue_facts:
  "live (requeue p s v) = live v" "queued (requeue p s v) k \<longleftrightarrow> queued v k \<or> p = Some k"
    "v_child (requeue p s v) = v_child v"
  by (cases p; auto simp: requeue_def queued_def enqueue_view_queues)+

definition caller_queue :: "nat option \<Rightarrow> bool \<Rightarrow> nat option" where
  "caller_queue pcb enqueue = (if enqueue then pcb else None)"

text \<open>
  What a caller of \<^verbatim>\<open>schedule\<close> hands over: the process it names and the one that yielded are on no
  list, and they are different.
\<close>

definition handover :: "nat option \<Rightarrow> kstate \<Rightarrow> view \<Rightarrow> bool" where
  "handover pcb s v \<longleftrightarrow> (\<forall>i. pcb = Some i \<longrightarrow> off_lists v i)
     \<and> (\<forall>i. yield_process s = Some i \<longrightarrow> off_lists v i \<and> pcb \<noteq> Some i)"

lemma schedule_dispatch:
  assumes "sched_inv s v" "handover pcb s v"
    and "pick pcb enqueue (yield_process s) (requeue (caller_queue pcb enqueue) s v) = Some (j, w, y)"
  shows "\<exists>s'. schedule U pcb enqueue s = Some (Exit (LDST (p_s (pcb_table s' j))) s')
    \<and> active_process s' = Some j \<and> yield_process s' = None
    \<and> sched_inv s' (requeue y s w) \<and> waiting s' (requeue y s w) = waiting s v
    \<and> off_lists (requeue y s w) j \<and> live (requeue y s w) = live v
    \<and> (\<forall>k. queued (requeue y s w) k \<longleftrightarrow> (queued v k \<or> pcb = Some k \<or> yield_process s = Some k) \<and> k \<noteq> j)
    \<and> (\<forall>k. k \<noteq> j \<longrightarrow> pcb_table s' k = pcb_table s k) \<and> mem s' = mem s
    \<and> (pcb_table s' j)\<lparr>p_s := (p_s (pcb_table s' j))\<lparr>status := 0\<rparr>\<rparr> = (pcb_table s j)\<lparr>p_s := (p_s (pcb_table s j))\<lparr>status := 0\<rparr>\<rparr>
    \<and> supports s' = supports s \<and> states s' = states s"
proof -
  let ?p = "caller_queue pcb enqueue" and ?v1 = "requeue (caller_queue pcb enqueue) s v"
  have p: "off_lists v i" if "?p = Some i" for i
    using assms(2) that by (auto simp: handover_def caller_queue_def split: if_splits)
  obtain h1 where 1: "(case ?p of None \<Rightarrow> Some s | Some i \<Rightarrow> enqueue_process (Some i) s) = Some (s\<lparr>lh := h1\<rparr>)"
    "sched_inv (s\<lparr>lh := h1\<rparr>) ?v1" "waiting (s\<lparr>lh := h1\<rparr>) ?v1 = waiting s v"
    using requeue_step[OF assms(1) p] by blast
  have enq: "(if enqueue \<and> pcb \<noteq> None then enqueue_process pcb s else Some s) = Some (s\<lparr>lh := h1\<rparr>)"
    using 1(1) by (auto simp: caller_queue_def split: if_splits option.splits)
  have "pick pcb enqueue (yield_process (s\<lparr>lh := h1\<rparr>)) ?v1 = Some (j, w, y)" using assms(3) by simp
  from select_process_pick[OF 1(2) this]
  obtain h2 where 2: "select_process U pcb enqueue (s\<lparr>lh := h1\<rparr>)
      = Some (Ret () (s\<lparr>lh := h2, active_process := Some j, yield_process := y\<rparr>))"
    "sched_inv (s\<lparr>lh := h2\<rparr>) w" "waiting (s\<lparr>lh := h2\<rparr>) w = waiting s v"
    using 1(3) by auto
  note R = requeue_facts[of ?p s v]
  have off1: "off_lists ?v1 i" if "pcb = Some i" "\<not> enqueue" for i
    using that assms(2) R(1,2) by (auto simp: off_lists_def handover_def caller_queue_def)
  have offy: "off_lists ?v1 i \<and> (pcb = Some i \<longrightarrow> enqueue)" if "yield_process s = Some i" for i
    using that assms(2) R(1,2) by (auto simp: off_lists_def handover_def caller_queue_def split: if_splits)
  note P = pick_off_lists[OF sched_invD(8)[OF 1(2)] assms(3) off1 offy]
  let ?s2 = "s\<lparr>lh := h2, active_process := Some j, yield_process := y\<rparr>"
  have k2: "same_kernel (s\<lparr>lh := h2\<rparr>) ?s2" by (simp add: same_kernel_def)
  have rq: "requeue y ?s2 w = requeue y s w"
    by (simp add: requeue_def enqueue_view_def process_queue_def split: option.split)
  obtain h3 where 3: "(case y of None \<Rightarrow> Some ?s2 | Some i \<Rightarrow> enqueue_process (Some i) ?s2) = Some (?s2\<lparr>lh := h3\<rparr>)"
    "sched_inv (?s2\<lparr>lh := h3\<rparr>) (requeue y s w)" "waiting (?s2\<lparr>lh := h3\<rparr>) (requeue y s w) = waiting s v"
    using requeue_step[of ?s2 w y] 2(2,3) P(2) same_kernel_inv[OF k2] rq by auto
  let ?s3 = "?s2\<lparr>lh := h3, yield_process := None\<rparr>"
  have y3: "(case yield_process ?s2 of None \<Rightarrow> Some ?s2 | Some z \<Rightarrow> do {
           s \<leftarrow> insert_proc_q (Some (process_queue z ?s2)) (Some z) ?s2;
           Some (s\<lparr>yield_process := None\<rparr>)
         }) = Some ?s3"
    using 3(1) by (cases y) (simp_all add: enqueue_process_def)
  have k3: "same_kernel (?s2\<lparr>lh := h3\<rparr>) ?s3" by (simp add: same_kernel_def)
  obtain s' where s': "scheduler_takeover U ?s3 = Some (Exit (LDST (p_s (pcb_table s' j))) s')"
    "same_kernel ?s3 s'" "active_process s' = Some j" "yield_process s' = None"
    "\<forall>k. k \<noteq> j \<longrightarrow> pcb_table s' k = pcb_table s k" "mem s' = mem s"
    "(pcb_table s' j)\<lparr>p_s := (p_s (pcb_table s' j))\<lparr>status := 0\<rparr>\<rparr> = (pcb_table s j)\<lparr>p_s := (p_s (pcb_table s j))\<lparr>status := 0\<rparr>\<rparr>"
    "supports s' = supports s" "states s' = states s"
    using takeover_rel[of ?s3 j U] by auto
  have "schedule U pcb enqueue s = Some (Exit (LDST (p_s (pcb_table s' j))) s')"
    unfolding schedule_def enq using 2(1) y3 s'(1) by simp
  moreover have "sched_inv s' (requeue y s w)" "waiting s' (requeue y s w) = waiting s v"
    using 3(2,3) same_kernel_inv[OF k3] same_kernel_inv[OF s'(2)] by simp_all
  moreover have Q: "off_lists (requeue y s w) j" "live (requeue y s w) = live v"
    "\<forall>k. queued (requeue y s w) k \<longleftrightarrow> (queued v k \<or> pcb = Some k \<or> yield_process s = Some k) \<and> k \<noteq> j"
  proof -
    note Y = requeue_facts[of y s w]
    show "live (requeue y s w) = live v" using Y(1) P(3) R(1) by simp
    show "off_lists (requeue y s w) j" using P(1,2) Y(1,2) by (auto simp: off_lists_def)
    show "\<forall>k. queued (requeue y s w) k \<longleftrightarrow> (queued v k \<or> pcb = Some k \<or> yield_process s = Some k) \<and> k \<noteq> j"
    proof
      fix k
      have keep: "pcb = Some k \<Longrightarrow> \<not> enqueue \<Longrightarrow> k = j" using assms(3) by (auto simp: pick_def)
      then show "queued (requeue y s w) k \<longleftrightarrow> (queued v k \<or> pcb = Some k \<or> yield_process s = Some k) \<and> k \<noteq> j"
        using Y(2) P(4,5) R(2) by (auto simp: caller_queue_def split: if_splits)
    qed
  qed
  ultimately show ?thesis using s' by blast
qed

lemma schedule_idle:
  assumes "sched_inv s v" "handover pcb s v"
    and "pick pcb enqueue (yield_process s) (requeue (caller_queue pcb enqueue) s v) = None"
  shows "schedule U pcb enqueue s =
    (if {i. live v i} = {} then Some (Exit HALT s)
     else if {i. blocked v i} \<noteq> {} then scheduler_wait U s
     else scheduler_panic ''Deadlock detected\<newline>'' s)"
proof -
  have n: "pcb = None" "v_hi v = []" "v_lo v = []" "yield_process s = None"
    using assms(3) by (cases pcb; auto simp: pick_def requeue_def caller_queue_def enqueue_view_queues
        split: if_splits list.splits option.splits)+
  then have "pick pcb enqueue (yield_process s) v = None" by (simp add: pick_def)
  from select_process_none[OF assms(1) this]
  have "schedule U pcb enqueue s = kbind (wait_or_die U s) (\<lambda>_ s. do {
       s \<leftarrow> (case yield_process s of None \<Rightarrow> Some s | Some y \<Rightarrow> do {
           s \<leftarrow> insert_proc_q (Some (process_queue y s)) (Some y) s;
           Some (s\<lparr>yield_process := None\<rparr>)
         });
       if active_process s \<noteq> None then scheduler_takeover U s else Some (Ret () s)
     })" using n(1) by (simp add: schedule_def)
  also have "\<dots> = wait_or_die U s"
    by (simp add: wait_or_die_def scheduler_wait_def scheduler_panic_def Let_def)
  also have "\<dots> = (if {i. live v i} = {} then Some (Exit HALT s)
     else if {i. blocked v i} \<noteq> {} then scheduler_wait U s
     else scheduler_panic ''Deadlock detected\<newline>'' s)"
  proof -
    note I = sched_invD[OF assms(1)]
    have z: "(of_nat n :: u32) = 0 \<longleftrightarrow> n = 0" if "n \<le> MAX_PROC" for n
      using that by (auto simp: word_of_nat_eq_0_iff dest: dvd_imp_le)
    have "process_count s = 0 \<longleftrightarrow> {i. live v i} = {}"
      using I(6) z[OF live_card] by simp
    moreover have "softblock_count s = 0 \<longleftrightarrow> {i. blocked v i} = {}"
      using I(7) z[OF blocked_card[OF I(1)]] blocked_finite[OF I(1)] by simp
    ultimately show ?thesis by (simp only: wait_or_die_def simp_thms)
  qed
  finally show ?thesis .
qed

end
