(* ===== verification/Semaphores.thy ===== *)
theory Semaphores
  imports Dispatch
begin

text \<open>
  The semaphore operations of \<^verbatim>\<open>os/src/semaphores.c\<close>. Semaphores are binary and symmetric: P blocks
  on 0 and V blocks on 1; either operation first releases a process that waits on the semaphore,
  and changes the value only if none does.

  The abstract specification is the pair of functions \<open>sem_P\<close> and \<open>sem_V\<close> on a value and a queue;
  the refinement lemmas say that P and V on the kernel state do that, and what else they change.
\<close>

section \<open>Operations\<close>

definition P :: "u32 \<Rightarrow> nat option \<Rightarrow> kstate \<Rightarrow> scheduler_control_t kres option" where
  "P sem_addr p s = (if sem_addr = 0 then Some (Ret (CONTROL_RESCHEDULE s) s)
     else case p of None \<Rightarrow> Some (Ret (CONTROL_RESCHEDULE s) s) | Some i \<Rightarrow> do {
       x \<leftarrow> load_word sem_addr s;
       if x = 0 then do {
         isnull \<leftarrow> list_null (Some (p_list i)) (lh s);
         s \<leftarrow> (if \<not> isnull then map_option snd (dequeue_process p s) else Some s);
         (r, s) \<leftarrow> insert_blocked sem_addr p s;
         if r > 0 then scheduler_panic ''PASSEREN failed %d\<newline>'' s
         else Some (Ret CONTROL_BLOCK (s\<lparr>softblock_count := softblock_count s + 1\<rparr>))
       } else do {
         (t, s) \<leftarrow> remove_blocked sem_addr s;
         if t \<noteq> None then do {
           s \<leftarrow> enqueue_process t s;
           let s = s\<lparr>softblock_count := softblock_count s - 1\<rparr>;
           Some (Ret (CONTROL_RESCHEDULE s) s)
         } else do {
           s \<leftarrow> store_word sem_addr (x - 1) s;
           Some (Ret (CONTROL_RESCHEDULE s) s)
         }
       }
     })"

definition V :: "u32 \<Rightarrow> kstate \<Rightarrow> nat option kres option" where
  "V sem_addr s = (if sem_addr = 0 then Some (Ret None s) else do {
     x \<leftarrow> load_word sem_addr s;
     if x = 1 then
       (case active_process s of None \<Rightarrow> Some (Ret None s) | Some i \<Rightarrow>
         if p_sem_add (pcb_table s i) = 0 then do {
           isnull \<leftarrow> list_null (Some (p_list i)) (lh s);
           s \<leftarrow> (if \<not> isnull then map_option snd (dequeue_process (active_process s) s) else Some s);
           let s = s\<lparr>softblock_count := softblock_count s + 1\<rparr>;
           (r, s) \<leftarrow> insert_blocked sem_addr (active_process s) s;
           if r > 0 then scheduler_panic ''VERHOGEN failed\<newline>'' s else Some (Ret None s)
         } else Some (Ret None s))
     else do {
       (p, s) \<leftarrow> remove_blocked sem_addr s;
       if p \<noteq> None then do {
         let s = s\<lparr>softblock_count := softblock_count s - 1\<rparr>;
         s \<leftarrow> enqueue_process p s;
         Some (Ret p s)
       } else do {
         s \<leftarrow> store_word sem_addr (x + 1) s;
         Some (Ret (active_process s) s)
       }
     }
   })"

section \<open>The abstract semaphore\<close>

datatype sem_out = Blocks | Wakes nat | Passes

definition sem_P :: "nat \<Rightarrow> u32 \<times> nat list \<Rightarrow> (u32 \<times> nat list) \<times> sem_out" where
  "sem_P i = (\<lambda>(x, q). if x = 0 then ((x, q @ [i]), Blocks)
     else case q of t # q' \<Rightarrow> ((x, q'), Wakes t) | [] \<Rightarrow> ((x - 1, []), Passes))"

definition sem_V :: "nat \<Rightarrow> u32 \<times> nat list \<Rightarrow> (u32 \<times> nat list) \<times> sem_out" where
  "sem_V i = (\<lambda>(x, q). if x = 1 then ((x, q @ [i]), Blocks)
     else case q of t # q' \<Rightarrow> ((x, q'), Wakes t) | [] \<Rightarrow> ((x + 1, []), Passes))"

text \<open>The process that a step wakes up goes to the end of its ready queue.\<close>

definition woken :: "sem_out \<Rightarrow> nat option" where
  "woken r = (case r of Wakes t \<Rightarrow> Some t | _ \<Rightarrow> None)"

text \<open>
  The kernel after a step on the semaphore \<open>k\<close>: its value and queue are those of the abstract
  semaphore, a woken process is ready, and nothing else has changed. The only process whose
  control block changes is the one that blocks or wakes, and of that only the semaphore it waits on.
\<close>

definition same_env :: "kstate \<Rightarrow> kstate \<Rightarrow> bool" where
  "same_env s s' \<longleftrightarrow> states s' = states s \<and> supports s' = supports s \<and> cp0_status s' = cp0_status s
   \<and> cp0_cause s' = cp0_cause s \<and> clock s' = clock s \<and> ticks s' = ticks s \<and> start_tod s' = start_tod s
   \<and> recycle_count s' = recycle_count s \<and> process_count s' = process_count s \<and> kstdout s' = kstdout s
   \<and> interval_timer s' = interval_timer s \<and> local_timer s' = local_timer s \<and> passupvector s' = passupvector s"

definition sem_effect ::
  "u32 \<Rightarrow> u32 \<times> nat list \<Rightarrow> sem_out \<Rightarrow> kstate \<Rightarrow> view \<Rightarrow> kstate \<Rightarrow> view \<Rightarrow> bool" where
  "sem_effect k xq r s v s' v' \<longleftrightarrow> sched_inv s' v'
   \<and> mem s' = (mem s)(k := fst xq) \<and> waiting s' v' = (waiting s v)(k := snd xq)
   \<and> v_lo v' = v_lo (requeue (woken r) s v) \<and> v_hi v' = v_hi (requeue (woken r) s v)
   \<and> v_free v' = v_free v \<and> v_child v' = v_child v
   \<and> (\<forall>i. (pcb_table s' i)\<lparr>p_sem_add := 0\<rparr> = (pcb_table s i)\<lparr>p_sem_add := 0\<rparr>)
   \<and> active_process s' = active_process s \<and> yield_process s' = yield_process s \<and> same_env s s'"

lemma same_env_updates [simp]:
  "same_env s s" "same_env s (upd_pcb i f t) = same_env s t" "same_env s (t\<lparr>lh := h\<rparr>) = same_env s t"
  "same_env s (t\<lparr>mem := m\<rparr>) = same_env s t" "same_env s (t\<lparr>semd_table := d\<rparr>) = same_env s t"
  "same_env s (t\<lparr>softblock_count := c\<rparr>) = same_env s t"
  by (simp_all add: same_env_def upd_pcb_def)

section \<open>Blocking and waking\<close>

lemma same_lists_inv:
  assumes "sched_inv s v" "asl_rel s' v'" "same_lists v v'"
    and "\<And>i. p_prio (pcb_table s' i) = p_prio (pcb_table s i) \<and> p_pid (pcb_table s' i) = p_pid (pcb_table s i)"
    and "kstdout s' = kstdout s" "process_count s' = process_count s"
    and "softblock_count s' = of_nat (card {i. blocked v' i})"
  shows "sched_inv s' v'"
proof -
  note I = sched_invD[OF assms(1)] and L = same_lists_live[OF assms(3)]
  have "tree_rel v' = tree_rel v" using L by (simp add: tree_rel_def)
  moreover have "pids_ok s' v'" using I(2) L assms(4) by (simp add: pids_ok_def)
  moreover have "prios_ok s' v'" using I(3) assms(3,4) by (simp add: prios_ok_def same_lists_def)
  ultimately show ?thesis using assms(2,5-7) I(4-6) L by (simp add: sched_inv_def)
qed

lemma blocked_upd:
  assumes "asl_rel s' v'" "waiting s' v' = (waiting s v)(k := xs)"
  shows "blocked v' i \<longleftrightarrow> i \<in> set xs \<or> (\<exists>l. l \<noteq> k \<and> i \<in> set (waiting s v l))"
proof -
  have "(\<exists>l. i \<in> set (((waiting s v)(k := xs)) l)) \<longleftrightarrow> i \<in> set xs \<or> (\<exists>l. l \<noteq> k \<and> i \<in> set (waiting s v l))"
    by (rule iffI, force split: if_splits, elim disjE exE) (auto intro: exI[of _ k])
  then show ?thesis unfolding blocked_waiting[OF assms(1)] assms(2) .
qed

lemma blocked_split:
  assumes "asl_rel s v"
  shows "blocked v i \<longleftrightarrow> i \<in> set (waiting s v k) \<or> (\<exists>l. l \<noteq> k \<and> i \<in> set (waiting s v l))"
  unfolding blocked_waiting[OF assms] by metis

text \<open>The counter may have been increased already when the process is put on the queue.\<close>

lemma block_inv:
  assumes "sched_inv s v" "off_lists v i" "k \<noteq> 0" "word_aligned k"
  shows "\<exists>h t v'. insert_blocked k (Some i) (s\<lparr>softblock_count := c\<rparr>)
      = Some (0, upd_pcb i (\<lambda>p. p\<lparr>p_sem_add := k\<rparr>) (s\<lparr>softblock_count := c, lh := h, semd_table := t\<rparr>))
    \<and> sched_inv (upd_pcb i (\<lambda>p. p\<lparr>p_sem_add := k\<rparr>)
        (s\<lparr>softblock_count := softblock_count s + 1, lh := h, semd_table := t\<rparr>)) v'
    \<and> waiting (upd_pcb i (\<lambda>p. p\<lparr>p_sem_add := k\<rparr>)
        (s\<lparr>softblock_count := softblock_count s + 1, lh := h, semd_table := t\<rparr>)) v'
      = (waiting s v)(k := waiting s v k @ [i])
    \<and> same_lists v v'"
proof -
  note I = sched_invD[OF assms(1)]
  let ?s0 = "s\<lparr>softblock_count := c\<rparr>"
  have A0: "asl_rel ?s0 v" "waiting ?s0 v = waiting s v"
    using asl_rel_cong[of ?s0 s v] I(1) by simp_all
  obtain h t v' where h: "insert_blocked k (Some i) ?s0
      = Some (0, upd_pcb i (\<lambda>p. p\<lparr>p_sem_add := k\<rparr>) (?s0\<lparr>lh := h, semd_table := t\<rparr>))"
    "asl_rel (upd_pcb i (\<lambda>p. p\<lparr>p_sem_add := k\<rparr>) (?s0\<lparr>lh := h, semd_table := t\<rparr>)) v'"
    "waiting (upd_pcb i (\<lambda>p. p\<lparr>p_sem_add := k\<rparr>) (?s0\<lparr>lh := h, semd_table := t\<rparr>)) v'
      = (waiting s v)(k := waiting s v k @ [i])" "same_lists v v'"
    using insert_blocked_rel[OF A0(1) _ _ assms(3,4), unfolded A0(2)] assms(2)
    unfolding off_lists_def by blast
  let ?s1 = "upd_pcb i (\<lambda>p. p\<lparr>p_sem_add := k\<rparr>) (?s0\<lparr>lh := h, semd_table := t\<rparr>)"
  let ?s = "upd_pcb i (\<lambda>p. p\<lparr>p_sem_add := k\<rparr>)
    (s\<lparr>softblock_count := softblock_count s + 1, lh := h, semd_table := t\<rparr>)"
  have A: "asl_rel ?s v' = asl_rel ?s1 v'" "waiting ?s v' = waiting ?s1 v'"
    using asl_rel_cong[of ?s ?s1 v'] by (simp_all add: upd_pcb_def)
  have nb: "\<not> blocked v i" using assms(2) by (auto simp: off_lists_def queued_def)
  have "blocked v' x \<longleftrightarrow> blocked v x \<or> x = i" for x
    unfolding blocked_upd[OF h(2,3)] blocked_split[OF I(1), of x k] by auto
  then have "{x. blocked v' x} = insert i {x. blocked v x}" by auto
  then have "softblock_count ?s = of_nat (card {x. blocked v' x})"
    using I(7) card_inc[OF blocked_finite[OF I(1)], of i] nb by simp
  then have "sched_inv ?s v'"
    by (intro same_lists_inv[OF assms(1) _ h(4)]) (use A(1) h(2) in auto)
  with h(1,3,4) A(2) show ?thesis by (intro exI[of _ h] exI[of _ t] exI[of _ v']) simp
qed

lemma wake_inv:
  assumes "sched_inv s v" "waiting s v k = i # q"
  shows "\<exists>h1 h v'. remove_blocked k s = Some (Some i, upd_pcb i (\<lambda>p. p\<lparr>p_sem_add := 0\<rparr>) (s\<lparr>lh := h1\<rparr>))
    \<and> (\<forall>x. enqueue_process (Some i) (upd_pcb i (\<lambda>p. p\<lparr>p_sem_add := 0\<rparr>) (s\<lparr>lh := h1\<rparr>)\<lparr>softblock_count := x\<rparr>)
        = Some (upd_pcb i (\<lambda>p. p\<lparr>p_sem_add := 0\<rparr>) (s\<lparr>lh := h\<rparr>)\<lparr>softblock_count := x\<rparr>))
    \<and> sched_inv (upd_pcb i (\<lambda>p. p\<lparr>p_sem_add := 0\<rparr>) (s\<lparr>lh := h\<rparr>)\<lparr>softblock_count := softblock_count s - 1\<rparr>) v'
    \<and> waiting (upd_pcb i (\<lambda>p. p\<lparr>p_sem_add := 0\<rparr>) (s\<lparr>lh := h\<rparr>)\<lparr>softblock_count := softblock_count s - 1\<rparr>) v'
      = (waiting s v)(k := q)
    \<and> v_lo v' = v_lo (enqueue_view i s v) \<and> v_hi v' = v_hi (enqueue_view i s v)
    \<and> v_free v' = v_free v \<and> v_child v' = v_child v"
proof -
  note I = sched_invD[OF assms(1)]
  obtain h1 v1 where h1: "remove_blocked k s = Some (Some i, upd_pcb i (\<lambda>p. p\<lparr>p_sem_add := 0\<rparr>) (s\<lparr>lh := h1\<rparr>))"
    "asl_rel (upd_pcb i (\<lambda>p. p\<lparr>p_sem_add := 0\<rparr>) (s\<lparr>lh := h1\<rparr>)) v1"
    "waiting (upd_pcb i (\<lambda>p. p\<lparr>p_sem_add := 0\<rparr>) (s\<lparr>lh := h1\<rparr>)) v1 = (waiting s v)(k := q)"
    "same_lists v v1"
    using remove_blocked_Cons[OF I(1) assms(2)] by blast
  let ?s1 = "upd_pcb i (\<lambda>p. p\<lparr>p_sem_add := 0\<rparr>) (s\<lparr>lh := h1\<rparr>)"
  have i: "blocked v i" using waiting_sem_add(1)[OF I(1), of i k] assms(2) by simp
  note il = blocked_live(1)[OF I(1) i]
  have "distinct (i # q)" using waiting_queue(1)[OF I(1), of k] assms(2) by simp
  then have bl: "blocked v1 x \<longleftrightarrow> blocked v x \<and> x \<noteq> i" for x
    unfolding blocked_upd[OF h1(2,3)] blocked_split[OF I(1), of x k]
    using assms(2) waiting_queue(2)[OF I(1), of i k] by auto
  have "\<not> queued v1 i" "i < MAX_PROC"
    using h1(4) i il bl ready_live(2)[OF I(8)] by (auto simp: queued_def same_lists_def live_def)
  then obtain h where h: "enqueue_process (Some i) ?s1 = Some (?s1\<lparr>lh := h\<rparr>)"
    "asl_rel (?s1\<lparr>lh := h\<rparr>) (enqueue_view i ?s1 v1)" "waiting (?s1\<lparr>lh := h\<rparr>) (enqueue_view i ?s1 v1) = (waiting s v)(k := q)"
    using enqueue_process_rel[OF h1(2)] h1(3) by auto
  let ?v = "enqueue_view i ?s1 v1"
  let ?s = "upd_pcb i (\<lambda>p. p\<lparr>p_sem_add := 0\<rparr>) (s\<lparr>lh := h\<rparr>)\<lparr>softblock_count := softblock_count s - 1\<rparr>"
  have E: "enqueue_process (Some i) (?s1\<lparr>softblock_count := x\<rparr>)
      = Some (upd_pcb i (\<lambda>p. p\<lparr>p_sem_add := 0\<rparr>) (s\<lparr>lh := h\<rparr>)\<lparr>softblock_count := x\<rparr>)" for x
  proof -
    have "enqueue_process (Some i) (?s1\<lparr>softblock_count := x\<rparr>) = Some (?s1\<lparr>softblock_count := x, lh := h\<rparr>)"
      using enqueue_process_frame[OF h(1)] by simp
    then show ?thesis by (simp add: upd_pcb_def)
  qed
  have A: "asl_rel ?s ?v" "waiting ?s ?v = (waiting s v)(k := q)"
    using asl_rel_cong[of ?s "?s1\<lparr>lh := h\<rparr>" ?v] h(2,3) by (simp_all add: upd_pcb_def)
  have V: "v_lo ?v = v_lo (enqueue_view i s v)" "v_hi ?v = v_hi (enqueue_view i s v)"
    "v_free ?v = v_free v" "v_child ?v = v_child v" "live ?v = live v" "tree_rel ?v = tree_rel v"
    using h1(4) same_lists_live[OF h1(4)] by (auto simp: enqueue_view_queues same_lists_def tree_rel_def)
  have "{x. blocked ?v x} = {x. blocked v x} - {i}" using bl by auto
  then have "softblock_count ?s = of_nat (card {x. blocked ?v x})"
    using I(7) card_dec[OF blocked_finite[OF I(1)], of i] i by simp
  moreover have "pids_ok ?s ?v" using I(2) V(5) by (simp add: pids_ok_def)
  moreover have "prios_ok ?s ?v"
    using I(3) V(1,2) by (auto simp: prios_ok_def enqueue_view_queues)
  ultimately have "sched_inv ?s ?v" using A(1) I(4-6) V(5,6) by (simp add: sched_inv_def)
  with h1(1) E A(2) V(1-4) show ?thesis by blast
qed

section \<open>P and V refine the abstract semaphore\<close>

lemma store_inv:
  assumes "sched_inv s v"
  shows "sched_inv (s\<lparr>mem := m\<rparr>) v" "waiting (s\<lparr>mem := m\<rparr>) v = waiting s v"
  using same_kernel_inv[of s "s\<lparr>mem := m\<rparr>" v] assms by (simp_all add: same_kernel_def)

lemma P_refines:
  assumes "sched_inv s v" "off_lists v i" "k \<noteq> 0" "word_aligned k"
    and "sem_P i (mem s k, waiting s v k) = (xq, r)"
  shows "\<exists>s' v'. P k (Some i) s
      = Some (Ret (if r = Blocks then CONTROL_BLOCK else CONTROL_RESCHEDULE s) s')
    \<and> sem_effect k xq r s v s' v'"
proof -
  note I = sched_invD[OF assms(1)]
  have x: "load_word k s = Some (mem s k)" using assms(3,4) by (simp add: load_word_def)
  have null: "list_null (Some (p_list i)) (lh s) = Some True"
    using nulled_iff[OF I(8), of i] assms(2) by (simp add: list_null_iff off_lists_def live_def)
  consider (block) "mem s k = 0" "xq = (0, waiting s v k @ [i])" "r = Blocks"
    | (wake) t q where "mem s k \<noteq> 0" "waiting s v k = t # q" "xq = (mem s k, q)" "r = Wakes t"
    | (pass) "mem s k \<noteq> 0" "waiting s v k = []" "xq = (mem s k - 1, [])" "r = Passes"
    using assms(5) by (auto simp: sem_P_def split: if_splits list.splits)
  then show ?thesis
  proof cases
    case block
    obtain h t v' where h: "insert_blocked k (Some i) (s\<lparr>softblock_count := softblock_count s\<rparr>)
        = Some (0, upd_pcb i (\<lambda>p. p\<lparr>p_sem_add := k\<rparr>)
            (s\<lparr>softblock_count := softblock_count s, lh := h, semd_table := t\<rparr>))"
      "sched_inv (upd_pcb i (\<lambda>p. p\<lparr>p_sem_add := k\<rparr>)
          (s\<lparr>softblock_count := softblock_count s + 1, lh := h, semd_table := t\<rparr>)) v'"
      "waiting (upd_pcb i (\<lambda>p. p\<lparr>p_sem_add := k\<rparr>)
          (s\<lparr>softblock_count := softblock_count s + 1, lh := h, semd_table := t\<rparr>)) v'
        = (waiting s v)(k := waiting s v k @ [i])" "same_lists v v'"
      using block_inv[OF assms(1-4)] by blast
    let ?s = "upd_pcb i (\<lambda>p. p\<lparr>p_sem_add := k\<rparr>)
          (s\<lparr>softblock_count := softblock_count s + 1, lh := h, semd_table := t\<rparr>)"
    have "P k (Some i) s = Some (Ret CONTROL_BLOCK ?s)"
      using x null h(1) block(1) assms(3) by (simp add: P_def upd_pcb_def)
    moreover have "sem_effect k xq r s v ?s v'"
      using h(2-4) block by (auto simp: sem_effect_def same_lists_def woken_def requeue_def)
    ultimately show ?thesis using block(3) by (intro exI[of _ ?s] exI[of _ v']) simp
  next
    case (wake t q)
    obtain h1 h v' where h: "remove_blocked k s = Some (Some t, upd_pcb t (\<lambda>p. p\<lparr>p_sem_add := 0\<rparr>) (s\<lparr>lh := h1\<rparr>))"
      "\<And>x. enqueue_process (Some t) (upd_pcb t (\<lambda>p. p\<lparr>p_sem_add := 0\<rparr>) (s\<lparr>lh := h1\<rparr>)\<lparr>softblock_count := x\<rparr>)
        = Some (upd_pcb t (\<lambda>p. p\<lparr>p_sem_add := 0\<rparr>) (s\<lparr>lh := h\<rparr>)\<lparr>softblock_count := x\<rparr>)"
      "sched_inv (upd_pcb t (\<lambda>p. p\<lparr>p_sem_add := 0\<rparr>) (s\<lparr>lh := h\<rparr>)\<lparr>softblock_count := softblock_count s - 1\<rparr>) v'"
      "waiting (upd_pcb t (\<lambda>p. p\<lparr>p_sem_add := 0\<rparr>) (s\<lparr>lh := h\<rparr>)\<lparr>softblock_count := softblock_count s - 1\<rparr>) v'
        = (waiting s v)(k := q)"
      "v_lo v' = v_lo (enqueue_view t s v)" "v_hi v' = v_hi (enqueue_view t s v)"
      "v_free v' = v_free v" "v_child v' = v_child v"
      using wake_inv[OF assms(1) wake(2)] by blast
    let ?s = "upd_pcb t (\<lambda>p. p\<lparr>p_sem_add := 0\<rparr>) (s\<lparr>lh := h\<rparr>)\<lparr>softblock_count := softblock_count s - 1\<rparr>"
    have "enqueue_process (Some t) (upd_pcb t (\<lambda>p. p\<lparr>p_sem_add := 0\<rparr>) (s\<lparr>lh := h1\<rparr>))
      = Some (upd_pcb t (\<lambda>p. p\<lparr>p_sem_add := 0\<rparr>) (s\<lparr>lh := h\<rparr>))"
      using h(2)[of "softblock_count s"] by (simp add: upd_pcb_def)
    then have "P k (Some i) s = Some (Ret (CONTROL_RESCHEDULE s) ?s)"
      using x h(1) wake(1) assms(3) by (simp add: P_def CONTROL_RESCHEDULE_def)
    moreover have "sem_effect k xq r s v ?s v'"
      using h(3-8) wake by (auto simp: sem_effect_def woken_def requeue_def)
    ultimately show ?thesis using wake(4) by (intro exI[of _ ?s] exI[of _ v']) simp
  next
    case pass
    let ?s = "s\<lparr>mem := (mem s)(k := mem s k - 1)\<rparr>"
    have "P k (Some i) s = Some (Ret (CONTROL_RESCHEDULE s) ?s)"
      using x pass remove_blocked_Nil[OF I(1), of k] assms(3,4)
      by (simp add: P_def store_word_def CONTROL_RESCHEDULE_def)
    moreover have "sem_effect k xq r s v ?s v"
      using store_inv[OF assms(1)] pass by (auto simp: sem_effect_def woken_def requeue_def)
    ultimately show ?thesis using pass(4) by (intro exI[of _ ?s] exI[of _ v]) simp
  qed
qed

text \<open>The branches of V that do not block, whoever is running.\<close>

lemma V_wake:
  assumes "sched_inv s v" "mem s k \<noteq> 1" "waiting s v k = t # q"
  shows "\<exists>s' v'. V k s = Some (Ret (Some t) s') \<and> sem_effect k (mem s k, q) (Wakes t) s v s' v'"
proof -
  note I = sched_invD[OF assms(1)]
  have k: "k \<noteq> 0" "word_aligned k" using waiting_sem_add(3,4)[OF I(1), of t k] assms(3) by auto
  then have x: "load_word k s = Some (mem s k)" by (simp add: load_word_def)
  obtain h1 h v' where h: "remove_blocked k s = Some (Some t, upd_pcb t (\<lambda>p. p\<lparr>p_sem_add := 0\<rparr>) (s\<lparr>lh := h1\<rparr>))"
    "\<And>x. enqueue_process (Some t) (upd_pcb t (\<lambda>p. p\<lparr>p_sem_add := 0\<rparr>) (s\<lparr>lh := h1\<rparr>)\<lparr>softblock_count := x\<rparr>)
      = Some (upd_pcb t (\<lambda>p. p\<lparr>p_sem_add := 0\<rparr>) (s\<lparr>lh := h\<rparr>)\<lparr>softblock_count := x\<rparr>)"
    "sched_inv (upd_pcb t (\<lambda>p. p\<lparr>p_sem_add := 0\<rparr>) (s\<lparr>lh := h\<rparr>)\<lparr>softblock_count := softblock_count s - 1\<rparr>) v'"
    "waiting (upd_pcb t (\<lambda>p. p\<lparr>p_sem_add := 0\<rparr>) (s\<lparr>lh := h\<rparr>)\<lparr>softblock_count := softblock_count s - 1\<rparr>) v'
      = (waiting s v)(k := q)"
    "v_lo v' = v_lo (enqueue_view t s v)" "v_hi v' = v_hi (enqueue_view t s v)"
    "v_free v' = v_free v" "v_child v' = v_child v"
    using wake_inv[OF assms(1,3)] by blast
  let ?s = "upd_pcb t (\<lambda>p. p\<lparr>p_sem_add := 0\<rparr>) (s\<lparr>lh := h\<rparr>)\<lparr>softblock_count := softblock_count s - 1\<rparr>"
  have "V k s = Some (Ret (Some t) ?s)" using x h(1,2) k assms(2) by (simp add: V_def)
  moreover have "sem_effect k (mem s k, q) (Wakes t) s v ?s v'"
    using h(3-8) by (auto simp: sem_effect_def woken_def requeue_def)
  ultimately show ?thesis by blast
qed

lemma V_pass:
  assumes "sched_inv s v" "mem s k \<noteq> 1" "waiting s v k = []" "k \<noteq> 0" "word_aligned k"
  shows "\<exists>s'. V k s = Some (Ret (active_process s) s') \<and> sem_effect k (mem s k + 1, []) Passes s v s' v"
proof -
  let ?s = "s\<lparr>mem := (mem s)(k := mem s k + 1)\<rparr>"
  have "V k s = Some (Ret (active_process s) ?s)"
    using remove_blocked_Nil[OF sched_invD(1)[OF assms(1)], of k] assms(2-5)
    by (simp add: V_def store_word_def load_word_def)
  moreover have "sem_effect k (mem s k + 1, []) Passes s v ?s v"
    using store_inv[OF assms(1)] assms(3) by (auto simp: sem_effect_def woken_def requeue_def)
  ultimately show ?thesis by blast
qed

lemma V_refines:
  assumes "sched_inv s v" "active_process s = Some i" "off_lists v i" "k \<noteq> 0" "word_aligned k"
    and "sem_V i (mem s k, waiting s v k) = (xq, r)"
  shows "\<exists>s' v'. V k s
      = Some (Ret (case r of Blocks \<Rightarrow> None | Wakes t \<Rightarrow> Some t | Passes \<Rightarrow> active_process s) s')
    \<and> sem_effect k xq r s v s' v'"
proof -
  note I = sched_invD[OF assms(1)]
  consider (block) "mem s k = 1" "xq = (1, waiting s v k @ [i])" "r = Blocks"
    | (wake) t q where "mem s k \<noteq> 1" "waiting s v k = t # q" "xq = (mem s k, q)" "r = Wakes t"
    | (pass) "mem s k \<noteq> 1" "waiting s v k = []" "xq = (mem s k + 1, [])" "r = Passes"
    using assms(6) by (auto simp: sem_V_def split: if_splits list.splits)
  then show ?thesis
  proof cases
    case block
    have null: "list_null (Some (p_list i)) (lh s) = Some True"
      using nulled_iff[OF I(8), of i] assms(3) by (simp add: list_null_iff off_lists_def live_def)
    have "p_sem_add (pcb_table s i) = 0"
      using not_blocked_sem_add[OF I(1)] assms(3) by (auto simp: off_lists_def queued_def)
    obtain h t v' where h: "insert_blocked k (Some i) (s\<lparr>softblock_count := softblock_count s + 1\<rparr>)
        = Some (0, upd_pcb i (\<lambda>p. p\<lparr>p_sem_add := k\<rparr>)
            (s\<lparr>softblock_count := softblock_count s + 1, lh := h, semd_table := t\<rparr>))"
      "sched_inv (upd_pcb i (\<lambda>p. p\<lparr>p_sem_add := k\<rparr>)
          (s\<lparr>softblock_count := softblock_count s + 1, lh := h, semd_table := t\<rparr>)) v'"
      "waiting (upd_pcb i (\<lambda>p. p\<lparr>p_sem_add := k\<rparr>)
          (s\<lparr>softblock_count := softblock_count s + 1, lh := h, semd_table := t\<rparr>)) v'
        = (waiting s v)(k := waiting s v k @ [i])" "same_lists v v'"
      using block_inv[OF assms(1,3-5)] by blast
    let ?s = "upd_pcb i (\<lambda>p. p\<lparr>p_sem_add := k\<rparr>)
          (s\<lparr>softblock_count := softblock_count s + 1, lh := h, semd_table := t\<rparr>)"
    have "V k s = Some (Ret None ?s)"
      using h(1) null block(1) assms(2,4,5) \<open>p_sem_add (pcb_table s i) = 0\<close>
      by (simp add: V_def load_word_def)
    moreover have "sem_effect k xq r s v ?s v'"
      using h(2-4) block by (auto simp: sem_effect_def same_lists_def woken_def requeue_def)
    ultimately show ?thesis using block(3) by (intro exI[of _ ?s] exI[of _ v']) simp
  next
    case (wake t q)
    then show ?thesis using V_wake[OF assms(1) wake(1,2)] by auto
  next
    case pass
    then show ?thesis using V_pass[OF assms(1) pass(1,2) assms(4,5)] by auto
  qed
qed

end
