(* ===== verification/Syscall.thy ===== *)
theory Syscall
  imports Semaphores
begin

text \<open>
  Pass up or die, \<^verbatim>\<open>os/src/puod.c\<close>, and the system calls of the nucleus, \<^verbatim>\<open>os/src/syscall.c\<close>: one
  definition per call, and the handler that dispatches on the call number in register a0. Each
  returns what the scheduler is to do next, or leaves the nucleus.
\<close>

section \<open>Registers of a process\<close>

definition get_reg :: "nat \<Rightarrow> reg \<Rightarrow> kstate \<Rightarrow> u32" where
  "get_reg i r s = gpr (p_s (pcb_table s i)) r"

definition set_reg :: "nat \<Rightarrow> reg \<Rightarrow> u32 \<Rightarrow> kstate \<Rightarrow> kstate" where
  "set_reg i r x s = upd_pcb i (\<lambda>p. p\<lparr>p_s := (p_s p)\<lparr>gpr := (gpr (p_s p))(r := x)\<rparr>\<rparr>) s"

section \<open>Pass up or die\<close>

definition pass_up_or_die :: "nat \<Rightarrow> kstate \<Rightarrow> scheduler_control_t kres option" where
  "pass_up_or_die type s = (case active_process s of
     None \<Rightarrow> Some (Ret CONTROL_BLOCK s)
   | Some i \<Rightarrow>
       let sup = p_support (pcb_table s i) in
       if sup \<noteq> 0 then
         let S = supports s sup;
             S = S\<lparr>sup_except_state := (sup_except_state S)(type := states s BIOSDATAPAGE)\<rparr>;
             s = s\<lparr>supports := (supports s)(sup := S)\<rparr>
         in Some (Exit (LDCXT (sup_except_context S type)) s)
       else do {
         (_, s) \<leftarrow> kill_progeny (active_process s) s;
         Some (Ret CONTROL_BLOCK s)
       })"

section \<open>System calls\<close>

definition syscall_create_process :: "umps \<Rightarrow> nat \<Rightarrow> kstate \<Rightarrow> scheduler_control_t kres option" where
  "syscall_create_process U a s = (
     let p_s = get_reg a reg_a1 s; p_prio = get_reg a reg_a2 s; p_support_struct = get_reg a reg_a3 s in
     if (p_prio \<noteq> PROCESS_PRIO_LOW \<and> p_prio \<noteq> PROCESS_PRIO_HIGH) \<or> p_s = 0
     then pass_up_or_die GENERALEXCEPT s
     else do {
       (c, s) \<leftarrow> spawn_process U p_prio s;
       s \<leftarrow> (case c of None \<Rightarrow> Some (set_reg a reg_v0 NULL_PID s)
         | Some c \<Rightarrow> do {
             let s = upd_pcb c (\<lambda>p. p\<lparr>p_support := p_support_struct\<rparr>) s;
             let s = upd_pcb c (\<lambda>p. p\<lparr>p_s := states s p_s\<rparr>) s;
             s \<leftarrow> insert_child (Some a) (Some c) s;
             Some (set_reg a reg_v0 (p_pid (pcb_table s c)) s)
           });
       Some (Ret (CONTROL_PRESERVE (active_process s)) s)
     })"

definition syscall_terminate_process :: "nat \<Rightarrow> kstate \<Rightarrow> scheduler_control_t kres option" where
  "syscall_terminate_process a s = (
     let pid = get_reg a reg_a1 s in
     if pid = 0 then pass_up_or_die GENERALEXCEPT s
     else case (if pid = 0 then active_process s else find_process pid s) of
       None \<Rightarrow> pass_up_or_die GENERALEXCEPT s
     | Some p \<Rightarrow> do {
         (r, s) \<leftarrow> kill_progeny (Some p) s;
         if r \<noteq> 0 then scheduler_panic ''Kill progeny failed!'' s
         else Some (Ret (if pid = 0 \<or> p_pid (pcb_table s a) = NULL_PID
                then CONTROL_BLOCK else CONTROL_RESCHEDULE s) s)
       })"

definition syscall_passeren :: "nat \<Rightarrow> kstate \<Rightarrow> scheduler_control_t kres option" where
  "syscall_passeren a s = (if get_reg a reg_a1 s = 0 then pass_up_or_die GENERALEXCEPT s
     else P (get_reg a reg_a1 s) (active_process s) s)"

definition syscall_verhogen :: "nat \<Rightarrow> kstate \<Rightarrow> scheduler_control_t kres option" where
  "syscall_verhogen a s = (if get_reg a reg_a1 s = 0 then pass_up_or_die GENERALEXCEPT s
     else kbind (V (get_reg a reg_a1 s) s) (\<lambda>p s.
       Some (Ret (if p = None then CONTROL_BLOCK else CONTROL_RESCHEDULE s) s)))"

definition syscall_do_io :: "umps \<Rightarrow> nat \<Rightarrow> kstate \<Rightarrow> scheduler_control_t kres option" where
  "syscall_do_io U a s = (
     let cmd_addr = get_reg a reg_a1 s; cmd_value = get_reg a reg_a2 s in
     if cmd_addr = 0 then pass_up_or_die GENERALEXCEPT s
     else kbind (get_iodev U cmd_addr s) (\<lambda>dev s.
       if semaphore dev = 0 then pass_up_or_die GENERALEXCEPT s
       else do {
         first \<leftarrow> head_blocked (semaphore dev) s;
         if first \<noteq> None then pass_up_or_die GENERALEXCEPT s
         else do {
           x \<leftarrow> load_word (semaphore dev) s;
           if sint x > 0 then scheduler_panic ''A device syncronization semaphore has a value > 0'' s
           else kbind (P (semaphore dev) (active_process s) s) (\<lambda>ctrl s. do {
             let s = (if p_prio (pcb_table s a) \<noteq> 0
               then upd_pcb a (\<lambda>p. p\<lparr>p_s := (p_s p)\<lparr>status :=
                 status_il_on U (nat (interrupt_line dev)) (status (p_s p))\<rparr>\<rparr>) s
               else upd_pcb a (\<lambda>p. p\<lparr>p_s := (p_s p)\<lparr>status :=
                 status_il_on_all U (status (p_s p))\<rparr>\<rparr>) s);
             s \<leftarrow> store_word cmd_addr cmd_value s;
             Some (Ret ctrl s)
           })
         }
       }))"

definition syscall_get_cpu_time :: "nat \<Rightarrow> kstate \<Rightarrow> scheduler_control_t kres option" where
  "syscall_get_cpu_time a s = (let s = set_reg a reg_v0 (p_time (pcb_table s a)) s
     in Some (Ret (CONTROL_RESCHEDULE s) s))"

definition syscall_wait_for_clock :: "umps \<Rightarrow> kstate \<Rightarrow> scheduler_control_t kres option" where
  "syscall_wait_for_clock U s = P (get_timer_semaphore U) (active_process s) s"

definition syscall_get_support_data :: "nat \<Rightarrow> kstate \<Rightarrow> scheduler_control_t kres option" where
  "syscall_get_support_data a s = (let s = set_reg a reg_v0 (p_support (pcb_table s a)) s
     in Some (Ret (CONTROL_RESCHEDULE s) s))"

definition syscall_get_process_id :: "nat \<Rightarrow> kstate \<Rightarrow> scheduler_control_t kres option" where
  "syscall_get_process_id a s = (
     let parent = get_reg a reg_a1 s in
     if parent \<noteq> 0 \<and> parent \<noteq> 1 then pass_up_or_die GENERALEXCEPT s
     else
       let v0 = (if parent = 0 then p_pid (pcb_table s a)
                 else case p_parent (pcb_table s a) of
                     Some q \<Rightarrow> p_pid (pcb_table s q)
                   | None \<Rightarrow> 0);
           s = set_reg a reg_v0 v0 s
       in Some (Ret (CONTROL_RESCHEDULE s) s))"

definition syscall_yield :: "kstate \<Rightarrow> scheduler_control_t kres option" where
  "syscall_yield s = Some (Ret CONTROL_BLOCK (s\<lparr>yield_process := active_process s\<rparr>))"

text \<open>The numbers of the calls, negative \<^verbatim>\<open>int\<close> values.\<close>

abbreviation (input) CREATEPROCESS :: int where "CREATEPROCESS \<equiv> - 1"
abbreviation (input) TERMPROCESS :: int where "TERMPROCESS \<equiv> - 2"
abbreviation (input) PASSEREN :: int where "PASSEREN \<equiv> - 3"
abbreviation (input) VERHOGEN :: int where "VERHOGEN \<equiv> - 4"
abbreviation (input) DOIO :: int where "DOIO \<equiv> - 5"
abbreviation (input) GETTIME :: int where "GETTIME \<equiv> - 6"
abbreviation (input) CLOCKWAIT :: int where "CLOCKWAIT \<equiv> - 7"
abbreviation (input) GETSUPPORTPTR :: int where "GETSUPPORTPTR \<equiv> - 8"
abbreviation (input) GETPROCESSID :: int where "GETPROCESSID \<equiv> - 9"
abbreviation (input) YIELD :: int where "YIELD \<equiv> - 10"

definition syscall_handler :: "umps \<Rightarrow> kstate \<Rightarrow> scheduler_control_t kres option" where
  "syscall_handler U s = (case active_process s of
     None \<Rightarrow> scheduler_panic ''Syscall recieved while active_process was NULL'' s
   | Some a \<Rightarrow> do {
       let ident = sint (get_reg a reg_a0 s);
       user \<leftarrow> is_user_mode s;
       if ident \<le> 0 \<and> user \<noteq> 0 then do {
         let s = upd_pcb a (\<lambda>p. p\<lparr>p_s := (p_s p)\<lparr>cause := cause_clean (cause (p_s p))\<rparr>\<rparr>) s;
         let s = upd_pcb a (\<lambda>p. p\<lparr>p_s := (p_s p)\<lparr>cause :=
           cause_reserved_instruction U (cause (p_s p))\<rparr>\<rparr>) s;
         pass_up_or_die GENERALEXCEPT s
       }
       else if ident = CREATEPROCESS then syscall_create_process U a s
       else if ident = TERMPROCESS then syscall_terminate_process a s
       else if ident = PASSEREN then syscall_passeren a s
       else if ident = VERHOGEN then syscall_verhogen a s
       else if ident = DOIO then syscall_do_io U a s
       else if ident = GETTIME then syscall_get_cpu_time a s
       else if ident = CLOCKWAIT then syscall_wait_for_clock U s
       else if ident = GETSUPPORTPTR then syscall_get_support_data a s
       else if ident = GETPROCESSID then syscall_get_process_id a s
       else if ident = YIELD then syscall_yield s
       else do {
         s \<leftarrow> pandos_kprintf ''-----syscall not handled %d\<newline>'' [ArgInt (get_reg a reg_a0 s)] s;
         pass_up_or_die GENERALEXCEPT s
       }
     })"

section \<open>Creating a child\<close>

text \<open>A new process becomes the last child of its creator; the tree stays without cycles.\<close>

lemma insert_child_inv:
  assumes "sched_inv s v" "live v q" "live v i" "v_child v i = []" "i \<noteq> q" "\<And>r. \<not> child_of v i r"
  shows "\<exists>h. insert_child (Some q) (Some i) s
      = Some (upd_pcb i (\<lambda>p. p\<lparr>p_parent := Some q\<rparr>) (s\<lparr>lh := h\<rparr>))
    \<and> sched_inv (upd_pcb i (\<lambda>p. p\<lparr>p_parent := Some q\<rparr>) (s\<lparr>lh := h\<rparr>)) (set_child q (v_child v q @ [i]) v)
    \<and> waiting (upd_pcb i (\<lambda>p. p\<lparr>p_parent := Some q\<rparr>) (s\<lparr>lh := h\<rparr>)) (set_child q (v_child v q @ [i]) v)
      = waiting s v"
proof -
  note I = sched_invD[OF assms(1)]
  let ?v = "set_child q (v_child v q @ [i]) v"
  obtain h where h: "insert_child (Some q) (Some i) s
      = Some (upd_pcb i (\<lambda>p. p\<lparr>p_parent := Some q\<rparr>) (s\<lparr>lh := h\<rparr>))"
    "pcb_rel (upd_pcb i (\<lambda>p. p\<lparr>p_parent := Some q\<rparr>) (s\<lparr>lh := h\<rparr>)) ?v"
    using insert_child_rel[OF I(8) assms(2,3,6)] by blast
  let ?s = "upd_pcb i (\<lambda>p. p\<lparr>p_parent := Some q\<rparr>) (s\<lparr>lh := h\<rparr>)"
  have A: "asl_rel ?s ?v" "blocked ?v = blocked v" "waiting ?s ?v = waiting s v"
    by (rule asl_rel_transfer[OF I(1) h(2)]; auto simp: set_child_def split: if_splits)+
  have F: "live ?v = live v" by (rule set_child_facts(1))
  have T: "tree_rel ?v = insert (i, q) (tree_rel v)"
    using set_child_facts(3)[OF assms(2)] assms(2) by (auto simp: tree_rel_def child_of_def split: if_splits)
  have "(q, i) \<notin> (tree_rel v)\<^sup>*"
    using assms(4,5) by (auto elim: rtranclE simp: tree_rel_def child_of_def)
  then have "acyclic (tree_rel ?v)" using I(4) T by (simp add: acyclic_insert)
  moreover have "pids_ok ?s ?v" using I(2) F by (simp add: pids_ok_def)
  moreover have "prios_ok ?s ?v" using I(3) by (simp add: prios_ok_def set_child_def)
  ultimately have "sched_inv ?s ?v" using A I(5-7) F by (simp add: sched_inv_def)
  with h(1) A(3) show ?thesis by blast
qed

end
