(* ===== verification/Exception.thy ===== *)
theory Exception
  imports Syscall
begin

text \<open>
  The exception handler of \<^verbatim>\<open>phase2/src/exception.c\<close>: interrupts by line, TLB and program traps,
  system calls. Device registers are words of \<open>mem\<close> at the addresses the emulator's headers give (\<open>devreg\<close>, \<open>CDEV_BITMAP_ADDR\<close>).
\<close>

section \<open>Interrupts\<close>

abbreviation (input) DEV_C_ACK :: u32 where "DEV_C_ACK \<equiv> 1"
abbreviation (input) TERMSTATMASK :: u32 where "TERMSTATMASK \<equiv> 0xFF"
abbreviation (input) DEV_STATUS_NOTINSTALLED :: u32 where "DEV_STATUS_NOTINSTALLED \<equiv> 0"
abbreviation (input) DEV_STATUS_TERMINAL_OK :: u32 where "DEV_STATUS_TERMINAL_OK \<equiv> 5"

function device_loop :: "nat \<Rightarrow> u32 \<Rightarrow> nat \<Rightarrow> nat" where
  "device_loop limit val device_n =
     (if val > 1 \<and> device_n < limit then device_loop limit (drop_bit 1 val) (device_n + 1) else device_n)"
  by auto
termination
  by (relation "measure (\<lambda>(limit, val, device_n). limit - device_n)") auto

declare device_loop.simps [simp del]

definition find_device_number :: "umps \<Rightarrow> u32 \<Rightarrow> kstate \<Rightarrow> nat option" where
  "find_device_number U bitmap s = do {
     val \<leftarrow> load_word bitmap s;
     Some (device_loop (N_DEV_PER_IL U) val 0)
   }"

definition interrupt_ipi :: "kstate \<Rightarrow> scheduler_control_t kres option" where
  "interrupt_ipi s = Some (Ret (CONTROL_PRESERVE (active_process s)) s)"

definition interrupt_local_timer :: "kstate \<Rightarrow> scheduler_control_t kres option" where
  "interrupt_local_timer s = (let s = reset_local_timer s in Some (Ret (CONTROL_RESCHEDULE s) s))"

partial_function (option) timer_loop :: "umps \<Rightarrow> kstate \<Rightarrow> unit kres option" where
  "timer_loop U s = do {
     x \<leftarrow> load_word (get_timer_semaphore U) s;
     if x = 1 then Some (Ret () s)
     else do {
       r \<leftarrow> V (get_timer_semaphore U) s;
       (case r of Exit e s \<Rightarrow> Some (Exit e s) | Ret _ s \<Rightarrow> timer_loop U s)
     }
   }"

definition interrupt_timer :: "umps \<Rightarrow> kstate \<Rightarrow> scheduler_control_t kres option" where
  "interrupt_timer U s = kbind (timer_loop U (reset_timer s)) (\<lambda>_ s.
     Some (Ret (CONTROL_PRESERVE (active_process s)) s))"

definition return_status :: "nat option \<Rightarrow> u32 \<Rightarrow> kstate \<Rightarrow> scheduler_control_t kres option" where
  "return_status p stat s =
     (if p = active_process s then
        (case active_process s of
           None \<Rightarrow> scheduler_panic ''No active process (Interrupt Generic)\<newline>'' s
         | Some a \<Rightarrow> let s = set_reg a reg_v0 stat s in Some (Ret (CONTROL_RESCHEDULE s) s))
      else case p of None \<Rightarrow> None
        | Some i \<Rightarrow> let s = set_reg i reg_v0 stat s in Some (Ret (CONTROL_PRESERVE (active_process s)) s))"

definition interrupt_generic :: "umps \<Rightarrow> u32 \<Rightarrow> kstate \<Rightarrow> scheduler_control_t kres option" where
  "interrupt_generic U cau s = (
     let il = (case find (\<lambda>i. cau AND CAUSE_IP U i \<noteq> 0) [IL_DISK U..<IL_PRINTER U + 1] of
                 None \<Rightarrow> IL_DISK U | Some i \<Rightarrow> i) in do {
     devicenumber \<leftarrow> find_device_number U (CDEV_BITMAP_ADDR U il) s;
     kbind (get_semaphore U (int il) (int devicenumber) False s) (\<lambda>sem s. do {
       let dtp_reg = devreg U (il - DEV_IL_START U) devicenumber;
       stat \<leftarrow> load_word (dtp_reg + RECV_STATUS) s;
       if stat AND TERMSTATMASK = DEV_STATUS_NOTINSTALLED
       then scheduler_panic ''Device is not installed!\<newline>'' s
       else kbind (V sem s) (\<lambda>p s.
         kbind (return_status p stat s) (\<lambda>ctrl s. do {
           s \<leftarrow> store_word (dtp_reg + RECV_COMMAND) DEV_C_ACK s;
           Some (Ret ctrl s)
         }))
     })
   })"

text \<open>
  The two halves of a terminal, as the loop visits them: the status read before the loop, the
  address of the command register, and the semaphore.
\<close>

fun terminal_loop :: "(u32 \<times> u32 \<times> u32) list \<Rightarrow> kstate \<Rightarrow> scheduler_control_t kres option" where
  "terminal_loop [] s = scheduler_panic ''Unexpected interrupt from terminal device %d\<newline>'' s"
| "terminal_loop ((stat, cmd, sem) # halves) s =
     (if stat AND TERMSTATMASK = DEV_STATUS_NOTINSTALLED
      then scheduler_panic ''Device is not installed!\<newline>'' s
      else if stat AND TERMSTATMASK = DEV_STATUS_TERMINAL_OK then
        kbind (V sem s) (\<lambda>p s.
          kbind (if p = None \<or> p = active_process s then
              (case active_process s of
                 None \<Rightarrow> scheduler_panic ''No active process (Interrupt Terminal)\<newline>'' s
               | Some a \<Rightarrow> let s = set_reg a reg_v0 stat s in Some (Ret (CONTROL_RESCHEDULE s) s))
            else case p of None \<Rightarrow> None
              | Some i \<Rightarrow> let s = set_reg i reg_v0 stat s in Some (Ret (CONTROL_PRESERVE (active_process s)) s))
            (\<lambda>ctrl s. do {
              s \<leftarrow> store_word cmd DEV_C_ACK s;
              Some (Ret ctrl s)
            }))
      else terminal_loop halves s)"

definition interrupt_terminal :: "umps \<Rightarrow> kstate \<Rightarrow> scheduler_control_t kres option" where
  "interrupt_terminal U s = do {
     devicenumber \<leftarrow> find_device_number U (CDEV_BITMAP_ADDR U (IL_TERMINAL U)) s;
     let term_reg = devreg U (IL_TERMINAL U - IL_DISK U) devicenumber;
     transm \<leftarrow> load_word (term_reg + TRANSM_STATUS) s;
     recv \<leftarrow> load_word (term_reg + RECV_STATUS) s;
     kbind (get_semaphore U (int (IL_TERMINAL U)) (int devicenumber) True s) (\<lambda>sem0 s.
     kbind (get_semaphore U (int (IL_TERMINAL U)) (int devicenumber) False s) (\<lambda>sem1 s.
       terminal_loop [(transm, term_reg + TRANSM_COMMAND, sem0), (recv, term_reg + RECV_COMMAND, sem1)] s))
   }"

definition interrupt_handler :: "umps \<Rightarrow> u32 \<Rightarrow> kstate \<Rightarrow> scheduler_control_t kres option" where
  "interrupt_handler U cau s =
     (if cau AND CAUSE_IP U (IL_IPI U) \<noteq> 0 then interrupt_ipi s
      else if cau AND CAUSE_IP U (IL_CPUTIMER U) \<noteq> 0 then interrupt_local_timer s
      else if cau AND CAUSE_IP U (IL_TIMER U) \<noteq> 0 then interrupt_timer U s
      else if cau AND (CAUSE_IP U (IL_DISK U) OR CAUSE_IP U (IL_FLASH U)
                OR CAUSE_IP U (IL_ETHERNET U) OR CAUSE_IP U (IL_PRINTER U)) \<noteq> 0
        then interrupt_generic U cau s
      else if cau AND CAUSE_IP U (IL_TERMINAL U) \<noteq> 0 then interrupt_terminal U s
      else Some (Ret (CONTROL_RESCHEDULE s) s))"

section \<open>The exception handler\<close>

text \<open>Charging the running process for the time since a given moment.\<close>

definition charge :: "nat \<Rightarrow> kstate \<Rightarrow> kstate" where
  "charge a s = (let (now_tod, s) = store_tod s
     in upd_pcb a (\<lambda>p. p\<lparr>p_time := p_time p + (now_tod - start_tod s)\<rparr>) s)"

definition after_syscall :: "umps \<Rightarrow> nat \<Rightarrow> kstate \<Rightarrow> kstate" where
  "after_syscall U a s = upd_pcb a (\<lambda>p. p\<lparr>p_s := (p_s p)\<lparr>pc_epc := pc_epc (p_s p) + WORD_SIZE U,
       gpr := (gpr (p_s p))(reg_t9 := gpr (p_s p) reg_t9 + WORD_SIZE U)\<rparr>\<rparr>) (charge a s)"

definition handle_exception :: "umps \<Rightarrow> kstate \<Rightarrow> scheduler_control_t kres option" where
  "handle_exception U s = (
     let code = CAUSE_GET_EXCCODE U (cp0_cause s) in
     if code = 0 then interrupt_handler U (cp0_cause s) s
     else if code = 1 \<or> code = 2 \<or> code = 3 then pass_up_or_die PGFAULTEXCEPT s
     else if code = 8 then
       (case active_process s of
          None \<Rightarrow> scheduler_panic ''A syscall happened while active_process was NULL\<newline>'' s
        | Some a \<Rightarrow>
            let (tod, s) = store_tod s in
            kbind (syscall_handler U (s\<lparr>start_tod := tod\<rparr>)) (\<lambda>ctrl s.
              (case active_process s of None \<Rightarrow> None
               | Some a \<Rightarrow> Some (Ret ctrl (after_syscall U a s)))))
     else do {
       s \<leftarrow> pandos_kprintf ''EXCP %d\<newline>'' [ArgInt (code + 1)] s;
       pass_up_or_die GENERALEXCEPT s
     })"

definition exception_handler :: "umps \<Rightarrow> kstate \<Rightarrow> unit kres option" where
  "exception_handler U s = (
     let s = (case active_process s of None \<Rightarrow> s | Some a \<Rightarrow> charge a s);
         s = (case active_process s of None \<Rightarrow> s
              | Some a \<Rightarrow> upd_pcb a (\<lambda>p. p\<lparr>p_s := states s BIOSDATAPAGE\<rparr>) s)
     in kbind (handle_exception U s) (\<lambda>ctrl s. schedule U (ctrl_pcb ctrl) (ctrl_enqueue ctrl) s))"

end
