(* ===== verification/Init.thy ===== *)
theory Init
  imports Exception
begin

text \<open>
  The start of the kernel: \<^verbatim>\<open>os/src/init.c\<close> and \<^verbatim>\<open>phase2/src/main.c\<close>. The machine starts with its static
  variables zeroed; the lemmas show that initialisation establishes the invariant of the nucleus
  and that \<^verbatim>\<open>main\<close> dispatches the first process.
\<close>

section \<open>Operations\<close>

text \<open>\<^verbatim>\<open>RAMTOP\<close>: the sum of two bus registers. The first process is spawned from a fresh table.\<close>

definition init_process :: "umps \<Rightarrow> u32 \<Rightarrow> kstate \<Rightarrow> kstate option" where
  "init_process U init_pc s = do {
     (p, s) \<leftarrow> spawn_process U 0 s;
     i \<leftarrow> p;
     base \<leftarrow> load_word RAMBASEADDR s;
     size \<leftarrow> load_word RAMBASESIZE s;
     let s = set_reg i reg_sp (base + size) s;
     let s = upd_pcb i (\<lambda>p. p\<lparr>p_s := (p_s p)\<lparr>pc_epc := init_pc,
       gpr := (gpr (p_s p))(reg_t9 := init_pc)\<rparr>\<rparr>) s;
     let s = upd_pcb i (\<lambda>p. p\<lparr>p_s := (p_s p)\<lparr>status := status_interrupts_on_process U (status (p_s p))\<rparr>\<rparr>) s;
     Some (upd_pcb i (\<lambda>p. p\<lparr>p_s := (p_s p)\<lparr>status := status_kernel_mode_on_nucleus U (status (p_s p))\<rparr>\<rparr>) s)
   }"

definition init :: "umps \<Rightarrow> u32 \<Rightarrow> u32 \<Rightarrow> u32 \<Rightarrow> kstate \<Rightarrow> kstate option" where
  "init U tlb_refill_handler exc_handler init_pc s = do {
     let s = init_puv tlb_refill_handler exc_handler s;
     s \<leftarrow> init_scheduler s;
     s \<leftarrow> init_semaphores U s;
     s \<leftarrow> init_pcbs s;
     s \<leftarrow> init_asl s;
     let s = reset_timer s;
     let s = reset_local_timer s;
     init_process U init_pc s
   }"

definition main :: "umps \<Rightarrow> u32 \<Rightarrow> u32 \<Rightarrow> u32 \<Rightarrow> kstate \<Rightarrow> unit kres option" where
  "main U tlb_refill_handler exc_handler test s = do {
     s \<leftarrow> init U tlb_refill_handler exc_handler test s;
     schedule U None False s
   }"

section \<open>The initial view\<close>

text \<open>Zeroed static memory: no list head has been initialised, and the log is empty.\<close>

definition bss :: "kstate \<Rightarrow> bool" where
  "bss s \<longleftrightarrow> (\<forall>n. nulled (lh s) n) \<and> log_ok (kstdout s)"

definition view0 :: view where
  "view0 = \<lparr>v_free = rev [0..<MAX_PROC], v_lo = [], v_hi = [], v_sfree = rev [0..<MAX_PROC],
     v_sact = [], v_procq = (\<lambda>_. []), v_child = (\<lambda>_. [])\<rparr>"

lemma view0_facts:
  "\<not> live view0 i" "\<not> blocked view0 i" "\<not> child_of view0 i q" "queued view0 i \<longleftrightarrow> i < MAX_PROC"
  "waiting s view0 k = []"
  by (auto simp: view0_def live_def blocked_def child_of_def queued_def waiting_def simp del: upt_rec_numeral)

lemma rings_of_view0:
  "rings_of view0 = [ready_queue_hi \<mapsto> [], ready_queue_lo \<mapsto> [],
     pcb_free \<mapsto> map p_list (rev [0..<MAX_PROC]), semd_h \<mapsto> [], semd_free \<mapsto> map s_link (rev [0..<MAX_PROC])]"
proof
  fix n
  show "rings_of view0 n = [ready_queue_hi \<mapsto> [], ready_queue_lo \<mapsto> [],
     pcb_free \<mapsto> map p_list (rev [0..<MAX_PROC]), semd_h \<mapsto> [], semd_free \<mapsto> map s_link (rev [0..<MAX_PROC])] n"
    using view0_facts(1) by (cases n) (simp_all add: view0_def del: upt_rec_numeral)
qed

lemma mk_empty_rings:
  assumes "rings (lh s) R" "c \<notin> ring_nodes R"
  shows "\<exists>h. mk_empty_proc_q (Some c) s = Some (s\<lparr>lh := h\<rparr>) \<and> rings h (R(c \<mapsto> []))
    \<and> same_on (- {c}) (lh s) h"
  using rings_init[OF assms] by (auto simp: mk_empty_proc_q_def on_lists_def)

lemma ring_nodes_upd_notin:
  "n \<notin> ring_nodes R \<Longrightarrow> n \<noteq> c \<Longrightarrow> n \<notin> set xs \<Longrightarrow> n \<notin> ring_nodes (R(c \<mapsto> xs))"
  by (auto simp: ring_nodes_def split: if_splits)

lemma init_scheduler_rings:
  assumes "bss s"
  shows "\<exists>h. init_scheduler s = Some (s\<lparr>lh := h, process_count := 0, softblock_count := 0,
        active_process := None, yield_process := None, start_tod := clock s (ticks s),
        ticks := Suc (ticks s), recycle_count := 0\<rparr>)
    \<and> rings h [ready_queue_hi \<mapsto> [], ready_queue_lo \<mapsto> []]
    \<and> same_on (- {ready_queue_hi, ready_queue_lo}) (lh s) h"
proof -
  let ?s0 = "s\<lparr>process_count := 0, softblock_count := 0\<rparr>"
  have "rings (lh ?s0) Map.empty" by (simp add: rings_def disjoint_rings_def)
  moreover have "ready_queue_hi \<notin> ring_nodes Map.empty" by (simp add: ring_nodes_def)
  ultimately obtain h1 where h1: "mk_empty_proc_q (Some ready_queue_hi) ?s0 = Some (?s0\<lparr>lh := h1\<rparr>)"
    "rings h1 [ready_queue_hi \<mapsto> []]" "same_on (- {ready_queue_hi}) (lh ?s0) h1"
    using mk_empty_rings by blast
  have "ready_queue_lo \<notin> ring_nodes [ready_queue_hi \<mapsto> []]" by (simp add: ring_nodes_def)
  then obtain h2 where h2: "mk_empty_proc_q (Some ready_queue_lo) (?s0\<lparr>lh := h1\<rparr>) = Some (?s0\<lparr>lh := h1, lh := h2\<rparr>)"
    "rings h2 [ready_queue_hi \<mapsto> [], ready_queue_lo \<mapsto> []]" "same_on (- {ready_queue_lo}) h1 h2"
    using mk_empty_rings[of "?s0\<lparr>lh := h1\<rparr>" "[ready_queue_hi \<mapsto> []]" ready_queue_lo] h1(2) by auto
  have "same_on (- {ready_queue_hi, ready_queue_lo}) (lh s) h2"
    using h1(3) h2(3) by (auto simp: same_on_def)
  then show ?thesis using h1(1) h2(1,2)
    by (intro exI[of _ h2]) (simp add: init_scheduler_def store_tod_def Let_def)
qed

lemma init_lists:
  assumes "bss s" "sems_ok U"
  shows "\<exists>s'. (do {
       s \<leftarrow> init_scheduler (init_puv a b s);
       s \<leftarrow> init_semaphores U s;
       s \<leftarrow> init_pcbs s;
       init_asl s
     }) = Some s' \<and> sched_inv s' view0 \<and> recycle_count s' = 0 \<and> yield_process s' = None
    \<and> active_process s' = None
    \<and> (\<forall>k<SEMAPHORES_NUM U. mem s' (sem_addr_of U (int k)) = 0)"
proof -
  let ?s0 = "init_puv a b s"
  have "bss ?s0" using assms(1) by (simp add: bss_def init_puv_def)
  then obtain h1 where 1: "init_scheduler ?s0 = Some (?s0\<lparr>lh := h1, process_count := 0, softblock_count := 0,
        active_process := None, yield_process := None, start_tod := clock ?s0 (ticks ?s0),
        ticks := Suc (ticks ?s0), recycle_count := 0\<rparr>)"
    "rings h1 [ready_queue_hi \<mapsto> [], ready_queue_lo \<mapsto> []]"
    "same_on (- {ready_queue_hi, ready_queue_lo}) (lh ?s0) h1"
    using init_scheduler_rings by blast
  let ?s1 = "?s0\<lparr>lh := h1, process_count := 0, softblock_count := 0,
        active_process := None, yield_process := None, start_tod := clock ?s0 (ticks ?s0),
        ticks := Suc (ticks ?s0), recycle_count := 0\<rparr>"
  obtain m where 2: "init_semaphores U ?s1 = Some (?s1\<lparr>mem := m\<rparr>)"
    "\<forall>k<SEMAPHORES_NUM U. m (sem_addr_of U (int k)) = 0"
    using init_semaphores_ok[OF assms(2)] by blast
  let ?R1 = "[ready_queue_hi \<mapsto> [], ready_queue_lo \<mapsto> []] :: lnode \<rightharpoonup> lnode list"
  have n1: "n \<notin> ring_nodes ?R1" if "n \<noteq> ready_queue_hi" "n \<noteq> ready_queue_lo" for n
    using that by (auto simp: ring_nodes_def split: if_splits)
  let ?tab = "\<lambda>i. if i < MAX_PROC then (pcb_table s i)\<lparr>p_pid := NULL_PID\<rparr> else pcb_table s i"
  let ?R2 = "?R1(pcb_free \<mapsto> map p_list (rev [0..<MAX_PROC]))"
  have pt: "pcb_table (?s1\<lparr>mem := m\<rparr>) = pcb_table s" "lh (?s1\<lparr>mem := m\<rparr>) = h1"
    by (simp_all add: init_puv_def)
  obtain h2 where 3: "init_pcbs (?s1\<lparr>mem := m\<rparr>) = Some (?s1\<lparr>mem := m, lh := h2, pcb_table := ?tab\<rparr>)"
    "rings h2 ?R2" "same_on (- (insert pcb_free (range p_list))) h1 h2"
    using init_pcbs_rings[of "?s1\<lparr>mem := m\<rparr>" ?R1] 1(2) n1 unfolding pt by auto
  let ?s2 = "?s1\<lparr>mem := m, lh := h2, pcb_table := ?tab\<rparr>"
  have n2: "n \<notin> ring_nodes ?R2" if "n \<in> {semd_free, semd_h} \<or> n \<in> range s_link" for n
  proof -
    have "n \<notin> set (map p_list (rev [0..<MAX_PROC]))" "n \<noteq> pcb_free" using that by auto
    then show ?thesis using that n1[of n] ring_nodes_upd_notin[of n ?R1 pcb_free] by blast
  qed
  obtain h3 where 4: "init_asl ?s2 = Some (?s2\<lparr>lh := h3\<rparr>)"
    "rings h3 (?R2(semd_h \<mapsto> [], semd_free \<mapsto> map s_link (rev [0..<MAX_PROC])))"
    "same_on (- (insert semd_free (insert semd_h (range s_link)))) h2 h3"
    using init_asl_rings[of ?s2 ?R2] 3(2) n2 by auto
  let ?s3 = "?s2\<lparr>lh := h3\<rparr>"
  have sib: "nulled h3 (p_sib i)" for i
  proof -
    have "nulled (lh ?s0) (p_sib i)" using assms(1) by (simp add: bss_def init_puv_def)
    then show ?thesis
      using same_on_nulled[OF 1(3), of "p_sib i"] same_on_nulled[OF 3(3), of "p_sib i"]
        same_on_nulled[OF 4(3), of "p_sib i"] by auto
  qed
  have "pcb_rel ?s3 view0"
    using 4(2) sib view0_facts rings_of_view0 by (simp add: pcb_rel_def del: upt_rec_numeral)
  moreover have "splits_upto MAX_PROC (v_sfree view0) (v_sact view0)"
    by (auto simp: view0_def splits_upto_def simp del: upt_rec_numeral)
  ultimately have "asl_rel ?s3 view0" using view0_facts(1) by (simp add: asl_rel_def) (simp add: view0_def)
  moreover have "pids_ok ?s3 view0" using view0_facts(1) by (simp add: pids_ok_def)
  moreover have "prios_ok ?s3 view0" by (simp add: prios_ok_def view0_def)
  moreover have "tree_rel view0 = {}" using view0_facts(3) by (simp add: tree_rel_def)
  moreover have "log_ok (kstdout ?s3)" using assms(1) by (simp add: bss_def init_puv_def)
  ultimately have "sched_inv ?s3 view0" using view0_facts(1,2) by (simp add: sched_inv_def acyclic_def)
  then show ?thesis using 1(1) 2 3(1) 4(1) by (intro exI[of _ ?s3]) simp
qed

section \<open>The kernel starts\<close>

lemma ramtop_aligned: "load_word RAMBASEADDR s = Some (mem s RAMBASEADDR)"
  "load_word RAMBASESIZE s = Some (mem s RAMBASESIZE)"
  by (simp_all add: load_word_def word_aligned_def take_bit_eq_mod)

definition first_state :: "umps \<Rightarrow> u32 \<Rightarrow> u32 \<Rightarrow> state_t" where
  "first_state U pc sp = (null_state U)\<lparr>pc_epc := pc,
     gpr := (\<lambda>_. 0)(reg_sp := sp, reg_t9 := pc),
     status := status_kernel_mode_on_nucleus U (status_interrupts_on_process U (UNINSTALLED U))\<rparr>"

lemma init_process_rel:
  assumes "sched_inv s v" "v_free v = i # fs" "v_child v i = []"
  shows "\<exists>s'. init_process U pc s = Some s' \<and> sched_inv s' (v\<lparr>v_free := fs, v_lo := v_lo v @ [i]\<rparr>)
    \<and> waiting s' (v\<lparr>v_free := fs, v_lo := v_lo v @ [i]\<rparr>) = waiting s v
    \<and> p_s (pcb_table s' i) = first_state U pc (mem s RAMBASEADDR + mem s RAMBASESIZE)
    \<and> p_pid (pcb_table s' i) = make_pid (of_nat i) (recycle_count s)
    \<and> mem s' = mem s \<and> active_process s' = active_process s \<and> yield_process s' = yield_process s"
proof -
  obtain h v' where h: "spawn_process U 0 s = Some (Some i, s\<lparr>lh := h,
        pcb_table := (pcb_table s)(i := spawned_pcb U i (recycle_count s) 0),
        process_count := process_count s + 1, recycle_count := recycle_count s + 1\<rparr>)"
    "sched_inv (s\<lparr>lh := h, pcb_table := (pcb_table s)(i := spawned_pcb U i (recycle_count s) 0),
        process_count := process_count s + 1, recycle_count := recycle_count s + 1\<rparr>) v'"
    "v_free v' = fs" "v_lo v' = v_lo v @ [i]" "v_hi v' = v_hi v" "v_child v' = (v_child v)(i := [])"
    "v_sfree v' = v_sfree v" "v_sact v' = v_sact v" "v_procq v' = v_procq v"
    "waiting (s\<lparr>lh := h, pcb_table := (pcb_table s)(i := spawned_pcb U i (recycle_count s) 0),
        process_count := process_count s + 1, recycle_count := recycle_count s + 1\<rparr>) v' = waiting s v"
    using spawn_process_rel[OF assms(1,2), of 0 U] by auto
  have v': "v' = v\<lparr>v_free := fs, v_lo := v_lo v @ [i]\<rparr>"
    using h(3-9) assms(3) by (intro view.equality) (simp_all add: fun_upd_idem)
  let ?s1 = "s\<lparr>lh := h, pcb_table := (pcb_table s)(i := spawned_pcb U i (recycle_count s) 0),
        process_count := process_count s + 1, recycle_count := recycle_count s + 1\<rparr>"
  obtain s' where s': "init_process U pc s = Some s'" "same_kernel ?s1 s'"
    "p_s (pcb_table s' i) = first_state U pc (mem s RAMBASEADDR + mem s RAMBASESIZE)"
    "p_pid (pcb_table s' i) = make_pid (of_nat i) (recycle_count s)"
    "mem s' = mem s" "active_process s' = active_process s" "yield_process s' = yield_process s"
    using h(1) by (auto simp: init_process_def ramtop_aligned set_reg_def upd_pcb_def same_kernel_def
        spawned_pcb_def cleared_pcb_def first_state_def null_state_def Let_def)
  then show ?thesis using h(2,10) same_kernel_inv[OF s'(2), of v'] unfolding v'
    by (intro exI[of _ s']) simp
qed

text \<open>The view after initialisation: one process, ready at low priority.\<close>

definition view1 :: view where
  "view1 = view0\<lparr>v_free := rev [0..<MAX_PROC - 1], v_lo := [MAX_PROC - 1]\<rparr>"

lemma init_rel:
  assumes "bss s" "sems_ok U"
  shows "\<exists>s'. init U a b pc s = Some s' \<and> sched_inv s' view1 \<and> waiting s' view1 = (\<lambda>_. [])
    \<and> active_process s' = None \<and> yield_process s' = None
    \<and> (\<forall>k<SEMAPHORES_NUM U. mem s' (sem_addr_of U (int k)) = 0)
    \<and> p_s (pcb_table s' (MAX_PROC - 1)) = first_state U pc (mem s' RAMBASEADDR + mem s' RAMBASESIZE)
    \<and> p_pid (pcb_table s' (MAX_PROC - 1)) = make_pid (of_nat (MAX_PROC - 1)) 0"
proof -
  obtain s1 where 1: "(do {
       s \<leftarrow> init_scheduler (init_puv a b s);
       s \<leftarrow> init_semaphores U s;
       s \<leftarrow> init_pcbs s;
       init_asl s
     }) = Some s1" "sched_inv s1 view0" "recycle_count s1 = 0" "yield_process s1 = None"
    "active_process s1 = None" "\<forall>k<SEMAPHORES_NUM U. mem s1 (sem_addr_of U (int k)) = 0"
    using init_lists[OF assms] by blast
  let ?s2 = "reset_local_timer (reset_timer s1)"
  have s2: "same_kernel s1 ?s2" "mem ?s2 = mem s1" "active_process ?s2 = None" "yield_process ?s2 = None"
    "recycle_count ?s2 = 0"
    using 1(3-5) by (simp_all add: same_kernel_def reset_local_timer_def reset_timer_def
        load_local_timer_def load_interval_timer_def)
  have inv2: "sched_inv ?s2 view0" using 1(2) same_kernel_inv(3)[OF s2(1)] by simp
  have free: "v_free view0 = (MAX_PROC - 1) # rev [0..<MAX_PROC - 1]"
    using upt_Suc_append[of 0 19] by (simp add: view0_def del: upt_rec_numeral)
  have v1: "view0\<lparr>v_free := rev [0..<MAX_PROC - 1], v_lo := v_lo view0 @ [MAX_PROC - 1]\<rparr> = view1"
    by (simp add: view1_def view0_def del: upt_rec_numeral)
  have ch: "v_child view0 (MAX_PROC - 1) = []" by (simp add: view0_def)
  obtain s' where s': "init_process U pc ?s2 = Some s'" "sched_inv s' view1"
    "waiting s' view1 = waiting ?s2 view0"
    "p_s (pcb_table s' (MAX_PROC - 1)) = first_state U pc (mem ?s2 RAMBASEADDR + mem ?s2 RAMBASESIZE)"
    "p_pid (pcb_table s' (MAX_PROC - 1)) = make_pid (of_nat (MAX_PROC - 1)) (recycle_count ?s2)"
    "mem s' = mem ?s2" "active_process s' = active_process ?s2" "yield_process s' = yield_process ?s2"
    using init_process_rel[OF inv2 free ch, of U pc] unfolding v1 by blast
  have "init U a b pc s = Some s'"
    using 1(1) s'(1) by (auto simp: init_def Let_def bind_eq_Some_iff)
  moreover have "waiting ?s2 view0 = (\<lambda>_. [])" using view0_facts(5) by auto
  ultimately show ?thesis using s' s2 1(6) by (intro exI[of _ s']) simp
qed

lemma takeover_state:
  assumes "active_process s = Some j" "scheduler_takeover U s = Some (Exit (LDST st) s')"
  shows "pc_epc st = pc_epc (p_s (pcb_table s j))" "gpr st = gpr (p_s (pcb_table s j))"
    "entry_hi st = entry_hi (p_s (pcb_table s j))"
  using assms by (auto simp: scheduler_takeover_def Let_def store_tod_def reset_local_timer_def
      load_local_timer_def upd_pcb_def split: if_splits)

text \<open>The view once the first process runs.\<close>

definition view2 :: view where
  "view2 = view1\<lparr>v_lo := []\<rparr>"

lemma view2_live: "live view2 i \<longleftrightarrow> i = MAX_PROC - 1" "live view1 i \<longleftrightarrow> i = MAX_PROC - 1"
  by (auto simp: live_def view2_def view1_def simp del: upt_rec_numeral)

lemma main_rel:
  assumes "bss s" "sems_ok U"
  shows "\<exists>st s'. main U a b pc s = Some (Exit (LDST st) s') \<and> pc_epc st = pc \<and> gpr st reg_t9 = pc
    \<and> active_process s' = Some (MAX_PROC - 1) \<and> yield_process s' = None
    \<and> sched_inv s' view2 \<and> waiting s' view2 = (\<lambda>_. []) \<and> off_lists view2 (MAX_PROC - 1)
    \<and> (\<forall>k<SEMAPHORES_NUM U. mem s' (sem_addr_of U (int k)) = 0)"
proof -
  obtain s1 where 1: "init U a b pc s = Some s1" "sched_inv s1 view1" "waiting s1 view1 = (\<lambda>_. [])"
    "yield_process s1 = None" "\<forall>k<SEMAPHORES_NUM U. mem s1 (sem_addr_of U (int k)) = 0"
    "p_s (pcb_table s1 (MAX_PROC - 1)) = first_state U pc (mem s1 RAMBASEADDR + mem s1 RAMBASESIZE)"
    using init_rel[OF assms] by blast
  have p: "pick None False (yield_process s1) (requeue (caller_queue None False) s1 view1) = Some (MAX_PROC - 1, view2, None)"
    using 1(4) by (simp add: pick_def requeue_def caller_queue_def view2_def view1_def view0_def)
  have ho: "handover None s1 view1" using 1(4) by (simp add: handover_def)
  have rq: "requeue None s1 view2 = view2" by (simp add: requeue_def)
  obtain s' where s': "schedule U None False s1 = Some (Exit (LDST (p_s (pcb_table s' (MAX_PROC - 1)))) s')"
    "active_process s' = Some (MAX_PROC - 1)" "yield_process s' = None" "sched_inv s' view2"
    "waiting s' view2 = waiting s1 view1" "off_lists view2 (MAX_PROC - 1)" "mem s' = mem s1"
    using schedule_dispatch[OF 1(2) ho p, of U] unfolding rq by blast
  obtain h where h: "select_process U None False s1
      = Some (Ret () (s1\<lparr>lh := h, active_process := Some (MAX_PROC - 1), yield_process := None\<rparr>))"
    using select_process_pick[OF 1(2), of None False "MAX_PROC - 1" view2 None U] p
    by (auto simp: requeue_def caller_queue_def)
  then have "scheduler_takeover U (s1\<lparr>lh := h, active_process := Some (MAX_PROC - 1), yield_process := None\<rparr>)
      = Some (Exit (LDST (p_s (pcb_table s' (MAX_PROC - 1)))) s')"
    using s'(1) by (simp add: schedule_def)
  note t = takeover_state[OF _ this]
  have "pc_epc (p_s (pcb_table s' (MAX_PROC - 1))) = pc" "gpr (p_s (pcb_table s' (MAX_PROC - 1))) reg_t9 = pc"
    using t(1,2) 1(6) by (simp_all add: first_state_def)
  then show ?thesis using s' 1(1,3,5)
    by (intro exI[of _ "p_s (pcb_table s' (MAX_PROC - 1))"] exI[of _ s']) (simp add: main_def)
qed

end
