(* ===== verification/Safety.thy ===== *)
theory Safety
  imports Init
begin

text \<open>
  The whole nucleus as one machine. Each handler of \<^verbatim>\<open>os/src/syscall.c\<close>, \<^verbatim>\<open>os/src/puod.c\<close> and
  \<^verbatim>\<open>phase2/src/exception.c\<close> is shown to end, and to hand to the scheduler a kernel state that
  satisfies the invariant and a control value that names a process that is on no list (\<open>settled\<close>).
  With the lemmas on \<^verbatim>\<open>schedule\<close> this gives the invariant of the machine at every exception.
\<close>

section \<open>The kernel between two exceptions\<close>

text \<open>
  No process is lost: each is on a queue, or is the one named, or has yielded.
\<close>

definition no_lost :: "nat option \<Rightarrow> kstate \<Rightarrow> view \<Rightarrow> bool" where
  "no_lost p s v \<longleftrightarrow> (\<forall>i. live v i \<longrightarrow> queued v i \<or> p = Some i \<or> yield_process s = Some i)"

text \<open>
  While a process runs, or the processor waits, no process is about to yield, the running process
  is on no queue, and every other process is on one.
\<close>

definition kernel_ok :: "kstate \<Rightarrow> view \<Rightarrow> bool" where
  "kernel_ok s v \<longleftrightarrow> sched_inv s v \<and> yield_process s = None
     \<and> (\<forall>i. active_process s = Some i \<longrightarrow> off_lists v i) \<and> no_lost (active_process s) s v"

text \<open>
  The results a handler may have: a control value that the scheduler can act on, a jump to the
  support level, or a panic with one of the given messages. It never gets stuck.
\<close>

definition settled :: "nat option \<Rightarrow> string set \<Rightarrow> scheduler_control_t kres option \<Rightarrow> bool" where
  "settled A M m \<longleftrightarrow> (case m of
     None \<Rightarrow> False
   | Some (Ret ctrl s) \<Rightarrow> active_process s = A
       \<and> (\<exists>v. sched_inv s v \<and> handover (ctrl_pcb ctrl) s v \<and> no_lost (ctrl_pcb ctrl) s v)
   | Some (Exit (LDCXT c) s) \<Rightarrow> A \<noteq> None \<and> active_process s = A \<and> (\<exists>v. kernel_ok s v)
   | Some (Exit (PANIC msg) s) \<Rightarrow> msg \<in> M
   | Some (Exit _ s) \<Rightarrow> False)"

lemma settled_Ret:
  "active_process s = A \<Longrightarrow> sched_inv s v \<Longrightarrow> handover (ctrl_pcb ctrl) s v \<Longrightarrow>
    no_lost (ctrl_pcb ctrl) s v \<Longrightarrow> settled A M (Some (Ret ctrl s))"
  by (auto simp: settled_def)

lemma settled_panic [simp]: "settled A M (scheduler_panic msg s) \<longleftrightarrow> msg \<in> M"
  by (simp add: settled_def scheduler_panic_def)

lemma kbind_panic [simp]: "kbind (scheduler_panic msg s) f = scheduler_panic msg s"
  by (simp add: scheduler_panic_def)

lemma settled_if: "settled A M m \<Longrightarrow> settled A M n \<Longrightarrow> settled A M (if c then m else n)"
  by simp

lemma settled_mono: "settled A M m \<Longrightarrow> M \<subseteq> N \<Longrightarrow> settled A N m"
  by (auto simp: settled_def split: option.splits kres.splits kexit.splits)

lemma ctrl_pcb_simps [simp]:
  "ctrl_pcb CONTROL_BLOCK = None" "ctrl_pcb (CONTROL_PRESERVE p) = p"
  "ctrl_pcb (CONTROL_RESCHEDULE s) = active_process s"
  by (simp_all add: CONTROL_BLOCK_def CONTROL_PRESERVE_def CONTROL_RESCHEDULE_def)

lemma handover_active:
  "yield_process s = None \<Longrightarrow> (\<And>i. active_process s = Some i \<Longrightarrow> off_lists v i) \<Longrightarrow>
    p = None \<or> p = active_process s \<Longrightarrow> handover p s v"
  by (auto simp: handover_def)

lemma kernel_okD:
  assumes "kernel_ok s v"
  shows "sched_inv s v" "yield_process s = None" "active_process s = Some i \<Longrightarrow> off_lists v i"
    "no_lost (active_process s) s v"
  using assms by (auto simp: kernel_ok_def)

lemma kernel_ok_handover: "kernel_ok s v \<Longrightarrow> p = None \<or> p = active_process s \<Longrightarrow> handover p s v"
  by (rule handover_active) (auto simp: kernel_ok_def)

lemma kernel_ok_settled:
  "kernel_ok s v \<Longrightarrow> A = active_process s \<Longrightarrow> ctrl_pcb ctrl = active_process s \<Longrightarrow>
    settled A M (Some (Ret ctrl s))"
  by (rule settled_Ret) (auto intro: kernel_okD kernel_ok_handover)

text \<open>Changes the invariant does not look at.\<close>

lemma no_lost_same: "yield_process s' = yield_process s \<Longrightarrow> no_lost p s' v = no_lost p s v"
  by (simp add: no_lost_def)

lemma kernel_ok_same:
  assumes "kernel_ok s v" "same_kernel s s'" "active_process s' = active_process s" "yield_process s' = yield_process s"
  shows "kernel_ok s' v"
  using assms same_kernel_inv(3)[OF assms(2)] no_lost_same[OF assms(4)] by (simp add: kernel_ok_def)

lemma same_kernel_upd_pcb:
  assumes "p_parent (f (pcb_table s i)) = p_parent (pcb_table s i)" "p_sem_add (f (pcb_table s i)) = p_sem_add (pcb_table s i)"
    "p_prio (f (pcb_table s i)) = p_prio (pcb_table s i)" "p_pid (f (pcb_table s i)) = p_pid (pcb_table s i)"
  shows "same_kernel s (upd_pcb i f s)"
  using assms by (simp add: same_kernel_def)

lemma same_kernel_set_reg: "same_kernel s (set_reg i r x s)"
  by (simp add: set_reg_def same_kernel_upd_pcb)

lemma set_reg_same [simp]:
  "active_process (set_reg i r x s) = active_process s" "yield_process (set_reg i r x s) = yield_process s"
  "mem (set_reg i r x s) = mem s" "CONTROL_RESCHEDULE (set_reg i r x s) = CONTROL_RESCHEDULE s"
  by (simp_all add: set_reg_def CONTROL_RESCHEDULE_def)

lemma kernel_ok_set_reg: "kernel_ok s v \<Longrightarrow> kernel_ok (set_reg i r x s) v"
  by (rule kernel_ok_same[OF _ same_kernel_set_reg]) simp_all

lemma sched_inv_set_reg: "sched_inv (set_reg i r x s) v = sched_inv s v"
  by (rule same_kernel_inv(3)[OF same_kernel_set_reg])

lemma handover_yield: "yield_process s' = yield_process s \<Longrightarrow> handover p s' v = handover p s v"
  by (simp add: handover_def)

lemma settled_same:
  assumes "settled A M (Some (Ret ctrl s))" "same_kernel s s'" "active_process s' = active_process s"
    "yield_process s' = yield_process s"
  shows "settled A M (Some (Ret ctrl s'))"
  using assms same_kernel_inv(3)[OF assms(2)] handover_yield[OF assms(4)] no_lost_same[OF assms(4)]
  by (simp add: settled_def)

lemma sched_inv_log:
  assumes "sched_inv s v" "log_ok out"
  shows "sched_inv (s\<lparr>kstdout := out\<rparr>) v"
  using assms asl_rel_cong[of "s\<lparr>kstdout := out\<rparr>" s v] by (simp add: sched_inv_def pids_ok_def prios_ok_def)

lemma kernel_ok_log: "kernel_ok s v \<Longrightarrow> log_ok out \<Longrightarrow> kernel_ok (s\<lparr>kstdout := out\<rparr>) v"
  using no_lost_same[of "s\<lparr>kstdout := out\<rparr>" s] by (simp add: kernel_ok_def sched_inv_log)

lemma kernel_ok_kprintf:
  assumes "kernel_ok s v" "fmt_ok fmt args"
  shows "\<exists>out. pandos_kprintf fmt args s = Some (s\<lparr>kstdout := out\<rparr>) \<and> kernel_ok (s\<lparr>kstdout := out\<rparr>) v"
  using kprintf_ok[OF sched_invD(5)[OF kernel_okD(1)[OF assms(1)]] assms(2)] kernel_ok_log[OF assms(1)] by blast

section \<open>Pass up or die\<close>

text \<open>A kill leaves the survivors where they were.\<close>

lemma killed_lists:
  assumes "killed D s v s' v'" "sched_inv s v" "live v' i"
  shows "live v i" "i \<notin> D" "queued v' i \<longleftrightarrow> queued v i"
proof -
  show l: "live v i" "i \<notin> D" using assms(1,3) by (simp_all add: killed_def)
  have "sched_inv s' v'" using assms(1) by (simp add: killed_def)
  then have "blocked v' i \<longleftrightarrow> blocked v i"
    using l(2) assms(1) blocked_waiting[OF sched_invD(1)[OF assms(2)], of i]
      blocked_waiting[OF sched_invD(1), of s' v' i] by (simp add: killed_def)
  then show "queued v' i \<longleftrightarrow> queued v i"
    using l assms(1,3) by (auto simp: killed_def queued_def live_def)
qed

lemma pass_up_or_die_settled:
  assumes "kernel_ok s v"
  shows "settled (active_process s) M (pass_up_or_die type s)"
proof (cases "active_process s")
  case None
  then show ?thesis using kernel_ok_settled[OF assms refl, of CONTROL_BLOCK] by (simp add: pass_up_or_die_def)
next
  case (Some i)
  show ?thesis
  proof (cases "p_support (pcb_table s i) = 0")
    case True
    have "live v i" using kernel_okD(3)[OF assms Some] by (simp add: off_lists_def)
    then obtain s' v' where k: "kill_progeny (Some i) s = Some (0, s')" "killed (progeny v i) s v s' v'"
      using kill_progeny_rel[OF kernel_okD(1)[OF assms]] by blast
    have "sched_inv s' v'" "active_process s' = active_process s" "yield_process s' = None"
      using k(2) kernel_okD(2)[OF assms] by (simp_all add: killed_def same_rest_def)
    moreover have "no_lost None s' v'"
      using kernel_okD(2,4)[OF assms] killed_lists[OF k(2) kernel_okD(1)[OF assms]] Some progeny_self[of i v]
      unfolding no_lost_def by (metis option.inject option.simps(3))
    ultimately show ?thesis using True Some k(1)
      by (auto simp: pass_up_or_die_def handover_def intro!: settled_Ret)
  next
    case False
    let ?S = "(supports s (p_support (pcb_table s i)))\<lparr>sup_except_state :=
      (sup_except_state (supports s (p_support (pcb_table s i))))(type := states s BIOSDATAPAGE)\<rparr>"
    have "kernel_ok (s\<lparr>supports := (supports s)(p_support (pcb_table s i) := ?S)\<rparr>) v"
      by (rule kernel_ok_same[OF assms]) (simp_all add: same_kernel_def)
    then show ?thesis using False Some by (auto simp: pass_up_or_die_def Let_def settled_def)
  qed
qed

section \<open>Semaphores\<close>

text \<open>How a step changes the queue of a semaphore, in terms of the process that takes it.\<close>

definition sem_step :: "nat \<Rightarrow> nat list \<Rightarrow> nat list \<Rightarrow> sem_out \<Rightarrow> bool" where
  "sem_step i q q' r \<longleftrightarrow> r = Blocks \<and> q' = q @ [i] \<or> (\<exists>t. r = Wakes t \<and> q = t # q') \<or> r = Passes \<and> q = [] \<and> q' = []"

lemma sem_PV_step:
  "sem_P i (x, q) = (xq, r) \<Longrightarrow> sem_step i q (snd xq) r"
  "sem_V i (x, q) = (xq, r) \<Longrightarrow> sem_step i q (snd xq) r"
  by (auto simp: sem_P_def sem_V_def sem_step_def split: if_splits list.splits)

lemma sem_effect_lists:
  assumes "sem_effect k xq r s v s' v'" "sched_inv s v" "sem_step i (waiting s v k) (snd xq) r"
  shows "live v' = live v" "queued v' x \<longleftrightarrow> queued v x \<or> r = Blocks \<and> x = i"
    "r \<noteq> Blocks \<Longrightarrow> off_lists v' j = off_lists v j"
    "no_lost p s v \<Longrightarrow> p = None \<or> p = Some i \<Longrightarrow> no_lost (if r = Blocks then None else p) s' v'"
proof -
  note I = sched_invD(1)[OF assms(2)]
  have S: "asl_rel s' v'" "waiting s' v' = (waiting s v)(k := snd xq)" "yield_process s' = yield_process s"
    "v_lo v' = v_lo (requeue (woken r) s v)" "v_hi v' = v_hi (requeue (woken r) s v)" "v_free v' = v_free v"
    using assms(1) sched_invD(1) by (auto simp: sem_effect_def)
  have b: "blocked v' x \<longleftrightarrow> x \<in> set (snd xq) \<or> (\<exists>l. l \<noteq> k \<and> x \<in> set (waiting s v l))" for x
    by (rule blocked_upd[OF S(1,2)])
  show l: "live v' = live v" using S(6) by (simp add: live_def fun_eq_iff)
  show q: "queued v' x \<longleftrightarrow> queued v x \<or> r = Blocks \<and> x = i" for x
  proof -
    have "x \<in> set (snd xq) \<or> x \<in> set_option (woken r) \<longleftrightarrow> x \<in> set (waiting s v k) \<or> r = Blocks \<and> x = i"
      using assms(3) by (auto simp: sem_step_def woken_def)
    moreover have "x \<in> set (v_lo v') \<or> x \<in> set (v_hi v')
        \<longleftrightarrow> x \<in> set (v_lo v) \<or> x \<in> set (v_hi v) \<or> x \<in> set_option (woken r)"
      unfolding S(4,5) by (cases "woken r") (auto simp: requeue_def enqueue_view_queues)
    ultimately show ?thesis unfolding queued_def b S(6) blocked_split[OF I, of x k] by blast
  qed
  show "off_lists v' j = off_lists v j" if "r \<noteq> Blocks" using that q l by (simp add: off_lists_def)
  show "no_lost (if r = Blocks then None else p) s' v'" if "no_lost p s v" "p = None \<or> p = Some i"
    using that q l S(3) by (auto simp: no_lost_def)
qed

lemma sem_effect_pcb:
  assumes "sem_effect k xq r s v s' v'"
  shows "p_prio (pcb_table s' i) = p_prio (pcb_table s i)" "p_pid (pcb_table s' i) = p_pid (pcb_table s i)"
    "p_s (pcb_table s' i) = p_s (pcb_table s i)" "p_parent (pcb_table s' i) = p_parent (pcb_table s i)"
    "p_support (pcb_table s' i) = p_support (pcb_table s i)"
proof -
  have e: "(pcb_table s' i)\<lparr>p_sem_add := 0\<rparr> = (pcb_table s i)\<lparr>p_sem_add := 0\<rparr>"
    using assms by (simp add: sem_effect_def)
  show "p_prio (pcb_table s' i) = p_prio (pcb_table s i)" "p_pid (pcb_table s' i) = p_pid (pcb_table s i)"
    "p_s (pcb_table s' i) = p_s (pcb_table s i)" "p_parent (pcb_table s' i) = p_parent (pcb_table s i)"
    "p_support (pcb_table s' i) = p_support (pcb_table s i)"
    using arg_cong[OF e, of p_prio] arg_cong[OF e, of p_pid] arg_cong[OF e, of p_s] arg_cong[OF e, of p_parent]
      arg_cong[OF e, of p_support]
    by simp_all
qed

text \<open>A step that blocks nobody leaves the kernel as it must be, whoever is running.\<close>

lemma sem_effect_kernel_ok:
  assumes "sem_effect k xq r s v s' v'" "kernel_ok s v" "sem_step i (waiting s v k) (snd xq) r" "r \<noteq> Blocks"
  shows "kernel_ok s' v'"
proof -
  note L = sem_effect_lists[OF assms(1) kernel_okD(1)[OF assms(2)]]
  have "sem_step j (waiting s v k) (snd xq) r" for j using assms(3,4) by (auto simp: sem_step_def)
  note L = L[OF this]
  have "sched_inv s' v'" "active_process s' = active_process s" "yield_process s' = yield_process s"
    using assms(1) by (simp_all add: sem_effect_def)
  moreover have "no_lost (active_process s) s' v'"
    using L(4)[of "active_process s" "the (active_process s)"] kernel_okD(4)[OF assms(2)] assms(4)
    by (cases "active_process s") simp_all
  ultimately show ?thesis using kernel_okD(2,3)[OF assms(2)] L(3)[OF assms(4)] by (simp add: kernel_ok_def)
qed

text \<open>P ends with a process the scheduler can act on, and without a panic.\<close>

lemma P_settled:
  assumes "kernel_ok s v" "active_process s = Some i" "k \<noteq> 0" "word_aligned k"
  shows "\<exists>ctrl s'. P k (Some i) s = Some (Ret ctrl s') \<and> settled (Some i) M (Some (Ret ctrl s'))"
proof -
  note K = kernel_okD[OF assms(1)]
  obtain xq r where x: "sem_P i (mem s k, waiting s v k) = (xq, r)" by fastforce
  obtain s' v' where P: "P k (Some i) s = Some (Ret (if r = Blocks then CONTROL_BLOCK else CONTROL_RESCHEDULE s) s')"
    "sem_effect k xq r s v s' v'"
    using P_refines[OF K(1) K(3)[OF assms(2)] assms(3,4) x] by blast
  have s': "sched_inv s' v'" "active_process s' = Some i" "yield_process s' = None"
    using P(2) K(2) assms(2) by (simp_all add: sem_effect_def)
  note L = sem_effect_lists[OF P(2) K(1) sem_PV_step(1)[OF x]]
  have "off_lists v' i" if "r \<noteq> Blocks" using L(3)[OF that] K(3)[OF assms(2)] by simp
  moreover have "no_lost (if r = Blocks then None else Some i) s' v'"
    using L(4)[of "Some i"] K(4) assms(2) by simp
  ultimately have "settled (Some i) M (Some (Ret (if r = Blocks then CONTROL_BLOCK else CONTROL_RESCHEDULE s) s'))"
    using s' assms(2) by (auto intro!: settled_Ret simp: handover_def)
  with P(1) show ?thesis by blast
qed

text \<open>V by a system call: the caller blocks exactly if no process is returned.\<close>

lemma V_settled:
  assumes "kernel_ok s v" "active_process s = Some i" "k \<noteq> 0" "word_aligned k"
  shows "\<exists>p s' v'. V k s = Some (Ret p s') \<and> sched_inv s' v' \<and> active_process s' = Some i
    \<and> yield_process s' = None \<and> (p \<noteq> None \<longrightarrow> off_lists v' i)
    \<and> no_lost (if p = None then None else Some i) s' v'"
proof -
  note K = kernel_okD[OF assms(1)]
  obtain xq r where x: "sem_V i (mem s k, waiting s v k) = (xq, r)" by fastforce
  obtain s' v' where V: "V k s = Some (Ret (case r of Blocks \<Rightarrow> None | Wakes t \<Rightarrow> Some t | Passes \<Rightarrow> active_process s) s')"
    "sem_effect k xq r s v s' v'"
    using V_refines[OF K(1) assms(2) K(3)[OF assms(2)] assms(3,4) x] by blast
  have s': "sched_inv s' v'" "active_process s' = Some i" "yield_process s' = None"
    using V(2) K(2) assms(2) by (simp_all add: sem_effect_def)
  note L = sem_effect_lists[OF V(2) K(1) sem_PV_step(2)[OF x]]
  have "off_lists v' i" if "r \<noteq> Blocks" using L(3)[OF that] K(3)[OF assms(2)] by simp
  moreover have "no_lost (if r = Blocks then None else Some i) s' v'"
    using L(4)[of "Some i"] K(4) assms(2) by simp
  ultimately show ?thesis using V(1) s' assms(2)
    by (intro exI[of _ "case r of Blocks \<Rightarrow> None | Wakes t \<Rightarrow> Some t | Passes \<Rightarrow> active_process s"]
        exI[of _ s'] exI[of _ v']) (cases r; simp)
qed

text \<open>V by an interrupt handler on a semaphore that is not 1: it never blocks anyone.\<close>

lemma V_interrupt:
  assumes "kernel_ok s v" "mem s k \<noteq> 1" "k \<noteq> 0" "word_aligned k"
  shows "\<exists>p s' v'. V k s = Some (Ret p s') \<and> kernel_ok s' v' \<and> active_process s' = active_process s
    \<and> (p = active_process s \<or> (\<exists>t q. p = Some t \<and> waiting s v k = t # q))"
proof -
  note K = kernel_okD[OF assms(1)]
  note ok = sem_effect_kernel_ok[OF _ assms(1)]
  show ?thesis
  proof (cases "waiting s v k")
    case Nil
    obtain s' where "V k s = Some (Ret (active_process s) s')" "sem_effect k (mem s k + 1, []) Passes s v s' v"
      using V_pass[OF K(1) assms(2) Nil assms(3,4)] by blast
    moreover from this(2) have "kernel_ok s' v" by (rule ok) (use Nil in \<open>auto simp: sem_step_def\<close>)
    moreover from calculation(2) have "active_process s' = active_process s" by (simp add: sem_effect_def)
    ultimately show ?thesis by blast
  next
    case (Cons t q)
    obtain s' v' where "V k s = Some (Ret (Some t) s')" "sem_effect k (mem s k, q) (Wakes t) s v s' v'"
      using V_wake[OF K(1) assms(2) Cons] by blast
    moreover from this(2) have "kernel_ok s' v'" by (rule ok) (use Cons in \<open>auto simp: sem_step_def\<close>)
    moreover from calculation(2) have "active_process s' = active_process s" by (simp add: sem_effect_def)
    ultimately show ?thesis using Cons by blast
  qed
qed

section \<open>System calls\<close>

text \<open>
  A child is created: it starts from the state the caller passes, hangs under the caller as its
  last child, waits on the ready queue of its priority, and the caller gets its identifier.
\<close>

definition created :: "kstate \<Rightarrow> view \<Rightarrow> nat \<Rightarrow> nat \<Rightarrow> kstate \<Rightarrow> view \<Rightarrow> bool" where
  "created s v a c s' v' \<longleftrightarrow> kernel_ok s' v'
     \<and> (\<forall>k. live v' k \<longleftrightarrow> live v k \<or> k = c) \<and> \<not> live v c
     \<and> v_child v' a = v_child v a @ [c] \<and> v_child v' c = []
     \<and> (if p_prio (pcb_table s' c) = 0 then v_lo v' = v_lo v @ [c] \<and> v_hi v' = v_hi v
         else v_lo v' = v_lo v \<and> v_hi v' = v_hi v @ [c])
     \<and> p_parent (pcb_table s' c) = Some a \<and> p_s (pcb_table s' c) = states s (get_reg a reg_a1 s)
     \<and> p_prio (pcb_table s' c) = get_reg a reg_a2 s \<and> p_support (pcb_table s' c) = get_reg a reg_a3 s
     \<and> p_pid (pcb_table s' c) = make_pid (of_nat c) (recycle_count s)
     \<and> p_time (pcb_table s' c) = 0
     \<and> get_reg a reg_v0 s' = p_pid (pcb_table s' c)
     \<and> (\<forall>k. k \<notin> {a, c} \<longrightarrow> pcb_table s' k = pcb_table s k) \<and> active_process s' = Some a
     \<and> waiting s' v' = waiting s v \<and> mem s' = mem s"

lemma create_process_child:
  assumes "kernel_ok s v" "active_process s = Some a" "v_free v = c # fs"
    and prio: "get_reg a reg_a2 s \<in> {0, 1}" "get_reg a reg_a1 s \<noteq> 0"
  shows "\<exists>s' v'. syscall_create_process U a s = Some (Ret (CONTROL_PRESERVE (Some a)) s') \<and> created s v a c s' v'"
proof -
  note K = kernel_okD[OF assms(1)] and F = alloc_view_facts[OF sched_invD(8)[OF kernel_okD(1)[OF assms(1)]] assms(3)]
  let ?prio = "get_reg a reg_a2 s" and ?ps = "get_reg a reg_a1 s"
  let ?tab = "(pcb_table s)(c := spawned_pcb U c (recycle_count s) ?prio)"
  obtain h v1 where sp: "spawn_process U ?prio s = Some (Some c, s\<lparr>lh := h, pcb_table := ?tab,
      process_count := process_count s + 1, recycle_count := recycle_count s + 1\<rparr>)"
    "sched_inv (s\<lparr>lh := h, pcb_table := ?tab,
      process_count := process_count s + 1, recycle_count := recycle_count s + 1\<rparr>) v1"
    "v_free v1 = fs" "v_child v1 = (v_child v)(c := [])" "v_sact v1 = v_sact v" "v_procq v1 = v_procq v"
    "v_lo v1 = (if ?prio = 0 then v_lo v @ [c] else v_lo v)" "v_hi v1 = (if ?prio = 0 then v_hi v else v_hi v @ [c])"
    "waiting (s\<lparr>lh := h, pcb_table := ?tab,
      process_count := process_count s + 1, recycle_count := recycle_count s + 1\<rparr>) v1 = waiting s v"
    using spawn_process_rel[OF K(1) assms(3) prio(1), of U] by auto
  let ?s1 = "s\<lparr>lh := h, pcb_table := ?tab, process_count := process_count s + 1, recycle_count := recycle_count s + 1\<rparr>"
  let ?s2 = "upd_pcb c (\<lambda>p. p\<lparr>p_s := states s ?ps\<rparr>) (upd_pcb c (\<lambda>p. p\<lparr>p_support := get_reg a reg_a3 s\<rparr>) ?s1)"
  have inv2: "sched_inv ?s2 v1" "waiting ?s2 v1 = waiting s v"
    using sp(2,9) same_kernel_inv(2,3)[of ?s1 ?s2 v1] by (simp_all add: same_kernel_def)
  have off: "off_lists v a" by (rule K(3)[OF assms(2)])
  have L: "live v1 k \<longleftrightarrow> live v k \<or> k = c" for k using F sp(3) assms(3) by (auto simp: live_def)
  have ac: "c \<noteq> a" using off F(3) by (auto simp: off_lists_def)
  have noch: "\<not> child_of v1 c r" for r
    using pcb_relD(5)[OF sched_invD(8)[OF K(1)], of c r] F(3) L sp(4) by (auto simp: child_of_def split: if_splits)
  let ?v = "set_child a (v_child v1 a @ [c]) v1"
  obtain h2 where ic: "insert_child (Some a) (Some c) ?s2 = Some (upd_pcb c (\<lambda>p. p\<lparr>p_parent := Some a\<rparr>) (?s2\<lparr>lh := h2\<rparr>))"
    "sched_inv (upd_pcb c (\<lambda>p. p\<lparr>p_parent := Some a\<rparr>) (?s2\<lparr>lh := h2\<rparr>)) ?v"
    "waiting (upd_pcb c (\<lambda>p. p\<lparr>p_parent := Some a\<rparr>) (?s2\<lparr>lh := h2\<rparr>)) ?v = waiting s v"
    using insert_child_inv[OF inv2(1), of a c] inv2(2) L off ac noch sp(4) by (auto simp: off_lists_def)
  let ?s3 = "upd_pcb c (\<lambda>p. p\<lparr>p_parent := Some a\<rparr>) (?s2\<lparr>lh := h2\<rparr>)"
  let ?s4 = "set_reg a reg_v0 (p_pid (pcb_table ?s3 c)) ?s3"
  have "off_lists ?v a"
    using off ac sp(3,5-8) F assms(3) by (auto simp: off_lists_def queued_def live_def blocked_def set_child_def)
  moreover have "no_lost (Some a) s1 ?v" for s1
  proof -
    have "queued v1 k \<longleftrightarrow> queued v k" if "k \<noteq> c" for k
      using that sp(3,5-8) assms(3) by (auto simp: queued_def blocked_def)
    moreover have "queued v1 c" using sp(7,8) by (simp add: queued_def)
    moreover have "queued v k \<or> a = k" if "live v k" for k
      using K(2,4) assms(2) that by (auto simp: no_lost_def)
    ultimately show ?thesis using L F(3) unfolding no_lost_def set_child_facts by metis
  qed
  ultimately have "kernel_ok ?s4 ?v" using ic(2) K(2) assms(2) by (simp add: kernel_ok_def sched_inv_set_reg)
  moreover have "get_reg a reg_v0 ?s4 = p_pid (pcb_table ?s4 c)" using ac by (simp add: get_reg_def set_reg_def)
  moreover have "waiting ?s4 ?v = waiting s v" using ic(3) same_kernel_inv(2)[OF same_kernel_set_reg] by simp
  ultimately have "created s v a c ?s4 ?v"
    using L F(3) sp(4,7,8) ac assms(2)
    by (auto simp: created_def set_child_facts set_child_def set_reg_def spawned_pcb_def cleared_pcb_def live_def)
  moreover have "syscall_create_process U a s = Some (Ret (CONTROL_PRESERVE (Some a)) ?s4)"
    using prio sp(1) ic(1) assms(2) by (auto simp: syscall_create_process_def)
  ultimately show ?thesis by blast
qed

lemma create_process_settled:
  assumes "kernel_ok s v" "active_process s = Some a"
  shows "settled (Some a) M (syscall_create_process U a s)"
proof -
  note K = kernel_okD[OF assms(1)]
  let ?prio = "get_reg a reg_a2 s" and ?ps = "get_reg a reg_a1 s"
  show ?thesis
  proof (cases "?prio \<notin> {0, 1} \<or> ?ps = 0")
    case True
    then show ?thesis using pass_up_or_die_settled[OF assms(1)] assms(2)
      by (auto simp: syscall_create_process_def)
  next
    case False
    then have prio: "?prio \<in> {0, 1}" "?ps \<noteq> 0" by simp_all
    show ?thesis
    proof (cases "v_free v")
      case Nil
      have "kernel_ok (set_reg a reg_v0 0 s) v" by (rule kernel_ok_set_reg[OF assms(1)])
      from kernel_ok_settled[OF this, of "Some a"] show ?thesis
        using prio spawn_process_full[OF sched_invD(8)[OF K(1)] Nil] assms(2)
        by (auto simp: syscall_create_process_def)
    next
      case (Cons c fs)
      obtain s' v' where c: "syscall_create_process U a s = Some (Ret (CONTROL_PRESERVE (Some a)) s')" "created s v a c s' v'"
        using create_process_child[OF assms Cons prio] by blast
      then have "kernel_ok s' v'" "active_process s' = Some a" by (simp_all add: created_def)
      from kernel_ok_settled[OF this(1), of "Some a" "CONTROL_PRESERVE (Some a)"] this(2) show ?thesis
        unfolding c(1) by simp
    qed
  qed
qed

lemma terminate_process_settled:
  assumes "kernel_ok s v" "active_process s = Some a"
  shows "settled (Some a) M (syscall_terminate_process a s)"
proof -
  note K = kernel_okD[OF assms(1)]
  let ?pid = "get_reg a reg_a1 s"
  show ?thesis
  proof (cases "?pid = 0 \<or> find_process ?pid s = None")
    case True
    then show ?thesis using pass_up_or_die_settled[OF assms(1)] assms(2)
      by (auto simp: syscall_terminate_process_def Let_def)
  next
    case False
    then obtain i where i: "?pid \<noteq> 0" "find_process ?pid s = Some i" by auto
    then have "live v i" using find_process_iff[OF K(1)] by simp
    then obtain s' v' where k: "kill_progeny (Some i) s = Some (0, s')" "killed (progeny v i) s v s' v'"
      using kill_progeny_rel[OF K(1)] by blast
    have s': "sched_inv s' v'" "active_process s' = Some a" "yield_process s' = None"
      using k(2) K(2) assms(2) by (simp_all add: killed_def same_rest_def)
    note off = K(3)[OF assms(2)]
    have "off_lists v' a" if "p_pid (pcb_table s' a) \<noteq> 0"
    proof -
      have a: "a < MAX_PROC" using off by (simp add: off_lists_def live_def)
      then have "live v' a" using sched_invD(2)[OF s'(1)] that unfolding pids_ok_def by metis
      moreover have "\<not> blocked v' a"
        using off k(2) blocked_waiting[OF sched_invD(1)[OF K(1)]] blocked_waiting[OF sched_invD(1)[OF s'(1)]]
        by (auto simp: killed_def off_lists_def queued_def)
      ultimately show ?thesis using off k(2)
        by (auto simp: killed_def off_lists_def queued_def live_def)
    qed
    moreover have "no_lost (if p_pid (pcb_table s' a) = 0 then None else Some a) s' v'"
    proof -
      have "\<not> live v' a" if "p_pid (pcb_table s' a) = 0"
        using sched_invD(2)[OF s'(1)] that unfolding pids_ok_def by (metis live_def)
      then show ?thesis
        using K(2,4) killed_lists[OF k(2) K(1)] assms(2) by (auto simp: no_lost_def)
    qed
    ultimately have "settled (Some a) M (Some (Ret (if p_pid (pcb_table s' a) = 0 then CONTROL_BLOCK
        else CONTROL_RESCHEDULE s') s'))"
      using s' by (auto intro!: settled_Ret simp: handover_def)
    then show ?thesis using i k(1) by (simp add: syscall_terminate_process_def)
  qed
qed

lemma passeren_settled:
  assumes "kernel_ok s v" "active_process s = Some a" "word_aligned (get_reg a reg_a1 s)"
  shows "settled (Some a) M (syscall_passeren a s)"
proof (cases "get_reg a reg_a1 s = 0")
  case True
  then show ?thesis using pass_up_or_die_settled[OF assms(1)] assms(2) by (simp add: syscall_passeren_def)
next
  case False
  then show ?thesis using P_settled[OF assms(1,2) False assms(3), of M] assms(2) by (auto simp: syscall_passeren_def)
qed

lemma verhogen_settled:
  assumes "kernel_ok s v" "active_process s = Some a" "word_aligned (get_reg a reg_a1 s)"
  shows "settled (Some a) M (syscall_verhogen a s)"
proof (cases "get_reg a reg_a1 s = 0")
  case True
  then show ?thesis using pass_up_or_die_settled[OF assms(1)] assms(2) by (simp add: syscall_verhogen_def)
next
  case False
  then obtain p s' v' where "V (get_reg a reg_a1 s) s = Some (Ret p s')" "sched_inv s' v'"
    "active_process s' = Some a" "yield_process s' = None" "p \<noteq> None \<longrightarrow> off_lists v' a" "no_lost (if p = None then None else Some a) s' v'"
    using V_settled[OF assms(1,2) False assms(3)] by blast
  then show ?thesis using False by (cases p) (auto simp: syscall_verhogen_def handover_def intro!: settled_Ret)
qed

text \<open>A command address belongs to a device semaphore of the array, or the kernel panics.\<close>

lemma get_iodev_cases:
  assumes "lines_ok U" "DEV_REG_SIZE U \<noteq> 0"
  obtains "get_iodev U cmd s = scheduler_panic ''Semaphore not found\<newline>'' s"
  | dev k where "get_iodev U cmd s = Some (Ret dev s)" "k < SEMAPHORES_NUM U - 1"
      "semaphore dev = sem_addr_of U (int k)" "int (IL_DISK U) \<le> interrupt_line dev" "interrupt_line dev \<le> int (IL_TERMINAL U)"
proof -
  let ?n = "uint ((cmd - DEV_REG_START U) div DEV_REG_SIZE U)"
  let ?f = "find (is_in_line U ?n) [IL_DISK U..<IL_TERMINAL U + 1]"
  let ?w = "DEV_REG_SIZE U * word_of_int ?n + DEV_REG_START U + 0xC = cmd"
  have n: "?n mod int (DEVPERINT U) = int (nat ?n mod DEVPERINT U)" by (simp add: zmod_int)
  have d: "0 < DEVPERINT U" using assms(1) by (simp add: lines_ok_def)
  show thesis
  proof (cases ?f)
    case None
    then have "get_iodev U cmd s = scheduler_panic ''Semaphore not found\<newline>'' s"
      using assms(2) by (simp add: get_iodev_def get_semaphore_def scheduler_panic_def)
    then show thesis by (rule that(1))
  next
    case (Some il)
    then have "il \<in> set [IL_DISK U..<IL_TERMINAL U + 1]" by (metis find_Some_iff nth_mem)
    then have il: "IL_DISK U \<le> il" "il \<le> IL_TERMINAL U" by auto
    let ?k = "sem_index U il (nat ?n mod DEVPERINT U) ?w"
    let ?dev = "\<lparr>semaphore = sem_addr_of U (int ?k), interrupt_line = int il\<rparr>"
    have "get_iodev U cmd s = Some (Ret ?dev s)"
      using assms(2) Some get_semaphore_index[OF il] by (simp add: get_iodev_def n Let_def)
    moreover have "?k < SEMAPHORES_NUM U - 1" by (rule sem_index_bound[OF assms(1) il]) (simp add: d)
    ultimately show thesis using il that(2)[of ?dev ?k] by simp
  qed
qed

definition io_panics :: "string set" where
  "io_panics = {''Semaphore not found\<newline>'', ''A device syncronization semaphore has a value > 0''}"

lemma do_io_settled:
  assumes "kernel_ok s v" "active_process s = Some a" "word_aligned (get_reg a reg_a1 s)"
    and "sems_ok U" "lines_ok U" "DEV_REG_SIZE U \<noteq> 0"
  shows "settled (Some a) io_panics (syscall_do_io U a s)"
proof (cases "get_reg a reg_a1 s = 0")
  case True
  then show ?thesis using pass_up_or_die_settled[OF assms(1)] assms(2) by (simp add: syscall_do_io_def)
next
  case False
  note K = kernel_okD[OF assms(1)]
  let ?cmd = "get_reg a reg_a1 s" and ?val = "get_reg a reg_a2 s"
  show ?thesis
  proof (cases rule: get_iodev_cases[OF assms(5,6), of ?cmd s])
    case 1
    then show ?thesis using False by (simp add: syscall_do_io_def io_panics_def scheduler_panic_def settled_def)
  next
    case (2 dev k)
    have k: "semaphore dev \<noteq> 0" "word_aligned (semaphore dev)"
      using sem_addr_facts(1,2)[OF assms(4), of k] 2(2,3) by simp_all
    then have hb: "head_blocked (semaphore dev) s
        = Some (case waiting s v (semaphore dev) of [] \<Rightarrow> None | i # _ \<Rightarrow> Some i)"
      using head_blocked_rel[OF sched_invD(1)[OF K(1)]] by blast
    have ld: "load_word (semaphore dev) s = Some (mem s (semaphore dev))" using k by (simp add: load_word_def)
    show ?thesis
    proof (cases "waiting s v (semaphore dev)")
      case (Cons i q)
      then show ?thesis using False 2(1) k hb pass_up_or_die_settled[OF assms(1)] assms(2)
        by (simp add: syscall_do_io_def)
    next
      case Nil
      show ?thesis
      proof (cases "sint (mem s (semaphore dev)) > 0")
        case True
        then show ?thesis using False 2(1) k hb Nil ld by (simp add: syscall_do_io_def io_panics_def)
      next
        case nonpos: False
        obtain ctrl s' where P: "P (semaphore dev) (Some a) s = Some (Ret ctrl s')"
          "settled (Some a) io_panics (Some (Ret ctrl s'))"
          using P_settled[OF assms(1,2) k] by blast
        define s2 where "s2 = (if p_prio (pcb_table s' a) \<noteq> 0
               then upd_pcb a (\<lambda>p. p\<lparr>p_s := (p_s p)\<lparr>status :=
                 status_il_on U (nat (interrupt_line dev)) (status (p_s p))\<rparr>\<rparr>) s'
               else upd_pcb a (\<lambda>p. p\<lparr>p_s := (p_s p)\<lparr>status := status_il_on_all U (status (p_s p))\<rparr>\<rparr>) s')"
        let ?s3 = "s2\<lparr>mem := (mem s2)(?cmd := ?val)\<rparr>"
        have "same_kernel s' ?s3" "active_process ?s3 = active_process s'" "yield_process ?s3 = yield_process s'"
          by (simp_all add: s2_def same_kernel_def)
        from settled_same[OF P(2) this] have "settled (Some a) io_panics (Some (Ret ctrl ?s3))" .
        moreover have "store_word ?cmd ?val s2 = Some ?s3" using False assms(3) by (simp add: store_word_def)
        moreover have "syscall_do_io U a s = store_word ?cmd ?val s2 \<bind> (\<lambda>s. Some (Ret ctrl s))"
          using False 2(1) k hb Nil ld nonpos P(1) assms(2) by (simp add: syscall_do_io_def s2_def)
        ultimately show ?thesis by simp
      qed
    qed
  qed
qed

lemma reg_result_settled:
  assumes "kernel_ok s v" "active_process s = Some a"
  shows "settled (Some a) M (Some (Ret (CONTROL_RESCHEDULE (set_reg a reg_v0 x s)) (set_reg a reg_v0 x s)))"
  using kernel_ok_settled[OF kernel_ok_set_reg[OF assms(1)], of "Some a" a reg_v0 x] assms(2) by simp

lemma yield_settled:
  assumes "kernel_ok s v" "active_process s = Some a"
  shows "settled (Some a) M (syscall_yield s)"
proof -
  have "sched_inv (s\<lparr>yield_process := Some a\<rparr>) v"
    using same_kernel_inv(3)[of s "s\<lparr>yield_process := Some a\<rparr>" v] kernel_okD(1)[OF assms(1)]
    by (simp add: same_kernel_def)
  moreover have "handover None (s\<lparr>yield_process := Some a\<rparr>) v"
    using kernel_okD(3)[OF assms] by (simp add: handover_def)
  moreover have "no_lost None (s\<lparr>yield_process := Some a\<rparr>) v"
    using kernel_okD(4)[OF assms(1)] assms(2) by (auto simp: no_lost_def kernel_okD(2)[OF assms(1)])
  ultimately show ?thesis using assms(2) by (auto simp: syscall_yield_def intro!: settled_Ret)
qed

text \<open>
  What a system call needs of its caller: the addresses it passes for a semaphore or a device
  register are aligned. Anything else is met with an error, never with a stuck kernel.
\<close>

definition syscall_args_ok :: "state_t \<Rightarrow> bool" where
  "syscall_args_ok st \<longleftrightarrow>
     (sint (gpr st reg_a0) \<in> {PASSEREN, VERHOGEN, DOIO} \<longrightarrow> word_aligned (gpr st reg_a1))"

definition machine_ok :: "umps \<Rightarrow> bool" where
  "machine_ok U \<longleftrightarrow> sems_ok U \<and> lines_ok U \<and> DEV_REG_SIZE U \<noteq> 0"

lemma syscall_handler_settled:
  assumes "kernel_ok s v" "active_process s = Some a" "syscall_args_ok (p_s (pcb_table s a))" "machine_ok U"
  shows "settled (Some a) io_panics (syscall_handler U s)"
proof -
  let ?id = "sint (get_reg a reg_a0 s)"
  obtain u where u: "is_user_mode s = Some u" using assms(2) by (simp add: is_user_mode_def)
  note S = syscall_handler_def assms(2) u Let_def
  consider (user) "?id \<le> 0" "u \<noteq> 0" | (kernel) "\<not> (?id \<le> 0 \<and> u \<noteq> 0)" by blast
  then show ?thesis
  proof cases
    case user
    let ?s = "upd_pcb a (\<lambda>p. p\<lparr>p_s := (p_s p)\<lparr>cause := cause_reserved_instruction U (cause (p_s p))\<rparr>\<rparr>)
      (upd_pcb a (\<lambda>p. p\<lparr>p_s := (p_s p)\<lparr>cause := cause_clean (cause (p_s p))\<rparr>\<rparr>) s)"
    have "kernel_ok ?s v" by (rule kernel_ok_same[OF assms(1)]) (simp_all add: same_kernel_def)
    from pass_up_or_die_settled[OF this] show ?thesis using user assms(2) by (simp add: S)
  next
    case kernel
    have aligned: "word_aligned (get_reg a reg_a1 s)" if "?id \<in> {PASSEREN, VERHOGEN, DOIO}"
      using assms(3) that by (auto simp: syscall_args_ok_def get_reg_def)
    have M: "sems_ok U" "lines_ok U" "DEV_REG_SIZE U \<noteq> 0" using assms(4) by (simp_all add: machine_ok_def)
    have "?id \<in> {CREATEPROCESS, TERMPROCESS, PASSEREN, VERHOGEN, DOIO, GETTIME, CLOCKWAIT, GETSUPPORTPTR,
        GETPROCESSID, YIELD} \<or> ?id \<notin> {- 10..- 1}"
      by (simp only: atLeastAtMost_iff insert_iff empty_iff) presburger
    then consider "?id = CREATEPROCESS" | "?id = TERMPROCESS" | "?id = PASSEREN" | "?id = VERHOGEN" | "?id = DOIO"
      | "?id = GETTIME" | "?id = CLOCKWAIT" | "?id = GETSUPPORTPTR" | "?id = GETPROCESSID" | "?id = YIELD"
      | "?id \<notin> {- 10..- 1}" by blast
    then show ?thesis
    proof cases
      case 1
      then show ?thesis using kernel create_process_settled[OF assms(1,2)] by (simp add: S)
    next
      case 2
      then show ?thesis using kernel terminate_process_settled[OF assms(1,2)] by (simp add: S)
    next
      case 3
      then show ?thesis using kernel passeren_settled[OF assms(1,2) aligned] by (simp add: S)
    next
      case 4
      then show ?thesis using kernel verhogen_settled[OF assms(1,2) aligned] by (simp add: S)
    next
      case 5
      then show ?thesis using kernel do_io_settled[OF assms(1,2) aligned M] by (simp add: S)
    next
      case 6
      then show ?thesis using kernel reg_result_settled[OF assms(1,2)] by (simp add: S syscall_get_cpu_time_def)
    next
      case 7
      then show ?thesis using kernel P_settled[OF assms(1,2) timer_semaphore_facts[OF M(1)], of io_panics] assms(2)
        by (auto simp: S syscall_wait_for_clock_def)
    next
      case 8
      then show ?thesis using kernel reg_result_settled[OF assms(1,2)] by (simp add: S syscall_get_support_data_def)
    next
      case 9
      then show ?thesis using kernel reg_result_settled[OF assms(1,2)] pass_up_or_die_settled[OF assms(1)] assms(2)
        by (simp add: S syscall_get_process_id_def)
    next
      case 10
      then show ?thesis using kernel yield_settled[OF assms(1,2)] by (simp add: S)
    next
      case 11
      have "fmt_ok ''-----syscall not handled %d\<newline>'' [ArgInt (get_reg a reg_a0 s)]" by simp
      from kernel_ok_kprintf[OF assms(1) this]
      obtain out where o: "pandos_kprintf ''-----syscall not handled %d\<newline>'' [ArgInt (get_reg a reg_a0 s)] s
          = Some (s\<lparr>kstdout := out\<rparr>)" "kernel_ok (s\<lparr>kstdout := out\<rparr>) v" by blast
      from pass_up_or_die_settled[OF o(2)] show ?thesis using 11 kernel o(1) assms(2) by (auto simp: S)
    qed
  qed
qed

section \<open>Interrupts\<close>

text \<open>The scan of a bitmap ends at the highest bit that is set.\<close>

lemma device_loop_eq:
  assumes "unat val < 2 ^ (limit - n)"
  shows "unat val \<le> 1 \<Longrightarrow> device_loop limit val n = n"
    and "unat val > 1 \<Longrightarrow> n < limit \<Longrightarrow> device_loop limit val n = device_loop limit (drop_bit 1 val) (n + 1)"
  by (simp_all add: device_loop.simps[of limit val n] word_less_nat_alt)

lemma unat_drop_bit_1: "unat (drop_bit 1 (w :: u32)) = unat w div 2"
proof -
  have "unat (drop_bit 1 w) = drop_bit 1 (unat w)" by (rule unat_drop_bit_eq)
  then show ?thesis by (simp only: drop_bit_eq_div power_one_right)
qed

lemma device_loop_highest:
  assumes "unat val < 2 ^ (limit - n)" "val \<noteq> 0"
  shows "\<exists>k. device_loop limit val n = n + k \<and> n + k < limit \<and> 2 ^ k \<le> unat val \<and> unat val < 2 ^ Suc k"
  using assms
proof (induction limit val n rule: device_loop.induct)
  case (1 limit val n)
  have pos: "0 < unat val" using 1(3) by (simp add: unat_gt_0)
  have pos: "0 < unat val" "n < limit" using pos 1(2) by (cases "n < limit"; simp)+
  show ?case
  proof (cases "unat val \<le> 1")
    case True
    then show ?thesis using device_loop_eq(1)[OF 1(2)] pos by (intro exI[of _ 0]) auto
  next
    case False
    have "(2::nat) ^ (limit - n) = 2 * 2 ^ (limit - (n + 1))" using pos(2)
      by (metis Suc_diff_Suc add.commute plus_1_eq_Suc power_Suc)
    then have l: "unat (drop_bit 1 val) < 2 ^ (limit - (n + 1))" using 1(2) unfolding unat_drop_bit_1 by linarith
    have "unat (drop_bit 1 val) \<noteq> 0" using False unfolding unat_drop_bit_1 by linarith
    then have nz: "drop_bit 1 val \<noteq> 0" by auto
    have "val > 1 \<and> n < limit" using False pos(2) by (simp add: word_less_nat_alt)
    from 1(1)[OF this l nz] obtain k where k: "device_loop limit (drop_bit 1 val) (n + 1) = n + 1 + k"
      "n + 1 + k < limit" "2 ^ k \<le> unat val div 2" "unat val div 2 < 2 ^ Suc k"
      unfolding unat_drop_bit_1 by blast
    have "2 ^ Suc k \<le> unat val" "unat val < 2 ^ Suc (Suc k)" using k(3,4) by auto
    then show ?thesis using device_loop_eq(2)[OF 1(2)] False k(1,2) pos(2)
      by (intro exI[of _ "Suc k"]) simp
  qed
qed

lemma device_loop_bound:
  assumes "unat val < 2 ^ limit" "0 < limit"
  shows "device_loop limit val 0 < limit"
proof (cases "val = 0")
  case True
  then show ?thesis using assms(2) by (simp add: device_loop.simps)
next
  case False
  then show ?thesis using device_loop_highest[of val limit 0] assms(1) by auto
qed

text \<open>
  What the interrupt handlers rely on. Of the machine: the addresses of the interrupt bitmaps and
  of the device registers are aligned, and a line has no more devices than semaphores. Of the
  moment: a bitmap has no bits beyond the devices of its line, and no device semaphore has the
  value 1, at which V would block the process it runs on behalf of.
\<close>

definition devices_ok :: "umps \<Rightarrow> bool" where
  "devices_ok U \<longleftrightarrow> DEV_IL_START U = IL_DISK U \<and> IL_DISK U \<le> IL_PRINTER U \<and> IL_PRINTER U < IL_TERMINAL U
     \<and> 0 < N_DEV_PER_IL U \<and> N_DEV_PER_IL U \<le> DEVPERINT U
     \<and> (\<forall>il. IL_DISK U \<le> il \<and> il \<le> IL_TERMINAL U \<longrightarrow>
          CDEV_BITMAP_ADDR U il \<noteq> 0 \<and> word_aligned (CDEV_BITMAP_ADDR U il)
          \<and> (\<forall>n<N_DEV_PER_IL U. \<forall>r\<in>{RECV_STATUS, RECV_COMMAND, TRANSM_STATUS, TRANSM_COMMAND}.
               devreg U (il - IL_DISK U) n + r \<noteq> 0 \<and> word_aligned (devreg U (il - IL_DISK U) n + r)))"

definition irq_ok :: "umps \<Rightarrow> kstate \<Rightarrow> bool" where
  "irq_ok U s \<longleftrightarrow> (\<forall>k<SEMAPHORES_NUM U - 1. mem s (sem_addr_of U (int k)) \<noteq> 1)
     \<and> (\<forall>il. IL_DISK U \<le> il \<and> il \<le> IL_TERMINAL U \<longrightarrow>
          unat (mem s (CDEV_BITMAP_ADDR U il)) < 2 ^ N_DEV_PER_IL U)"

definition irq_panics :: "string set" where
  "irq_panics = {''Device is not installed!\<newline>'', ''No active process (Interrupt Generic)\<newline>'',
     ''No active process (Interrupt Terminal)\<newline>'', ''Unexpected interrupt from terminal device %d\<newline>''}"

lemma find_device_number_ok:
  assumes "devices_ok U" "irq_ok U s" "IL_DISK U \<le> il" "il \<le> IL_TERMINAL U"
  shows "\<exists>n. find_device_number U (CDEV_BITMAP_ADDR U il) s = Some n \<and> n < N_DEV_PER_IL U"
  using assms device_loop_bound[of "mem s (CDEV_BITMAP_ADDR U il)" "N_DEV_PER_IL U"]
  by (simp add: find_device_number_def load_word_def devices_ok_def irq_ok_def)

lemma devreg_access:
  assumes "devices_ok U" "IL_DISK U \<le> il" "il \<le> IL_TERMINAL U" "n < N_DEV_PER_IL U"
    "r \<in> {RECV_STATUS, RECV_COMMAND, TRANSM_STATUS, TRANSM_COMMAND}"
  shows "load_word (devreg U (il - IL_DISK U) n + r) s = Some (mem s (devreg U (il - IL_DISK U) n + r))"
    "store_word (devreg U (il - IL_DISK U) n + r) x s = Some (s\<lparr>mem := (mem s)(devreg U (il - IL_DISK U) n + r := x)\<rparr>)"
  using assms unfolding devices_ok_def load_word_def store_word_def by auto

lemma kernel_ok_mem: "kernel_ok s v \<Longrightarrow> kernel_ok (s\<lparr>mem := m\<rparr>) v"
  by (rule kernel_ok_same) (simp_all add: same_kernel_def)

text \<open>The value a device reports goes to the process that waited for it, or to the running one.\<close>

lemma answer_settled:
  assumes "kernel_ok s v" "i = a \<and> active_process s = Some a \<and> ctrl = CONTROL_RESCHEDULE s \<or> ctrl = CONTROL_PRESERVE (active_process s)"
  shows "settled (active_process s) M (Some (Ret ctrl ((set_reg i reg_v0 x s)\<lparr>mem := m\<rparr>)))"
proof -
  have "kernel_ok ((set_reg i reg_v0 x s)\<lparr>mem := m\<rparr>) v"
    by (rule kernel_ok_mem[OF kernel_ok_set_reg[OF assms(1)]])
  from kernel_ok_settled[OF this, of "active_process s" ctrl] show ?thesis
    using assms(2) by auto
qed

text \<open>The line the handler serves: the first of the pending ones.\<close>

definition pending_line :: "umps \<Rightarrow> u32 \<Rightarrow> nat" where
  "pending_line U cau = (case find (\<lambda>i. cau AND CAUSE_IP U i \<noteq> 0) [IL_DISK U..<IL_PRINTER U + 1] of
     None \<Rightarrow> IL_DISK U | Some i \<Rightarrow> i)"

lemma interrupt_generic_steps:
  assumes "machine_ok U" "devices_ok U" "irq_ok U s"
    and "il = pending_line U cau" "\<And>n. sem n = sem_addr_of U (int (sem_index U il n False))"
    and "\<And>n. r n = devreg U (il - IL_DISK U) n"
  obtains n where "find_device_number U (CDEV_BITMAP_ADDR U il) s = Some n" "n < N_DEV_PER_IL U"
    "sem n \<noteq> 0" "word_aligned (sem n)" "mem s (sem n) \<noteq> 1"
    "\<And>x t. store_word (r n + RECV_COMMAND) x t = Some (t\<lparr>mem := (mem t)(r n + RECV_COMMAND := x)\<rparr>)"
    "interrupt_generic U cau s = (if mem s (r n + RECV_STATUS) AND TERMSTATMASK = DEV_STATUS_NOTINSTALLED
       then scheduler_panic ''Device is not installed!\<newline>'' s
       else kbind (V (sem n) s) (\<lambda>p s'. kbind (return_status p (mem s (r n + RECV_STATUS)) s') (\<lambda>ctrl s. do {
           s \<leftarrow> store_word (r n + RECV_COMMAND) DEV_C_ACK s;
           Some (Ret ctrl s)
         })))"
proof -
  have "il \<in> set [IL_DISK U..<IL_PRINTER U + 1]" if "find (\<lambda>i. cau AND CAUSE_IP U i \<noteq> 0) [IL_DISK U..<IL_PRINTER U + 1] = Some il" for il
    using that by (metis find_Some_iff nth_mem)
  then have il: "IL_DISK U \<le> il" "il \<le> IL_TERMINAL U"
    using assms(2,4) by (auto simp: pending_line_def devices_ok_def split: option.splits)
  obtain n where n: "find_device_number U (CDEV_BITMAP_ADDR U il) s = Some n" "n < N_DEV_PER_IL U"
    using find_device_number_ok[OF assms(2,3) il] by blast
  have M: "sems_ok U" "lines_ok U" using assms(1) by (simp_all add: machine_ok_def)
  have dev: "n < DEVPERINT U" "DEV_IL_START U = IL_DISK U" using n(2) assms(2) by (auto simp: devices_ok_def)
  have k: "sem_index U il n False < SEMAPHORES_NUM U - 1" by (rule sem_index_bound[OF M(2) il dev(1)])
  have s: "sem n \<noteq> 0" "word_aligned (sem n)" "mem s (sem n) \<noteq> 1"
    using sem_addr_facts(1,2)[OF M(1), of "sem_index U il n False"] k assms(3,5) by (simp_all add: irq_ok_def)
  note acc = devreg_access[OF assms(2) il n(2)]
  have st: "load_word (r n + RECV_STATUS) s = Some (mem s (r n + RECV_STATUS))"
    unfolding assms(6) by (rule acc(1)) simp
  have wr: "store_word (r n + RECV_COMMAND) x t = Some (t\<lparr>mem := (mem t)(r n + RECV_COMMAND := x)\<rparr>)" for x t
    unfolding assms(6) by (rule acc(2)) simp
  have "interrupt_generic U cau s = (if mem s (r n + RECV_STATUS) AND TERMSTATMASK = DEV_STATUS_NOTINSTALLED
       then scheduler_panic ''Device is not installed!\<newline>'' s
       else kbind (V (sem n) s) (\<lambda>p s'. kbind (return_status p (mem s (r n + RECV_STATUS)) s') (\<lambda>ctrl s. do {
           s \<leftarrow> store_word (r n + RECV_COMMAND) DEV_C_ACK s;
           Some (Ret ctrl s)
         })))"
    using n(1) st get_semaphore_index[OF il] dev(2) assms(5,6)
    unfolding interrupt_generic_def Let_def pending_line_def[symmetric] assms(4)[symmetric] by simp
  from that[OF n s wr this] show thesis .
qed

lemma interrupt_generic_settled:
  assumes "kernel_ok s v" "machine_ok U" "devices_ok U" "irq_ok U s"
  shows "settled (active_process s) irq_panics (interrupt_generic U cau s)"
proof -
  define il where "il = pending_line U cau"
  define sem where "sem = (\<lambda>n. sem_addr_of U (int (sem_index U il n False)))"
  define r where "r = (\<lambda>n. devreg U (il - IL_DISK U) n)"
  have S: "sem n = sem_addr_of U (int (sem_index U il n False))" and R: "r n = devreg U (il - IL_DISK U) n" for n
    by (simp_all add: sem_def r_def)
  obtain n where n: "sem n \<noteq> 0" "word_aligned (sem n)" "mem s (sem n) \<noteq> 1"
    "\<And>x t. store_word (r n + RECV_COMMAND) x t = Some (t\<lparr>mem := (mem t)(r n + RECV_COMMAND := x)\<rparr>)"
    "interrupt_generic U cau s = (if mem s (r n + RECV_STATUS) AND TERMSTATMASK = DEV_STATUS_NOTINSTALLED
       then scheduler_panic ''Device is not installed!\<newline>'' s
       else kbind (V (sem n) s) (\<lambda>p s'. kbind (return_status p (mem s (r n + RECV_STATUS)) s') (\<lambda>ctrl s. do {
           s \<leftarrow> store_word (r n + RECV_COMMAND) DEV_C_ACK s;
           Some (Ret ctrl s)
         })))"
    by (rule interrupt_generic_steps[OF assms(2-4) il_def S R]) (rule that)
  show ?thesis
  proof (cases "mem s (r n + RECV_STATUS) AND TERMSTATMASK = DEV_STATUS_NOTINSTALLED")
    case True
    then show ?thesis unfolding n(5) by (simp add: irq_panics_def)
  next
    case False
    obtain p s' v' where V: "V (sem n) s = Some (Ret p s')" "kernel_ok s' v'" "active_process s' = active_process s"
      "p = active_process s \<or> (\<exists>t q. p = Some t \<and> waiting s v (sem n) = t # q)"
      using V_interrupt[OF assms(1) n(3,1,2)] by blast
    have "settled (active_process s') irq_panics (kbind (return_status p (mem s (r n + RECV_STATUS)) s') (\<lambda>ctrl s. do {
           s \<leftarrow> store_word (r n + RECV_COMMAND) DEV_C_ACK s;
           Some (Ret ctrl s)
         }))"
    proof (cases "p = active_process s'")
      case True
      then show ?thesis using answer_settled[OF V(2), of a a "CONTROL_RESCHEDULE s'" for a]
        by (cases "active_process s'") (simp_all add: return_status_def n(4) irq_panics_def Let_def)
    next
      case other: False
      then obtain t where "p = Some t" using V(3,4) by auto
      then show ?thesis using other answer_settled[OF V(2), of t _ "CONTROL_PRESERVE (active_process s')"]
        by (simp add: return_status_def n(4) Let_def)
    qed
    then show ?thesis using False V(1,3) unfolding n(5) by simp
  qed
qed

lemma terminal_loop_settled:
  assumes "kernel_ok s v"
    and "\<And>stat cmd sem. (stat, cmd, sem) \<in> set halves \<Longrightarrow>
      cmd \<noteq> 0 \<and> word_aligned cmd \<and> sem \<noteq> 0 \<and> word_aligned sem \<and> mem s sem \<noteq> 1"
  shows "settled (active_process s) irq_panics (terminal_loop halves s)"
  using assms(2)
proof (induction halves)
  case Nil
  then show ?case by (simp add: irq_panics_def)
next
  case (Cons x halves)
  obtain stat cmd sem where x: "x = (stat, cmd, sem)" by (cases x)
  have h: "cmd \<noteq> 0" "word_aligned cmd" "sem \<noteq> 0" "word_aligned sem" "mem s sem \<noteq> 1"
    using Cons.prems x by auto
  consider "stat AND TERMSTATMASK = DEV_STATUS_NOTINSTALLED" | (ok) "stat AND TERMSTATMASK = DEV_STATUS_TERMINAL_OK"
    | "stat AND TERMSTATMASK \<noteq> DEV_STATUS_NOTINSTALLED" "stat AND TERMSTATMASK \<noteq> DEV_STATUS_TERMINAL_OK" by blast
  then show ?case
  proof cases
    case 1
    then show ?thesis by (simp add: x irq_panics_def)
  next
    case ok
    obtain p s' v' where V: "V sem s = Some (Ret p s')" "kernel_ok s' v'" "active_process s' = active_process s"
      "p = active_process s \<or> (\<exists>t q. p = Some t \<and> waiting s v sem = t # q)"
      using V_interrupt[OF assms(1) h(5,3,4)] by blast
    have wr: "store_word cmd DEV_C_ACK t = Some (t\<lparr>mem := (mem t)(cmd := DEV_C_ACK)\<rparr>)" for t
      using h by (simp add: store_word_def)
    have "settled (active_process s') irq_panics (terminal_loop (x # halves) s)"
    proof (cases "p = active_process s'")
      case True
      then show ?thesis using ok V(1) answer_settled[OF V(2), of a a "CONTROL_RESCHEDULE s'" for a]
        by (cases "active_process s'") (simp_all add: x wr irq_panics_def Let_def)
    next
      case False
      then obtain t where "p = Some t" using V(3,4) by auto
      then show ?thesis using ok V(1) False answer_settled[OF V(2), of t _ "CONTROL_PRESERVE (active_process s')"]
        by (simp add: x wr Let_def)
    qed
    then show ?thesis using V(3) by simp
  next
    case 3
    have "settled (active_process s) irq_panics (terminal_loop halves s)"
      by (rule Cons.IH) (use Cons.prems in auto)
    then show ?thesis using 3 by (simp add: x)
  qed
qed

text \<open>A terminal's interrupt looks at its two halves, the transmitter first.\<close>

lemma interrupt_terminal_steps:
  assumes "machine_ok U" "devices_ok U" "irq_ok U s"
    and "\<And>n. r n = devreg U (IL_TERMINAL U - IL_DISK U) n" "\<And>n w. sem n w = sem_addr_of U (int (sem_index U (IL_TERMINAL U) n w))"
  obtains n where "n < N_DEV_PER_IL U" "\<And>w. sem n w \<noteq> 0 \<and> word_aligned (sem n w) \<and> mem s (sem n w) \<noteq> 1"
    "\<And>w. sem_index U (IL_TERMINAL U) n w < SEMAPHORES_NUM U - 1"
    "r n + TRANSM_COMMAND \<noteq> 0" "word_aligned (r n + TRANSM_COMMAND)" "r n + RECV_COMMAND \<noteq> 0" "word_aligned (r n + RECV_COMMAND)"
    "interrupt_terminal U s = terminal_loop [(mem s (r n + TRANSM_STATUS), r n + TRANSM_COMMAND, sem n True),
       (mem s (r n + RECV_STATUS), r n + RECV_COMMAND, sem n False)] s"
proof -
  let ?il = "IL_TERMINAL U"
  have il: "IL_DISK U \<le> ?il" "?il \<le> IL_TERMINAL U" using assms(2) by (simp_all add: devices_ok_def)
  obtain n where n: "find_device_number U (CDEV_BITMAP_ADDR U ?il) s = Some n" "n < N_DEV_PER_IL U"
    using find_device_number_ok[OF assms(2,3) il] by blast
  have M: "sems_ok U" "lines_ok U" using assms(1) by (simp_all add: machine_ok_def)
  have dev: "n < DEVPERINT U" using n(2) assms(2) by (auto simp: devices_ok_def)
  have b: "sem_index U ?il n w < SEMAPHORES_NUM U - 1" for w by (rule sem_index_bound[OF M(2) il dev])
  have sem: "sem n w \<noteq> 0 \<and> word_aligned (sem n w) \<and> mem s (sem n w) \<noteq> 1" for w
    using sem_addr_facts(1,2)[OF M(1), of "sem_index U ?il n w"] b[of w] assms(3)
    by (simp add: irq_ok_def assms(5))
  note acc = devreg_access[OF assms(2) il n(2)]
  have cmd: "r n + c \<noteq> 0 \<and> word_aligned (r n + c)" if "c \<in> {RECV_COMMAND, TRANSM_COMMAND}" for c
    using assms(2) il n(2) that unfolding devices_ok_def assms(4) by auto
  have ld: "load_word (r n + TRANSM_STATUS) s = Some (mem s (r n + TRANSM_STATUS))"
    "load_word (r n + RECV_STATUS) s = Some (mem s (r n + RECV_STATUS))" unfolding assms(4) by (rule acc(1), simp)+
  have "interrupt_terminal U s = terminal_loop [(mem s (r n + TRANSM_STATUS), r n + TRANSM_COMMAND, sem n True),
       (mem s (r n + RECV_STATUS), r n + RECV_COMMAND, sem n False)] s"
    using n(1) ld get_semaphore_index[OF il] by (simp add: interrupt_terminal_def Let_def assms(4,5) del: terminal_loop.simps)
  from that[OF n(2) sem b _ _ _ _ this] cmd show thesis by simp
qed

lemma interrupt_terminal_settled:
  assumes "kernel_ok s v" "machine_ok U" "devices_ok U" "irq_ok U s"
  shows "settled (active_process s) irq_panics (interrupt_terminal U s)"
proof -
  define r where "r = (\<lambda>n. devreg U (IL_TERMINAL U - IL_DISK U) n)"
  define sem where "sem = (\<lambda>n w. sem_addr_of U (int (sem_index U (IL_TERMINAL U) n w)))"
  have R: "r n = devreg U (IL_TERMINAL U - IL_DISK U) n" and S: "sem n w = sem_addr_of U (int (sem_index U (IL_TERMINAL U) n w))" for n w
    by (simp_all add: r_def sem_def)
  obtain n where n: "\<And>w. sem n w \<noteq> 0 \<and> word_aligned (sem n w) \<and> mem s (sem n w) \<noteq> 1"
    "r n + TRANSM_COMMAND \<noteq> 0" "word_aligned (r n + TRANSM_COMMAND)" "r n + RECV_COMMAND \<noteq> 0" "word_aligned (r n + RECV_COMMAND)"
    "interrupt_terminal U s = terminal_loop [(mem s (r n + TRANSM_STATUS), r n + TRANSM_COMMAND, sem n True),
       (mem s (r n + RECV_STATUS), r n + RECV_COMMAND, sem n False)] s"
    by (rule interrupt_terminal_steps[OF assms(2-4) R S]) (rule that)
  show ?thesis unfolding n(6) by (rule terminal_loop_settled[OF assms(1)]) (use n(1-5) in auto)
qed

text \<open>The clock: every process that waits on it wakes, in order, and its semaphore ends at 1.\<close>

lemma timer_loop_rel:
  assumes "kernel_ok s v" "k = get_timer_semaphore U" "k \<noteq> 0" "word_aligned k"
    and "mem s k \<noteq> 1 \<or> waiting s v k = []"
  shows "\<exists>s' v'. timer_loop U s = Some (Ret () s') \<and> kernel_ok s' v'
    \<and> active_process s' = active_process s \<and> mem s' = (mem s)(k := 1)
    \<and> waiting s' v' = (waiting s v)(k := [])
    \<and> v_lo v' = v_lo v @ filter (\<lambda>i. p_prio (pcb_table s i) = 0) (waiting s v k)
    \<and> v_hi v' = v_hi v @ filter (\<lambda>i. p_prio (pcb_table s i) \<noteq> 0) (waiting s v k)
    \<and> v_child v' = v_child v \<and> v_free v' = v_free v"
  using assms(1,5)
proof (induction "length (waiting s v k) + unat (1 - mem s k)" arbitrary: s v rule: less_induct)
  case less
  note K = kernel_okD[OF less(2)]
  have ld: "load_word (get_timer_semaphore U) s = Some (mem s k)" using assms(2-4) by (simp add: load_word_def)
  show ?case
  proof (cases "mem s k = 1")
    case True
    then have "waiting s v k = []" using less(3) by simp
    moreover have "timer_loop U s = Some (Ret () s)" using True ld by (subst timer_loop.simps) simp
    ultimately show ?thesis using True less(2) by (intro exI[of _ s] exI[of _ v]) (auto simp: fun_upd_idem)
  next
    case False
    note ok = sem_effect_kernel_ok[OF _ less(2)]
    have step: "timer_loop U s = (case V k s of None \<Rightarrow> None | Some (Exit e s) \<Rightarrow> Some (Exit e s) | Some (Ret _ s) \<Rightarrow> timer_loop U s)"
      using False ld assms(2) by (subst timer_loop.simps) (simp split: option.split kres.split)
    show ?thesis
    proof (cases "waiting s v k")
      case Nil
      obtain s1 where V: "V k s = Some (Ret (active_process s) s1)" "sem_effect k (mem s k + 1, []) Passes s v s1 v"
        using V_pass[OF K(1) False Nil assms(3,4)] by blast
      have ok1: "kernel_ok s1 v" by (rule ok[OF V(2)]) (use Nil in \<open>auto simp: sem_step_def\<close>)
      have E: "mem s1 k = mem s k + 1" "waiting s1 v k = []" "active_process s1 = active_process s"
        "mem s1 = (mem s)(k := mem s k + 1)" "waiting s1 v = (waiting s v)(k := [])"
        using V(2) by (simp_all add: sem_effect_def)
      have "unat (1 - mem s1 k) < unat (1 - mem s k)"
      proof -
        have "1 - mem s1 k = (1 - mem s k) - 1" using E(1) by simp
        moreover have "1 - mem s k \<noteq> 0" using False by simp
        ultimately show ?thesis by (metis word_less_nat_alt word_less_1 measure_unat)
      qed
      then have "length (waiting s1 v k) + unat (1 - mem s1 k) < length (waiting s v k) + unat (1 - mem s k)"
        using E(2) Nil by simp
      from less(1)[OF this ok1] E(2) obtain s' v' where s': "timer_loop U s1 = Some (Ret () s')" "kernel_ok s' v'"
        "active_process s' = active_process s1" "mem s' = (mem s1)(k := 1)" "waiting s' v' = (waiting s1 v)(k := [])"
        "v_lo v' = v_lo v" "v_hi v' = v_hi v" "v_child v' = v_child v" "v_free v' = v_free v" by auto
      have "timer_loop U s = Some (Ret () s')" using step V(1) s'(1) by simp
      then show ?thesis using s' E Nil by (intro exI[of _ s'] exI[of _ v']) simp
    next
      case (Cons t q)
      obtain s1 v1 where V: "V k s = Some (Ret (Some t) s1)" "sem_effect k (mem s k, q) (Wakes t) s v s1 v1"
        using V_wake[OF K(1) False Cons] by blast
      have ok1: "kernel_ok s1 v1" by (rule ok[OF V(2)]) (use Cons in \<open>auto simp: sem_step_def\<close>)
      have E: "mem s1 = mem s" "waiting s1 v1 = (waiting s v)(k := q)" "active_process s1 = active_process s"
        "v_lo v1 = v_lo (enqueue_view t s v)" "v_hi v1 = v_hi (enqueue_view t s v)" "v_child v1 = v_child v" "v_free v1 = v_free v"
        "\<And>i. p_prio (pcb_table s1 i) = p_prio (pcb_table s i)"
        using V(2) sem_effect_pcb(1)[OF V(2)] by (auto simp: sem_effect_def woken_def requeue_def fun_upd_idem)
      have "length (waiting s1 v1 k) + unat (1 - mem s1 k) < length (waiting s v k) + unat (1 - mem s k)"
        using E(1,2) Cons by simp
      from less(1)[OF this ok1] E(1) False obtain s' v' where s': "timer_loop U s1 = Some (Ret () s')" "kernel_ok s' v'"
        "active_process s' = active_process s1" "mem s' = (mem s1)(k := 1)" "waiting s' v' = (waiting s1 v1)(k := [])"
        "v_lo v' = v_lo v1 @ filter (\<lambda>i. p_prio (pcb_table s1 i) = 0) (waiting s1 v1 k)"
        "v_hi v' = v_hi v1 @ filter (\<lambda>i. p_prio (pcb_table s1 i) \<noteq> 0) (waiting s1 v1 k)"
        "v_child v' = v_child v1" "v_free v' = v_free v1" by auto
      have "timer_loop U s = Some (Ret () s')" using step V(1) s'(1) by simp
      then show ?thesis using s' E Cons
        by (intro exI[of _ s'] exI[of _ v']) (simp add: enqueue_view_queues)
    qed
  qed
qed

text \<open>The loop ends in any case: if the clock's semaphore is 1 at once.\<close>

lemma interrupt_timer_settled:
  assumes "kernel_ok s v" "machine_ok U"
  shows "settled (active_process s) M (interrupt_timer U s)"
proof -
  let ?s = "reset_timer s" and ?k = "get_timer_semaphore U"
  have M: "sems_ok U" using assms(2) by (simp add: machine_ok_def)
  have ok: "kernel_ok ?s v"
    by (rule kernel_ok_same[OF assms(1)]) (simp_all add: same_kernel_def reset_timer_def load_interval_timer_def)
  have a: "active_process ?s = active_process s" by (simp add: reset_timer_def load_interval_timer_def)
  obtain s' v' where t: "timer_loop U ?s = Some (Ret () s')" "kernel_ok s' v'" "active_process s' = active_process s"
  proof (cases "mem ?s ?k = 1")
    case True
    then have "timer_loop U ?s = Some (Ret () ?s)"
      using timer_semaphore_facts[OF M] by (subst timer_loop.simps) (simp add: load_word_def)
    then show thesis using ok a that by blast
  next
    case False
    then show thesis using timer_loop_rel[OF ok refl timer_semaphore_facts[OF M]] a that by metis
  qed
  then show ?thesis using kernel_ok_settled[OF t(2), of "active_process s" "CONTROL_PRESERVE (active_process s)"]
    by (simp add: interrupt_timer_def)
qed

lemma interrupt_handler_settled:
  assumes "kernel_ok s v" "machine_ok U" "devices_ok U" "irq_ok U s"
  shows "settled (active_process s) irq_panics (interrupt_handler U cau s)"
proof -
  have keep: "settled (active_process s) irq_panics (Some (Ret (CONTROL_RESCHEDULE s) s))"
    "settled (active_process s) irq_panics (interrupt_ipi s)"
    using kernel_ok_settled[OF assms(1) refl] by (simp_all add: interrupt_ipi_def)
  have a: "active_process (reset_local_timer s) = active_process s"
    by (simp add: reset_local_timer_def load_local_timer_def)
  have "kernel_ok (reset_local_timer s) v"
    by (rule kernel_ok_same[OF assms(1)]) (simp_all add: same_kernel_def reset_local_timer_def load_local_timer_def)
  then have "settled (active_process s) irq_panics (interrupt_local_timer s)"
    using kernel_ok_settled[of "reset_local_timer s" v, OF _ a[symmetric]] by (simp add: interrupt_local_timer_def Let_def)
  then show ?thesis unfolding interrupt_handler_def
    by (intro settled_if keep interrupt_timer_settled[OF assms(1,2)] interrupt_generic_settled[OF assms]
        interrupt_terminal_settled[OF assms])
qed

section \<open>The exception handler\<close>

definition exception_ok :: "umps \<Rightarrow> kstate \<Rightarrow> bool" where
  "exception_ok U s \<longleftrightarrow> (CAUSE_GET_EXCCODE U (cp0_cause s) = 0 \<longrightarrow> irq_ok U s)
     \<and> (CAUSE_GET_EXCCODE U (cp0_cause s) = 8 \<longrightarrow> syscall_args_ok (states s BIOSDATAPAGE))"

definition kernel_panics :: "string set" where
  "kernel_panics = io_panics \<union> irq_panics \<union> {''A syscall happened while active_process was NULL\<newline>''}"

lemma charge_same:
  "same_kernel s (charge a s)" "active_process (charge a s) = active_process s"
  "yield_process (charge a s) = yield_process s" "cp0_cause (charge a s) = cp0_cause s"
  "mem (charge a s) = mem s" "states (charge a s) = states s"
  by (auto simp: charge_def store_tod_def same_kernel_def Let_def upd_pcb_def)

lemma system_call_entry:
  assumes "CAUSE_GET_EXCCODE U (cp0_cause s) = 8" "active_process s = Some a"
  obtains t where "same_kernel s t" "active_process t = active_process s" "yield_process t = yield_process s"
    "mem t = mem s" "pcb_table t = pcb_table s"
    "handle_exception U s = kbind (syscall_handler U t) (\<lambda>ctrl s.
       (case active_process s of None \<Rightarrow> None
        | Some a \<Rightarrow> Some (Ret ctrl (after_syscall U a s))))"
proof -
  obtain tod t where t: "store_tod s = (tod, t)" by (cases "store_tod s")
  show thesis
    by (rule that[of "t\<lparr>start_tod := tod\<rparr>"])
      (use assms t in \<open>auto simp: store_tod_def same_kernel_def handle_exception_def Let_def\<close>)
qed

lemma handle_exception_settled:
  assumes "kernel_ok s v" "machine_ok U" "devices_ok U" "exception_ok U s"
    and "\<And>a. active_process s = Some a \<Longrightarrow> p_s (pcb_table s a) = states s BIOSDATAPAGE"
  shows "settled (active_process s) kernel_panics (handle_exception U s)"
proof -
  let ?code = "CAUSE_GET_EXCCODE U (cp0_cause s)"
  have sub: "io_panics \<subseteq> kernel_panics" "irq_panics \<subseteq> kernel_panics" by (auto simp: kernel_panics_def)
  consider (irq) "?code = 0" | (tlb) "?code = 1 \<or> ?code = 2 \<or> ?code = 3" | (sys) "?code = 8"
    | (other) "?code \<noteq> 0" "?code \<noteq> 1" "?code \<noteq> 2" "?code \<noteq> 3" "?code \<noteq> 8" by blast
  then show ?thesis
  proof cases
    case irq
    then have "irq_ok U s" using assms(4) by (simp add: exception_ok_def)
    from settled_mono[OF interrupt_handler_settled[OF assms(1-3) this] sub(2)] irq
    show ?thesis by (simp add: handle_exception_def)
  next
    case tlb
    then have "handle_exception U s = pass_up_or_die PGFAULTEXCEPT s" by (auto simp: handle_exception_def Let_def)
    then show ?thesis using pass_up_or_die_settled[OF assms(1)] by simp
  next
    case sys
    show ?thesis
    proof (cases "active_process s")
      case None
      then show ?thesis using sys by (simp add: handle_exception_def kernel_panics_def)
    next
      case (Some a)
      obtain t where t: "same_kernel s t" "active_process t = active_process s" "yield_process t = yield_process s"
        "mem t = mem s" "pcb_table t = pcb_table s"
        and eq: "handle_exception U s = kbind (syscall_handler U t) (\<lambda>ctrl s.
              (case active_process s of None \<Rightarrow> None
               | Some a \<Rightarrow> Some (Ret ctrl (after_syscall U a s))))"
        by (rule system_call_entry[OF sys Some]) (rule that)
      have ok: "kernel_ok t v" by (rule kernel_ok_same[OF assms(1) t(1-3)])
      have "syscall_args_ok (p_s (pcb_table t a))" using assms(4) assms(5)[OF Some] sys t(5)
        by (simp add: exception_ok_def)
      from syscall_handler_settled[OF ok _ this assms(2)] t(2) Some
      have h: "settled (Some a) io_panics (syscall_handler U t)" by simp
      show ?thesis
      proof (cases "\<exists>ctrl s'. syscall_handler U t = Some (Ret ctrl s')")
        case True
        then obtain ctrl s' where r: "syscall_handler U t = Some (Ret ctrl s')" by blast
        have a': "active_process s' = Some a" using h r by (simp add: settled_def)
        have "same_kernel s' (after_syscall U a s')" "active_process (after_syscall U a s') = active_process s'"
          "yield_process (after_syscall U a s') = yield_process s'"
          using charge_same(1-3)[where a = a and s = s'] by (auto simp: after_syscall_def same_kernel_def)
        from settled_same[OF h[unfolded r] this] show ?thesis
          using eq r a' Some settled_mono[OF _ sub(1)] by simp
      next
        case False
        then have "handle_exception U s = (case syscall_handler U t of Some (Exit e s) \<Rightarrow> Some (Exit e s) | _ \<Rightarrow> None)"
          unfolding eq by (auto simp: kbind_def split: option.split kres.split)
        with h False Some sub(1) show ?thesis
          by (auto simp: settled_def split: option.splits kres.splits kexit.splits)
      qed
    qed
  next
    case other
    have "fmt_ok ''EXCP %d\<newline>'' [ArgInt (?code + 1)]" by simp
    from kernel_ok_kprintf[OF assms(1) this] obtain out where
      o: "pandos_kprintf ''EXCP %d\<newline>'' [ArgInt (?code + 1)] s = Some (s\<lparr>kstdout := out\<rparr>)" "kernel_ok (s\<lparr>kstdout := out\<rparr>) v"
      by blast
    from other o(1) have "handle_exception U s = pass_up_or_die GENERALEXCEPT (s\<lparr>kstdout := out\<rparr>)"
      by (simp add: handle_exception_def)
    then show ?thesis using pass_up_or_die_settled[OF o(2)] by simp
  qed
qed

text \<open>
  How the exception handler may leave the nucleus: it resumes a process, jumps to the support
  level, waits for an interrupt that some process needs, halts because no process is left, or
  panics with one of the given messages. It never returns and never gets stuck.
\<close>

definition leaves_ok :: "string set \<Rightarrow> unit kres option \<Rightarrow> bool" where
  "leaves_ok M m \<longleftrightarrow> (case m of
     None \<Rightarrow> False
   | Some (Ret _ s) \<Rightarrow> False
   | Some (Exit (LDST st) s) \<Rightarrow>
       (\<exists>v i. kernel_ok s v \<and> active_process s = Some i \<and> st = p_s (pcb_table s i))
   | Some (Exit (LDCXT c) s) \<Rightarrow> \<exists>v. kernel_ok s v \<and> active_process s \<noteq> None
   | Some (Exit WAIT s) \<Rightarrow> \<exists>v. kernel_ok s v \<and> active_process s = None \<and> (\<exists>i. blocked v i)
   | Some (Exit HALT s) \<Rightarrow> \<exists>v. sched_inv s v \<and> (\<forall>i. \<not> live v i)
   | Some (Exit (PANIC msg) s) \<Rightarrow> msg \<in> M)"

lemma schedule_leaves:
  assumes "sched_inv s v" "handover pcb s v" "no_lost pcb s v"
  shows "leaves_ok {} (schedule U pcb enqueue s)"
proof (cases "pick pcb enqueue (yield_process s) (requeue (caller_queue pcb enqueue) s v)")
  case None
  have n: "pcb = None" "v_hi v = []" "v_lo v = []" "yield_process s = None"
    using None by (cases pcb; auto simp: pick_def requeue_def caller_queue_def enqueue_view_queues
        split: if_splits list.splits option.splits)+
  have lb: "blocked v i" if "live v i" for i
    using assms(3) n that by (auto simp: no_lost_def queued_def live_def)
  show ?thesis
  proof (cases "{i. live v i} = {}")
    case True
    then show ?thesis using schedule_idle[OF assms(1,2) None] assms(1) by (auto simp: leaves_ok_def)
  next
    case False
    then have b: "{i. blocked v i} \<noteq> {}" using lb by auto
    obtain s' where w: "scheduler_wait U s = Some (Exit WAIT s')" "same_kernel s s'" "active_process s' = None"
      "yield_process s' = None"
      using n(4) by (auto simp: scheduler_wait_def Let_def same_kernel_def reset_timer_def load_interval_timer_def)
    have "kernel_ok s' v"
      using assms(1,3) same_kernel_inv(3)[OF w(2)] w(3,4) n by (simp add: kernel_ok_def no_lost_def)
    moreover have "schedule U pcb enqueue s = Some (Exit WAIT s')"
      using schedule_idle[OF assms(1,2) None] False b w(1) by simp
    ultimately show ?thesis using w(3) b by (auto simp: leaves_ok_def)
  qed
next
  case (Some x)
  obtain j w y where x: "pick pcb enqueue (yield_process s) (requeue (caller_queue pcb enqueue) s v) = Some (j, w, y)"
    using Some by (cases x) auto
  obtain s' where s': "schedule U pcb enqueue s = Some (Exit (LDST (p_s (pcb_table s' j))) s')"
    "active_process s' = Some j" "yield_process s' = None" "sched_inv s' (requeue y s w)"
    "off_lists (requeue y s w) j" "live (requeue y s w) = live v"
    "\<forall>k. queued (requeue y s w) k \<longleftrightarrow> (queued v k \<or> pcb = Some k \<or> yield_process s = Some k) \<and> k \<noteq> j"
    using schedule_dispatch[OF assms(1,2) x] by blast
  have "kernel_ok s' (requeue y s w)"
    using s'(2-7) assms(3) by (auto simp: kernel_ok_def no_lost_def)
  then show ?thesis using s'(1,2) by (auto simp: leaves_ok_def)
qed

lemma leaves_ok_mono: "leaves_ok M m \<Longrightarrow> M \<subseteq> N \<Longrightarrow> leaves_ok N m"
  by (auto simp: leaves_ok_def split: option.splits kres.splits kexit.splits)

text \<open>What the handler does before it looks at the exception: it charges the process and keeps its state.\<close>

lemma exception_entry:
  obtains s2 where "same_kernel s s2" "active_process s2 = active_process s" "yield_process s2 = yield_process s"
    "mem s2 = mem s" "cp0_cause s2 = cp0_cause s" "states s2 = states s"
    "\<And>a. active_process s = Some a \<Longrightarrow> p_s (pcb_table s2 a) = states s BIOSDATAPAGE"
    "exception_handler U s
      = kbind (handle_exception U s2) (\<lambda>ctrl s. schedule U (ctrl_pcb ctrl) (ctrl_enqueue ctrl) s)"
proof -
  let ?s1 = "case active_process s of None \<Rightarrow> s | Some a \<Rightarrow> charge a s"
  let ?s2 = "case active_process ?s1 of None \<Rightarrow> ?s1 | Some a \<Rightarrow> upd_pcb a (\<lambda>p. p\<lparr>p_s := states ?s1 BIOSDATAPAGE\<rparr>) ?s1"
  show thesis
    by (rule that[of ?s2]) (use charge_same[where s = s] in
      \<open>auto split: option.splits simp: same_kernel_def upd_pcb_def exception_handler_def Let_def\<close>)
qed

lemma exception_handler_leaves:
  assumes "kernel_ok s v" "machine_ok U" "devices_ok U"
    and "exception_ok U s"
  shows "leaves_ok kernel_panics (exception_handler U s)"
proof -
  obtain s2 where same: "same_kernel s s2" "active_process s2 = active_process s" "yield_process s2 = yield_process s"
    and m: "mem s2 = mem s" "cp0_cause s2 = cp0_cause s" "states s2 = states s"
    and p: "\<And>a. active_process s = Some a \<Longrightarrow> p_s (pcb_table s2 a) = states s BIOSDATAPAGE"
    and eq: "exception_handler U s
      = kbind (handle_exception U s2) (\<lambda>ctrl s. schedule U (ctrl_pcb ctrl) (ctrl_enqueue ctrl) s)"
    by (rule exception_entry[where s = s and U = U]) (rule that)
  note ok = kernel_ok_same[OF assms(1) same]
  have "exception_ok U s2" using assms(4) m by (simp add: exception_ok_def irq_ok_def)
  then have h: "settled (active_process s2) kernel_panics (handle_exception U s2)"
    by (rule handle_exception_settled[OF ok assms(2,3)]) (use p same(2) m(3) in simp)
  show ?thesis
  proof (cases "\<exists>ctrl s'. handle_exception U s2 = Some (Ret ctrl s')")
    case True
    then obtain ctrl s' where r: "handle_exception U s2 = Some (Ret ctrl s')" by blast
    then obtain v' where "sched_inv s' v'" "handover (ctrl_pcb ctrl) s' v'" "no_lost (ctrl_pcb ctrl) s' v'"
      using h by (auto simp: settled_def)
    from leaves_ok_mono[OF schedule_leaves[OF this]] show ?thesis unfolding eq r by simp
  next
    case False
    then have "exception_handler U s = (case handle_exception U s2 of Some (Exit e s) \<Rightarrow> Some (Exit e s) | _ \<Rightarrow> None)"
      unfolding eq by (auto simp: kbind_def split: option.split kres.split)
    with h False show ?thesis
      by (auto simp: settled_def leaves_ok_def split: option.splits kres.splits kexit.splits)
  qed
qed

section \<open>The machine\<close>

text \<open>
  What may happen between two exceptions, while processes run or the processor waits: processes and
  devices change memory, the processor saves its state and sets its registers, time passes. The
  kernel's own structures are not touched.
\<close>

definition outside :: "kstate \<Rightarrow> kstate \<Rightarrow> bool" where
  "outside s t \<longleftrightarrow> lh t = lh s \<and> pcb_table t = pcb_table s \<and> semd_table t = semd_table s
     \<and> process_count t = process_count s \<and> softblock_count t = softblock_count s
     \<and> active_process t = active_process s \<and> yield_process t = yield_process s
     \<and> start_tod t = start_tod s \<and> recycle_count t = recycle_count s
     \<and> passupvector t = passupvector s \<and> kstdout t = kstdout s"

fun resumes :: "kexit \<Rightarrow> bool" where
  "resumes (LDST _) = True"
| "resumes (LDCXT _) = True"
| "resumes WAIT = True"
| "resumes HALT = False"
| "resumes (PANIC _) = False"

text \<open>The states in which the nucleus leaves the processor, from the moment \<^verbatim>\<open>main\<close> runs the first process.\<close>

inductive reachable :: "umps \<Rightarrow> kstate \<Rightarrow> bool" for U :: umps where
  start: "bss s0 \<Longrightarrow> main U tlb exc pc s0 = Some (Exit e s) \<Longrightarrow> reachable U s"
| exception: "reachable U s \<Longrightarrow> outside s t \<Longrightarrow> exception_ok U t \<Longrightarrow>
    exception_handler U t = Some (Exit e s') \<Longrightarrow> resumes e \<Longrightarrow> reachable U s'"

lemma kernel_ok_outside:
  assumes "kernel_ok s v" "outside s t"
  shows "kernel_ok t v"
  by (rule kernel_ok_same[OF assms(1)]) (use assms(2) in \<open>simp_all add: outside_def same_kernel_def\<close>)

lemma leaves_ok_resumes:
  assumes "leaves_ok M (Some (Exit e s))" "resumes e"
  shows "\<exists>v. kernel_ok s v"
  using assms by (cases e) (auto simp: leaves_ok_def)

lemma main_kernel_ok:
  assumes "bss s" "sems_ok U"
  shows "\<exists>st s'. main U a b pc s = Some (Exit (LDST st) s') \<and> kernel_ok s' view2"
proof -
  obtain st s' where m: "main U a b pc s = Some (Exit (LDST st) s')" "active_process s' = Some (MAX_PROC - 1)"
    "yield_process s' = None" "sched_inv s' view2" "off_lists view2 (MAX_PROC - 1)"
    using main_rel[OF assms] by blast
  then have "kernel_ok s' view2" by (simp add: kernel_ok_def no_lost_def view2_live)
  with m(1) show ?thesis by blast
qed

lemma reachable_kernel_ok:
  assumes "reachable U s" "machine_ok U" "devices_ok U"
  shows "\<exists>v. kernel_ok s v"
  using assms(1)
proof (induction rule: reachable.induct)
  case (start s0 tlb exc pc e s)
  then show ?case using main_kernel_ok[OF start(1), of U tlb exc pc] assms(2) by (auto simp: machine_ok_def)
next
  case (exception s t e s')
  then obtain v where "kernel_ok t v" using kernel_ok_outside by blast
  from exception_handler_leaves[OF this assms(2,3) exception(3)] show ?case
    using exception(4,5) leaves_ok_resumes by metis
qed

end
