(* ===== verification/Behaviour.thy ===== *)
theory Behaviour
  imports Safety
begin

text \<open>
  What the single system calls and interrupt handlers do, on the branches that matter: input and
  output, the clock, yielding, termination, passing an exception up, and the interrupts nobody
  waits for.
\<close>

section \<open>What the nucleus keeps for a process\<close>

text \<open>
  A call may change lists, semaphores and registers; the support structures, and which of them
  belongs to which process, it leaves alone.
\<close>

definition same_supports :: "kstate \<Rightarrow> kstate \<Rightarrow> bool" where
  "same_supports s s' \<longleftrightarrow> supports s' = supports s
     \<and> (\<forall>i. p_support (pcb_table s' i) = p_support (pcb_table s i) \<and> p_prio (pcb_table s' i) = p_prio (pcb_table s i))"

lemma same_supports_updates [simp]:
  "same_supports s s" "same_supports s (t\<lparr>mem := m\<rparr>) = same_supports s t"
  "same_supports s (set_reg i r x t) = same_supports s t"
  by (auto simp: same_supports_def set_reg_def)

lemma same_supports_trans [trans]: "same_supports s t \<Longrightarrow> same_supports t u \<Longrightarrow> same_supports s u"
  by (simp add: same_supports_def)

lemma sem_effect_same_supports:
  assumes "sem_effect k xq r s v s' v'"
  shows "same_supports s s'"
  using sem_effect_pcb[OF assms] assms by (simp add: same_supports_def sem_effect_def same_env_def)

section \<open>Input and output\<close>

lemma do_io_unfold:
  assumes "active_process s = Some a" "get_reg a reg_a1 s \<noteq> 0" "get_iodev U (get_reg a reg_a1 s) s = Some (Ret dev s)"
    and "kernel_ok s v" "semaphore dev \<noteq> 0" "word_aligned (semaphore dev)"
  shows "waiting s v (semaphore dev) \<noteq> [] \<Longrightarrow> syscall_do_io U a s = pass_up_or_die GENERALEXCEPT s"
    and "waiting s v (semaphore dev) = [] \<Longrightarrow> sint (mem s (semaphore dev)) > 0 \<Longrightarrow>
      syscall_do_io U a s = scheduler_panic ''A device syncronization semaphore has a value > 0'' s"
    and "waiting s v (semaphore dev) = [] \<Longrightarrow> sint (mem s (semaphore dev)) \<le> 0 \<Longrightarrow>
      syscall_do_io U a s = kbind (P (semaphore dev) (Some a) s) (\<lambda>ctrl t. do {
        t \<leftarrow> store_word (get_reg a reg_a1 s) (get_reg a reg_a2 s)
          (if p_prio (pcb_table t a) \<noteq> 0
           then upd_pcb a (\<lambda>p. p\<lparr>p_s := (p_s p)\<lparr>status :=
             status_il_on U (nat (interrupt_line dev)) (status (p_s p))\<rparr>\<rparr>) t
           else upd_pcb a (\<lambda>p. p\<lparr>p_s := (p_s p)\<lparr>status := status_il_on_all U (status (p_s p))\<rparr>\<rparr>) t);
        Some (Ret ctrl t)
      })"
proof -
  have hb: "head_blocked (semaphore dev) s
      = Some (case waiting s v (semaphore dev) of [] \<Rightarrow> None | i # _ \<Rightarrow> Some i)"
    using head_blocked_rel[OF sched_invD(1)[OF kernel_okD(1)[OF assms(4)]]] assms(6) by blast
  have ld: "load_word (semaphore dev) s = Some (mem s (semaphore dev))" using assms(5,6) by (simp add: load_word_def)
  note S = syscall_do_io_def assms(1-3,5) hb ld
  show "syscall_do_io U a s = pass_up_or_die GENERALEXCEPT s" if "waiting s v (semaphore dev) \<noteq> []"
    using that by (simp add: S split: list.splits)
  show "syscall_do_io U a s = scheduler_panic ''A device syncronization semaphore has a value > 0'' s"
    if "waiting s v (semaphore dev) = []" "sint (mem s (semaphore dev)) > 0"
    using that by (simp add: S)
  assume "waiting s v (semaphore dev) = []" "sint (mem s (semaphore dev)) \<le> 0"
  then show "syscall_do_io U a s = kbind (P (semaphore dev) (Some a) s) (\<lambda>ctrl t. do {
        t \<leftarrow> store_word (get_reg a reg_a1 s) (get_reg a reg_a2 s)
          (if p_prio (pcb_table t a) \<noteq> 0
           then upd_pcb a (\<lambda>p. p\<lparr>p_s := (p_s p)\<lparr>status :=
             status_il_on U (nat (interrupt_line dev)) (status (p_s p))\<rparr>\<rparr>) t
           else upd_pcb a (\<lambda>p. p\<lparr>p_s := (p_s p)\<lparr>status := status_il_on_all U (status (p_s p))\<rparr>\<rparr>) t);
        Some (Ret ctrl t)
      })" by (simp add: S cong: if_cong)
qed

text \<open>A request starts: the command is written and the caller waits for the device.\<close>

lemma do_io_blocks:
  assumes "kernel_ok s v" "active_process s = Some a" "get_reg a reg_a1 s \<noteq> 0" "word_aligned (get_reg a reg_a1 s)"
    and "get_iodev U (get_reg a reg_a1 s) s = Some (Ret dev s)"
    and "semaphore dev \<noteq> 0" "word_aligned (semaphore dev)"
    and "waiting s v (semaphore dev) = []" "mem s (semaphore dev) = 0"
  shows "\<exists>s' v'. syscall_do_io U a s = Some (Ret CONTROL_BLOCK s') \<and> sched_inv s' v'
    \<and> waiting s' v' = (waiting s v)(semaphore dev := [a])
    \<and> mem s' = (mem s)(get_reg a reg_a1 s := get_reg a reg_a2 s)
    \<and> v_lo v' = v_lo v \<and> v_hi v' = v_hi v \<and> same_supports s s'
    \<and> active_process s' = Some a \<and> yield_process s' = None \<and> no_lost None s' v'"
proof -
  note K = kernel_okD[OF assms(1)]
  have "sem_P a (mem s (semaphore dev), waiting s v (semaphore dev)) = ((0, [a]), Blocks)"
    using assms(8,9) by (simp add: sem_P_def)
  from P_refines[OF K(1) K(3)[OF assms(2)] assms(6,7) this]
  obtain s1 v1 where P: "P (semaphore dev) (Some a) s = Some (Ret CONTROL_BLOCK s1)"
    "sem_effect (semaphore dev) (0, [a]) Blocks s v s1 v1" by auto
  have E: "sched_inv s1 v1" "mem s1 = mem s" "waiting s1 v1 = (waiting s v)(semaphore dev := [a])"
    "v_lo v1 = v_lo v" "v_hi v1 = v_hi v"
    using P(2) assms(9) by (auto simp: sem_effect_def woken_def requeue_def fun_upd_idem)
  have L: "same_supports s s1" "active_process s1 = Some a" "yield_process s1 = None" "no_lost None s1 v1"
    using sem_effect_same_supports[OF P(2)] P(2) assms(2) K(2)
      sem_effect_lists(4)[OF P(2) K(1), of a "Some a"] K(4) assms(8)
    by (auto simp: sem_effect_def sem_step_def)
  define s2 where "s2 = (if p_prio (pcb_table s1 a) \<noteq> 0
      then upd_pcb a (\<lambda>p. p\<lparr>p_s := (p_s p)\<lparr>status := status_il_on U (nat (interrupt_line dev)) (status (p_s p))\<rparr>\<rparr>) s1
      else upd_pcb a (\<lambda>p. p\<lparr>p_s := (p_s p)\<lparr>status := status_il_on_all U (status (p_s p))\<rparr>\<rparr>) s1)"
  let ?s3 = "s2\<lparr>mem := (mem s2)(get_reg a reg_a1 s := get_reg a reg_a2 s)\<rparr>"
  have "syscall_do_io U a s = Some (Ret CONTROL_BLOCK ?s3)"
    using do_io_unfold(3)[OF assms(2,3,5,1,6,7,8)] assms(3,4,9) P(1)
    by (simp add: s2_def store_word_def cong: if_cong)
  moreover have "same_kernel s1 ?s3" by (simp add: s2_def same_kernel_def)
  then have "sched_inv ?s3 v1" "waiting ?s3 v1 = waiting s1 v1" using same_kernel_inv E(1) by simp_all
  moreover have "mem ?s3 = (mem s)(get_reg a reg_a1 s := get_reg a reg_a2 s)" using E(2) by (simp add: s2_def)
  moreover have "same_supports s ?s3" "active_process ?s3 = Some a" "yield_process ?s3 = None" "no_lost None ?s3 v1"
    using L by (auto simp: s2_def same_supports_def no_lost_def)
  ultimately show ?thesis using E(3-5) by (intro exI[of _ ?s3] exI[of _ v1]) simp
qed

section \<open>Device interrupts\<close>

text \<open>The process that waits for the device gets its status and is ready again.\<close>

lemma interrupt_generic_served:
  assumes "kernel_ok s v" "machine_ok U" "devices_ok U" "irq_ok U s"
    and "il = pending_line U cau" "find_device_number U (CDEV_BITMAP_ADDR U il) s = Some n"
    and "sem = sem_addr_of U (int (sem_index U il n False))" "r = devreg U (il - IL_DISK U) n"
    and "mem s (r + RECV_STATUS) AND TERMSTATMASK \<noteq> DEV_STATUS_NOTINSTALLED" "waiting s v sem = t # q"
  shows "\<exists>s' v'. interrupt_generic U cau s = Some (Ret (CONTROL_PRESERVE (active_process s)) s')
    \<and> kernel_ok s' v' \<and> waiting s' v' = (waiting s v)(sem := q)
    \<and> v_lo v' = (if p_prio (pcb_table s t) = 0 then v_lo v @ [t] else v_lo v)
    \<and> v_hi v' = (if p_prio (pcb_table s t) = 0 then v_hi v else v_hi v @ [t])
    \<and> get_reg t reg_v0 s' = mem s (r + RECV_STATUS)
    \<and> mem s' = (mem s)(r + RECV_COMMAND := DEV_C_ACK)
    \<and> active_process s' = active_process s \<and> same_supports s s'"
proof -
  note K = kernel_okD[OF assms(1)]
  define sm where "sm = (\<lambda>n. sem_addr_of U (int (sem_index U il n False)))"
  define rg where "rg = (\<lambda>n. devreg U (il - IL_DISK U) n)"
  have S: "sm n = sem_addr_of U (int (sem_index U il n False))" and R: "rg n = devreg U (il - IL_DISK U) n" for n
    by (simp_all add: sm_def rg_def)
  obtain m where m: "find_device_number U (CDEV_BITMAP_ADDR U il) s = Some m" "mem s (sm m) \<noteq> 1"
    "\<And>x t. store_word (rg m + RECV_COMMAND) x t = Some (t\<lparr>mem := (mem t)(rg m + RECV_COMMAND := x)\<rparr>)"
    "interrupt_generic U cau s = (if mem s (rg m + RECV_STATUS) AND TERMSTATMASK = DEV_STATUS_NOTINSTALLED
       then scheduler_panic ''Device is not installed!\<newline>'' s
       else kbind (V (sm m) s) (\<lambda>p s'. kbind (return_status p (mem s (rg m + RECV_STATUS)) s') (\<lambda>ctrl s. do {
           s \<leftarrow> store_word (rg m + RECV_COMMAND) DEV_C_ACK s;
           Some (Ret ctrl s)
         })))"
    by (rule interrupt_generic_steps[OF assms(2-5) S R]) (rule that)
  have eq: "m = n" "sm n = sem" "rg n = r" using m(1) assms(6-8) by (simp_all add: S R)
  note m = m(2-4)[unfolded eq]
  obtain s1 v1 where V: "V sem s = Some (Ret (Some t) s1)" "sem_effect sem (mem s sem, q) (Wakes t) s v s1 v1"
    using V_wake[OF K(1) m(1) assms(10)] by blast
  have ok1: "kernel_ok s1 v1"
    by (rule sem_effect_kernel_ok[OF V(2) assms(1)]) (use assms(10) in \<open>auto simp: sem_step_def\<close>)
  have ta: "active_process s \<noteq> Some t"
  proof
    assume "active_process s = Some t"
    then have "\<not> queued v t" using K(3) by (simp add: off_lists_def)
    then show False using waiting_sem_add(1)[OF sched_invD(1)[OF K(1)], of t sem] assms(10) by (simp add: queued_def)
  qed
  have E: "active_process s1 = active_process s" "mem s1 = mem s" "waiting s1 v1 = (waiting s v)(sem := q)"
    "v_lo v1 = v_lo (enqueue_view t s v)" "v_hi v1 = v_hi (enqueue_view t s v)"
    using V(2) by (auto simp: sem_effect_def woken_def requeue_def fun_upd_idem)
  let ?s2 = "set_reg t reg_v0 (mem s (r + RECV_STATUS)) s1"
  let ?s3 = "?s2\<lparr>mem := (mem ?s2)(r + RECV_COMMAND := DEV_C_ACK)\<rparr>"
  have "interrupt_generic U cau s = Some (Ret (CONTROL_PRESERVE (active_process s)) ?s3)"
    unfolding m(3) using assms(9) V(1) ta E(1) m(2) by (simp add: return_status_def Let_def)
  moreover have "kernel_ok ?s3 v1" by (rule kernel_ok_mem[OF kernel_ok_set_reg[OF ok1]])
  moreover have "same_kernel s1 ?s3" by (simp add: same_kernel_def set_reg_def)
  then have "waiting ?s3 v1 = waiting s1 v1" by (rule same_kernel_inv(2))
  moreover have "get_reg t reg_v0 ?s3 = mem s (r + RECV_STATUS)" by (simp add: get_reg_def set_reg_def)
  moreover have "mem ?s3 = (mem s)(r + RECV_COMMAND := DEV_C_ACK)" using E(2) by simp
  moreover have "active_process ?s3 = active_process s" using E(1) by simp
  moreover have "same_supports s ?s3" using sem_effect_same_supports[OF V(2)] by simp
  ultimately show ?thesis using E(3-5) unfolding enqueue_view_queues by (intro exI[of _ ?s3] exI[of _ v1]) simp
qed

text \<open>
  If nobody waits for the device (its process was killed, say) and a process is running, that
  process gets the status, and the semaphore of the device is left at 1.
\<close>

lemma interrupt_generic_unclaimed:
  assumes "kernel_ok s v" "machine_ok U" "devices_ok U" "irq_ok U s"
    and "il = pending_line U cau" "find_device_number U (CDEV_BITMAP_ADDR U il) s = Some n"
    and "sem = sem_addr_of U (int (sem_index U il n False))" "r = devreg U (il - IL_DISK U) n"
    and "mem s (r + RECV_STATUS) AND TERMSTATMASK \<noteq> DEV_STATUS_NOTINSTALLED" "waiting s v sem = []"
    and "active_process s = Some a" "sem \<noteq> r + RECV_COMMAND" "mem s sem = 0"
  shows "\<exists>s'. interrupt_generic U cau s = Some (Ret (CONTROL_RESCHEDULE s) s')
    \<and> kernel_ok s' v \<and> get_reg a reg_v0 s' = mem s (r + RECV_STATUS) \<and> mem s' sem = 1"
proof -
  note K = kernel_okD[OF assms(1)]
  define sm where "sm = (\<lambda>n. sem_addr_of U (int (sem_index U il n False)))"
  define rg where "rg = (\<lambda>n. devreg U (il - IL_DISK U) n)"
  have S: "sm n = sem_addr_of U (int (sem_index U il n False))" and R: "rg n = devreg U (il - IL_DISK U) n" for n
    by (simp_all add: sm_def rg_def)
  obtain m where m: "find_device_number U (CDEV_BITMAP_ADDR U il) s = Some m" "sm m \<noteq> 0" "word_aligned (sm m)" "mem s (sm m) \<noteq> 1"
    "\<And>x t. store_word (rg m + RECV_COMMAND) x t = Some (t\<lparr>mem := (mem t)(rg m + RECV_COMMAND := x)\<rparr>)"
    "interrupt_generic U cau s = (if mem s (rg m + RECV_STATUS) AND TERMSTATMASK = DEV_STATUS_NOTINSTALLED
       then scheduler_panic ''Device is not installed!\<newline>'' s
       else kbind (V (sm m) s) (\<lambda>p s'. kbind (return_status p (mem s (rg m + RECV_STATUS)) s') (\<lambda>ctrl s. do {
           s \<leftarrow> store_word (rg m + RECV_COMMAND) DEV_C_ACK s;
           Some (Ret ctrl s)
         })))"
    by (rule interrupt_generic_steps[OF assms(2-5) S R]) (rule that)
  have eq: "m = n" "sm n = sem" "rg n = r" using m(1) assms(6-8) by (simp_all add: S R)
  note m = m(2-6)[unfolded eq]
  obtain s1 where V: "V sem s = Some (Ret (active_process s) s1)" "sem_effect sem (mem s sem + 1, []) Passes s v s1 v"
    using V_pass[OF K(1) m(3) assms(10) m(1,2)] by blast
  have ok1: "kernel_ok s1 v"
    by (rule sem_effect_kernel_ok[OF V(2) assms(1)]) (use assms(10) in \<open>auto simp: sem_step_def\<close>)
  have E: "active_process s1 = active_process s" "mem s1 = (mem s)(sem := 1)"
    using V(2) assms(13) by (auto simp: sem_effect_def)
  let ?s2 = "set_reg a reg_v0 (mem s (r + RECV_STATUS)) s1"
  let ?s3 = "?s2\<lparr>mem := (mem ?s2)(r + RECV_COMMAND := DEV_C_ACK)\<rparr>"
  have "CONTROL_RESCHEDULE s1 = CONTROL_RESCHEDULE s" using E(1) by (simp add: CONTROL_RESCHEDULE_def)
  then have "interrupt_generic U cau s = Some (Ret (CONTROL_RESCHEDULE s) ?s3)"
    unfolding m(5) using assms(9,11) V(1) E(1) m(4) by (simp add: return_status_def Let_def)
  moreover have "kernel_ok ?s3 v" by (rule kernel_ok_mem[OF kernel_ok_set_reg[OF ok1]])
  moreover have "get_reg a reg_v0 ?s3 = mem s (r + RECV_STATUS)" by (simp add: get_reg_def set_reg_def)
  moreover have "mem ?s3 sem = 1" using E(2) assms(12) by simp
  ultimately show ?thesis by blast
qed

section \<open>The clock\<close>

lemma interrupt_timer_rel:
  assumes "kernel_ok s v" "machine_ok U" "k = get_timer_semaphore U" "mem s k \<noteq> 1"
  shows "\<exists>s' v'. interrupt_timer U s = Some (Ret (CONTROL_PRESERVE (active_process s)) s') \<and> kernel_ok s' v'
    \<and> mem s' = (mem s)(k := 1) \<and> waiting s' v' = (waiting s v)(k := [])
    \<and> v_lo v' = v_lo v @ filter (\<lambda>i. p_prio (pcb_table s i) = 0) (waiting s v k)
    \<and> v_hi v' = v_hi v @ filter (\<lambda>i. p_prio (pcb_table s i) \<noteq> 0) (waiting s v k)"
proof -
  let ?s = "reset_timer s"
  have M: "k \<noteq> 0" "word_aligned k" using timer_semaphore_facts[of U] assms(2,3) by (simp_all add: machine_ok_def)
  have same: "same_kernel s ?s" "active_process ?s = active_process s" "yield_process ?s = yield_process s"
    "mem ?s = mem s" "pcb_table ?s = pcb_table s"
    by (simp_all add: same_kernel_def reset_timer_def load_interval_timer_def)
  have "mem ?s k \<noteq> 1 \<or> waiting ?s v k = []" using assms(4) same(4) by simp
  from timer_loop_rel[OF kernel_ok_same[OF assms(1) same(1-3)] assms(3) M this]
  obtain s' v' where t: "timer_loop U ?s = Some (Ret () s')" "kernel_ok s' v'" "active_process s' = active_process s"
    "mem s' = (mem s)(k := 1)" "waiting s' v' = (waiting s v)(k := [])"
    "v_lo v' = v_lo v @ filter (\<lambda>i. p_prio (pcb_table s i) = 0) (waiting s v k)"
    "v_hi v' = v_hi v @ filter (\<lambda>i. p_prio (pcb_table s i) \<noteq> 0) (waiting s v k)"
    using same same_kernel_inv(2)[OF same(1)] by auto
  then show ?thesis by (intro exI[of _ s'] exI[of _ v']) (simp add: interrupt_timer_def)
qed

text \<open>After the clock has ticked, the next process that waits for the clock does not wait.\<close>

lemma clock_wait_after_tick:
  assumes "kernel_ok s v" "machine_ok U" "active_process s = Some a"
    and "k = get_timer_semaphore U" "mem s k = 1" "waiting s v k = []"
  shows "\<exists>s' v'. syscall_wait_for_clock U s = Some (Ret (CONTROL_RESCHEDULE s) s') \<and> mem s' k = 0
    \<and> kernel_ok s' v'"
proof -
  note K = kernel_okD[OF assms(1)]
  have M: "k \<noteq> 0" "word_aligned k" using timer_semaphore_facts[of U] assms(2,4) by (simp_all add: machine_ok_def)
  have x: "sem_P a (mem s k, waiting s v k) = ((0, []), Passes)" using assms(5,6) by (simp add: sem_P_def)
  obtain s' v' where P: "P k (Some a) s = Some (Ret (CONTROL_RESCHEDULE s) s')" "sem_effect k (0, []) Passes s v s' v'"
    using P_refines[OF K(1) K(3)[OF assms(3)] M x] by auto
  moreover have "kernel_ok s' v'"
    by (rule sem_effect_kernel_ok[OF P(2) assms(1)]) (use assms(6) in \<open>auto simp: sem_step_def\<close>)
  ultimately show ?thesis using assms(3,4) by (auto simp: syscall_wait_for_clock_def sem_effect_def)
qed

section \<open>Yielding\<close>

lemma yield_dispatch:
  assumes "kernel_ok s v" "active_process s = Some a" "j = hd (v_hi v @ v_lo v @ [a])"
  shows "\<exists>s' v'. kbind (syscall_yield s) (\<lambda>ctrl s. schedule U (ctrl_pcb ctrl) (ctrl_enqueue ctrl) s)
      = Some (Exit (LDST (p_s (pcb_table s' j))) s')
    \<and> active_process s' = Some j \<and> kernel_ok s' v'
    \<and> (v_hi v @ v_lo v \<noteq> [] \<longrightarrow>
        (if p_prio (pcb_table s a) = 0 then v_lo v' \<noteq> [] \<and> last (v_lo v') = a else v_hi v' \<noteq> [] \<and> last (v_hi v') = a))"
proof -
  note K = kernel_okD[OF assms(1)]
  let ?s = "s\<lparr>yield_process := Some a\<rparr>"
  have k: "same_kernel s ?s" by (simp add: same_kernel_def)
  have inv: "sched_inv ?s v" using K(1) same_kernel_inv(3)[OF k] by simp
  have ho: "handover None ?s v" using K(3)[OF assms(2)] by (simp add: handover_def)
  obtain w y where p: "pick None False (yield_process ?s) (requeue (caller_queue None False) ?s v) = Some (j, w, y)"
    "v_hi v @ v_lo v \<noteq> [] \<longrightarrow> y = Some a"
    using assms(3) by (cases "v_hi v"; cases "v_lo v") (auto simp: pick_def requeue_def caller_queue_def)
  obtain s' where s': "schedule U None False ?s = Some (Exit (LDST (p_s (pcb_table s' j))) s')"
    "active_process s' = Some j" "yield_process s' = None" "sched_inv s' (requeue y ?s w)"
    "off_lists (requeue y ?s w) j" "live (requeue y ?s w) = live v"
    "\<forall>k. queued (requeue y ?s w) k \<longleftrightarrow> (queued v k \<or> yield_process ?s = Some k) \<and> k \<noteq> j"
    using schedule_dispatch[OF inv ho p(1), of U] by auto
  have "no_lost None ?s v" using K(2,4) assms(2) by (auto simp: no_lost_def)
  then have "kernel_ok s' (requeue y ?s w)"
    using s'(2-7) by (auto simp: kernel_ok_def no_lost_def)
  moreover have "kbind (syscall_yield s) (\<lambda>ctrl s. schedule U (ctrl_pcb ctrl) (ctrl_enqueue ctrl) s)
      = Some (Exit (LDST (p_s (pcb_table s' j))) s')"
    using s'(1) assms(2) by (simp add: syscall_yield_def CONTROL_BLOCK_def)
  moreover have "if p_prio (pcb_table s a) = 0 then v_lo (requeue y ?s w) \<noteq> [] \<and> last (v_lo (requeue y ?s w)) = a
      else v_hi (requeue y ?s w) \<noteq> [] \<and> last (v_hi (requeue y ?s w)) = a" if "v_hi v @ v_lo v \<noteq> []"
    using p(2) that by (auto simp: requeue_def enqueue_view_queues)
  ultimately show ?thesis using s'(2) by blast
qed

section \<open>Termination and errors\<close>

lemma terminate_process_rel:
  assumes "kernel_ok s v" "active_process s = Some a" "get_reg a reg_a1 s \<noteq> 0"
    and "find_process (get_reg a reg_a1 s) s = Some i"
  shows "\<exists>s' v'. syscall_terminate_process a s
      = Some (Ret (if a \<in> progeny v i then CONTROL_BLOCK else CONTROL_RESCHEDULE s) s')
    \<and> killed (progeny v i) s v s' v'"
proof -
  note K = kernel_okD[OF assms(1)]
  have "live v i" using find_process_iff[OF K(1) assms(3), of i] assms(4) by blast
  then obtain s' v' where k: "kill_progeny (Some i) s = Some (0, s')" "killed (progeny v i) s v s' v'"
    using kill_progeny_rel[OF K(1)] by blast
  have a: "live v a" "a < MAX_PROC" using K(3)[OF assms(2)] by (simp_all add: off_lists_def live_def)
  have "p_pid (pcb_table s' a) = 0 \<longleftrightarrow> \<not> live v' a"
    using sched_invD(2)[of s' v'] k(2) a(2) by (auto simp: killed_def pids_ok_def split: if_splits)
  also have "\<dots> \<longleftrightarrow> a \<in> progeny v i" using k(2) a(1) by (simp add: killed_def)
  finally have dead: "p_pid (pcb_table s' a) = 0 \<longleftrightarrow> a \<in> progeny v i" .
  have "CONTROL_RESCHEDULE s' = CONTROL_RESCHEDULE s"
    using k(2) by (simp add: killed_def same_rest_def CONTROL_RESCHEDULE_def)
  then show ?thesis using assms(3,4) k dead by (auto simp: syscall_terminate_process_def)
qed

lemma pass_up_rel:
  assumes "active_process s = Some a" "p_support (pcb_table s a) \<noteq> 0"
  shows "\<exists>s'. pass_up_or_die type s
      = Some (Exit (LDCXT (sup_except_context (supports s (p_support (pcb_table s a))) type)) s')
    \<and> sup_except_state (supports s' (p_support (pcb_table s a))) type = states s BIOSDATAPAGE
    \<and> s' = s\<lparr>supports := supports s'\<rparr>
    \<and> (\<forall>b. b \<noteq> p_support (pcb_table s a) \<longrightarrow> supports s' b = supports s b)"
  using assms by (auto simp: pass_up_or_die_def Let_def)

lemma die_rel:
  assumes "kernel_ok s v" "active_process s = Some a" "p_support (pcb_table s a) = 0"
  shows "\<exists>s' v'. pass_up_or_die type s = Some (Ret CONTROL_BLOCK s') \<and> killed (progeny v a) s v s' v'"
proof -
  have "live v a" using kernel_okD(3)[OF assms(1,2)] by (simp add: off_lists_def)
  from kill_progeny_rel[OF kernel_okD(1)[OF assms(1)] this] show ?thesis
    using assms(2,3) by (auto simp: pass_up_or_die_def)
qed

text \<open>A privileged call from user mode is an error of the process, whatever the call.\<close>

lemma user_mode_rejected:
  assumes "active_process s = Some a" "is_user_mode s = Some u" "u \<noteq> 0" "sint (get_reg a reg_a0 s) \<le> 0"
  shows "syscall_handler U s = pass_up_or_die GENERALEXCEPT
    (upd_pcb a (\<lambda>p. p\<lparr>p_s := (p_s p)\<lparr>cause := (cause (p_s p) AND CLEAREXECCODE) OR push_bit CAUSESHIFT (EXC_RI U)\<rparr>\<rparr>) s)"
proof -
  have "upd_pcb a (\<lambda>p. p\<lparr>p_s := (p_s p)\<lparr>cause := cause_reserved_instruction U (cause (p_s p))\<rparr>\<rparr>)
      (upd_pcb a (\<lambda>p. p\<lparr>p_s := (p_s p)\<lparr>cause := cause_clean (cause (p_s p))\<rparr>\<rparr>) s)
    = upd_pcb a (\<lambda>p. p\<lparr>p_s := (p_s p)\<lparr>cause := (cause (p_s p) AND CLEAREXECCODE) OR push_bit CAUSESHIFT (EXC_RI U)\<rparr>\<rparr>) s"
    by (simp add: upd_pcb_def cause_reserved_instruction_def cause_clean_def)
  then show ?thesis using assms by (simp add: syscall_handler_def Let_def)
qed

section \<open>The devices behind command addresses\<close>

text \<open>
  The command register of a device leads back to the device: \<^verbatim>\<open>get_iodev\<close> finds the line, and the
  semaphore at the position of the device. The transmitter of a terminal has a semaphore of its own.
\<close>

definition command_addr :: "umps \<Rightarrow> nat \<Rightarrow> nat \<Rightarrow> bool \<Rightarrow> u32" where
  "command_addr U il n w = DEV_REG_START U
     + of_nat (unat (DEV_REG_SIZE U) * ((il - IL_DISK U) * DEVPERINT U + n)) + (if w then TRANSM_COMMAND else RECV_COMMAND)"

definition registers_ok :: "umps \<Rightarrow> bool" where
  "registers_ok U \<longleftrightarrow> 12 < unat (DEV_REG_SIZE U)
     \<and> unat (DEV_REG_SIZE U) * (DEVINTNUM U * DEVPERINT U) < 2 ^ 32"

lemma find_line:
  assumes "lines_ok U" "IL_DISK U \<le> il" "il \<le> IL_TERMINAL U" "n < DEVPERINT U"
  shows "find (is_in_line U (int ((il - IL_DISK U) * DEVPERINT U + n))) [IL_DISK U..<IL_TERMINAL U + 1] = Some il"
proof -
  let ?d = "IL_DISK U" and ?p = "DEVPERINT U" and ?k = "(il - IL_DISK U) * DEVPERINT U + n"
  have low: "\<not> is_in_line U (int ?k) i" if "?d \<le> i" "i < il" for i
  proof -
    have "(i + 1 - ?d) * ?p \<le> (il - ?d) * ?p" using that by (intro mult_le_mono1) simp
    then have "int (i + 1 - ?d) * int ?p \<le> int ?k" by (metis of_nat_le_iff of_nat_mult trans_le_add1)
    moreover have "int (i + 1 - ?d) = int i + 1 - int ?d" using that(1) by simp
    ultimately have "\<not> int ?k < (int i + 1 - int ?d) * int ?p" by (simp only: not_less)
    moreover have "i \<noteq> IL_TERMINAL U" using that assms(3) by simp
    ultimately show ?thesis by (simp only: is_in_line_def Let_def if_False not_False_eq_True)
  qed
  have hit: "is_in_line U (int ?k) il"
  proof -
    have "?k < (il + 1 - ?d) * ?p" using assms(2,4) by (simp add: Suc_diff_le)
    moreover have "(il + 1 - ?d) * ?p \<le> (2 * il + 1 - ?d) * ?p" by (intro mult_le_mono1) simp
    ultimately have a: "int ?k < int (il + 1 - ?d) * int ?p" "int ?k < int (il * 2 + 1 - ?d) * int ?p"
      unfolding of_nat_mult[symmetric] of_nat_less_iff by (simp_all only: mult.commute[of 2 il])
    have e: "int (il + 1 - ?d) = int il + 1 - int ?d" "int (il * 2 + 1 - ?d) = int (il * 2) + 1 - int ?d"
      using assms(2) by simp_all
    show ?thesis
    proof (cases "il = IL_TERMINAL U")
      case True
      then show ?thesis using a(2)[unfolded e(2)] by (simp only: is_in_line_def Let_def if_True simp_thms)
    next
      case False
      then show ?thesis using a(1)[unfolded e(1)] by (simp only: is_in_line_def Let_def if_False)
    qed
  qed
  have "[?d..<IL_TERMINAL U + 1] = [?d..<il] @ il # [il + 1..<IL_TERMINAL U + 1]"
    using assms(2,3) by (metis Suc_eq_plus1 le_SucI less_Suc_eq_le upt_add_eq_append upt_conv_Cons le_add_diff_inverse)
  moreover have "find P (xs @ il # ys) = Some il" if "\<forall>x\<in>set xs. \<not> P x" "P il" for P xs and ys :: "nat list"
    using that by (induction xs) auto
  ultimately show ?thesis using low hit by auto
qed

lemma get_iodev_command:
  assumes "lines_ok U" "registers_ok U" "IL_DISK U \<le> il" "il \<le> IL_TERMINAL U" "n < DEVPERINT U"
  shows "get_iodev U (command_addr U il n w) s
    = Some (Ret \<lparr>semaphore = sem_addr_of U (int (sem_index U il n w)), interrupt_line = int il\<rparr> s)"
proof -
  let ?sz = "unat (DEV_REG_SIZE U)" and ?k = "(il - IL_DISK U) * DEVPERINT U + n" and ?off = "if w then 12 else 4 :: nat"
  have line: "il - IL_DISK U < DEVINTNUM U" using assms(1,3,4) unfolding lines_ok_def by linarith
  have k: "?k < DEVINTNUM U * DEVPERINT U"
  proof -
    have "?k < (il - IL_DISK U + 1) * DEVPERINT U" using assms(5) by simp
    also have "\<dots> \<le> DEVINTNUM U * DEVPERINT U" using line by (intro mult_le_mono1) simp
    finally show ?thesis .
  qed
  have sz: "12 < ?sz" "?sz * (DEVINTNUM U * DEVPERINT U) < 2 ^ 32" using assms(2) by (simp_all add: registers_ok_def)
  have b: "?sz * ?k + ?off < 2 ^ 32"
  proof -
    have "?sz * ?k + ?off < ?sz * (?k + 1)" using sz(1) by simp
    also have "\<dots> \<le> ?sz * (DEVINTNUM U * DEVPERINT U)" using k by (intro mult_le_mono2) simp
    finally show ?thesis using sz(2) by simp
  qed
  have diff: "command_addr U il n w - DEV_REG_START U = of_nat (?sz * ?k + ?off)"
    by (simp add: command_addr_def)
  have u: "unat (command_addr U il n w - DEV_REG_START U) = ?sz * ?k + ?off"
    unfolding diff unat_of_nat using b by simp
  have q: "(?sz * ?k + ?off) div ?sz = ?k" using sz(1) by simp
  have dev: "(command_addr U il n w - DEV_REG_START U) div DEV_REG_SIZE U = of_nat ?k"
    unfolding word_arith_nat_div u q ..
  have "?k * 1 \<le> ?k * ?sz" using sz(1) by (intro mult_le_mono2) simp
  then have "?k \<le> ?sz * ?k" unfolding mult_1_right by (simp only: mult.commute)
  then have "?k < 2 ^ 32" using b by linarith
  moreover have "uint (of_nat m :: u32) = int m" if "m < 2 ^ 32" for m
    using that by (simp add: unsigned_of_nat take_bit_nat_eq_self)
  ultimately have uk: "uint (of_nat ?k :: u32) = int ?k" by blast
  have w: "DEV_REG_SIZE U * of_nat ?k + DEV_REG_START U + TRANSM_COMMAND = command_addr U il n w \<longleftrightarrow> w"
  proof -
    have "DEV_REG_SIZE U * of_nat ?k = of_nat (?sz * ?k)" by simp
    then have "DEV_REG_SIZE U * of_nat ?k + DEV_REG_START U + TRANSM_COMMAND = command_addr U il n w
        \<longleftrightarrow> TRANSM_COMMAND = (if w then TRANSM_COMMAND else RECV_COMMAND)"
      unfolding command_addr_def by (simp only: add.commute[of "DEV_REG_START U"] add_left_cancel)
    moreover have "(12 :: u32) \<noteq> 4" by simp
    ultimately show ?thesis by (cases w) (simp_all only: if_True if_False simp_thms)
  qed
  have m: "int ?k mod int (DEVPERINT U) = int n" using assms(5) by (simp flip: zmod_int)
  have "DEV_REG_SIZE U \<noteq> 0" using sz(1) by auto
  then show ?thesis
    unfolding get_iodev_def dev uk Let_def find_line[OF assms(1,3-5)] option.case m of_int_of_nat_eq w
    using get_semaphore_index[OF assms(3,4), of n w s] by (simp add: w del: of_nat_add of_nat_mult)
qed

end
