(* ===== verification/Numbers.thy ===== *)
theory Numbers
  imports Printf
begin

text \<open>
  What \<^verbatim>\<open>nitoa\<close> of \<^verbatim>\<open>os/src/util.c\<close> writes: the usual notation of a number in its base, most
  significant digit first. The specification is \<open>number\<close>, which knows nothing of writers, powers or
  machine words.
\<close>

section \<open>Notation of numbers\<close>

definition digit_of :: "nat \<Rightarrow> char" where
  "digit_of k = char_of (if 9 < k then 87 + k else 48 + k)"

fun number :: "nat \<Rightarrow> nat \<Rightarrow> string" where
  "number b n = (if n < b \<or> b < 2 then [digit_of n] else number b (n div b) @ [digit_of (n mod b)])"

declare number.simps [simp del]

text \<open>A number written with a given count of digits, the way the loop of \<^verbatim>\<open>__itoa\<close> goes.\<close>

fun padded :: "nat \<Rightarrow> nat \<Rightarrow> nat \<Rightarrow> string" where
  "padded b 0 n = []"
| "padded b (Suc d) n = digit_of (n div b ^ d) # padded b d (n mod b ^ d)"

lemma padded_snoc:
  "0 < b \<Longrightarrow> n < b ^ Suc d \<Longrightarrow> padded b (Suc d) n = padded b d (n div b) @ [digit_of (n mod b)]"
proof (induction d arbitrary: n)
  case 0
  then show ?case by simp
next
  case (Suc d)
  let ?p = "b ^ Suc d"
  have m: "n mod ?p < b ^ Suc d" using Suc.prems(1) by simp
  have "padded b (Suc (Suc d)) n = digit_of (n div ?p) # padded b (Suc d) (n mod ?p)" by (simp only: padded.simps)
  also have "padded b (Suc d) (n mod ?p) = padded b d (n mod ?p div b) @ [digit_of (n mod ?p mod b)]"
    by (rule Suc.IH[OF Suc.prems(1) m])
  also have "n mod ?p mod b = n mod b" by (simp add: mod_mod_cancel)
  also have "n mod ?p div b = n div b mod b ^ d"
    using Suc.prems(1) mod_mult2_eq[of n b "b ^ d"] by simp
  also have "n div ?p = n div b div b ^ d" by (simp add: div_mult2_eq)
  finally show ?case by simp
qed

lemma padded_number:
  "2 \<le> b \<Longrightarrow> n < b ^ Suc d \<Longrightarrow> d = 0 \<or> b ^ d \<le> n \<Longrightarrow> padded b (Suc d) n = number b n"
proof (induction d arbitrary: n)
  case 0
  then show ?case by (simp add: number.simps)
next
  case (Suc d)
  have "b ^ 1 \<le> b ^ Suc d" using Suc.prems(1) by (intro power_increasing) auto
  then have b: "b \<le> n" using Suc.prems(3) by (metis nat.distinct(1) order_trans power_one_right)
  have "n div b < b ^ Suc d" using Suc.prems(1,2) by (simp add: less_mult_imp_div_less mult.commute)
  moreover have "d = 0 \<or> b ^ d \<le> n div b"
    using Suc.prems(1,3) by (auto simp: less_eq_div_iff_mult_less_eq mult.commute)
  ultimately have "padded b (Suc d) (n div b) = number b (n div b)" by (rule Suc.IH[OF Suc.prems(1)])
  then show ?case using padded_snoc[OF _ Suc.prems(2)] Suc.prems(1) b number.simps[of b n] by simp
qed

text \<open>The characters of a number are not NUL.\<close>

lemma digit_of_not_NUL: "k < 36 \<Longrightarrow> digit_of k \<noteq> NUL"
  by (auto simp: digit_of_def char_of_eq_iff take_bit_eq_mod split: if_splits)

lemma number_not_NUL: "2 \<le> b \<Longrightarrow> b \<le> 36 \<Longrightarrow> NUL \<notin> set (number b n)"
proof (induction b n rule: number.induct)
  case (1 b n)
  show ?case
  proof (cases "n < b")
    case True
    then have "digit_of n \<noteq> NUL" using 1(3) by (intro digit_of_not_NUL) simp
    then show ?thesis using True by (auto simp: number.simps[of b n])
  next
    case False
    have "digit_of (n mod b) \<noteq> NUL"
      using 1(2,3) by (intro digit_of_not_NUL order_less_le_trans[OF mod_less_divisor]) auto
    then show ?thesis using False 1 by (auto simp: number.simps[of b n])
  qed
qed

lemma number_length: "2 \<le> b \<Longrightarrow> n < b ^ Suc d \<Longrightarrow> length (number b n) \<le> Suc d"
proof (induction d arbitrary: n)
  case 0
  then show ?case by (simp add: number.simps)
next
  case (Suc d)
  have "n div b < b ^ Suc d" using Suc.prems by (simp add: less_mult_imp_div_less mult.commute)
  from Suc.IH[OF Suc.prems(1) this] show ?case by (simp add: number.simps[of b n])
qed

section \<open>Writing into a string with enough room\<close>

text \<open>The string target has the characters \<open>cs\<close> so far, and room for \<open>r\<close> more and a terminator.\<close>

definition holds_str :: "str_target_t \<Rightarrow> string \<Rightarrow> nat \<Rightarrow> nat \<Rightarrow> bool" where
  "holds_str t cs r sz \<longleftrightarrow> st_size t = sz \<and> sz \<le> length (st_str t) \<and> st_wrote t = length cs
     \<and> length cs + r < sz \<and> take (length cs) (st_str t) = cs \<and> (cs \<noteq> [] \<longrightarrow> length cs < sz - 1 \<longrightarrow> st_str t ! length cs = NUL)"

lemma str_writer_char:
  assumes "holds_str t cs (Suc r) sz" "c \<noteq> NUL"
  shows "\<exists>t'. str_writer t [c] 1 = Some (1, t') \<and> holds_str t' (cs @ [c]) r sz"
proof -
  let ?k = "length cs" and ?b = "st_str t"
  have h: "st_size t = sz" "sz \<le> length ?b" "st_wrote t = ?k" "Suc ?k + r < sz" "take ?k ?b = cs"
    using assms(1) by (auto simp: holds_str_def)
  then have lim: "size_less_1 (st_size t) = sz - 1" "?k < sz - 1" "?k < length ?b" by (auto simp: size_less_1_def)
  define b' where "b' = (if Suc ?k < sz - 1 then ?b[?k := c, Suc ?k := NUL] else ?b[?k := c])"
  have "str_writer t [c] 1 = Some (1, t\<lparr>st_str := b', st_wrote := Suc ?k\<rparr>)"
    using h lim assms(2) by (auto simp: str_writer_def put_char_def b'_def)
  moreover have "take (Suc ?k) b' = cs @ [c]"
    using h(5) lim(3) by (auto simp: b'_def take_Suc_conv_app_nth)
  moreover have "Suc ?k < sz - 1 \<longrightarrow> b' ! Suc ?k = NUL" using h(2,4) by (auto simp: b'_def)
  ultimately show ?thesis using h
    by (intro exI[of _ "t\<lparr>st_str := b', st_wrote := Suc ?k\<rparr>"]) (auto simp: holds_str_def b'_def)
qed

lemma str_writer_end:
  assumes "holds_str t cs r sz" "cs \<noteq> []" "NUL \<notin> set cs"
  shows "\<exists>t'. str_writer t [] 1 = Some (0, t') \<and> cstr (st_str t') = cs"
proof -
  let ?k = "length cs" and ?b = "st_str t"
  have h: "st_size t = sz" "sz \<le> length ?b" "st_wrote t = ?k" "?k < sz" "take ?k ?b = cs"
    "?k < sz - 1 \<longrightarrow> ?b ! ?k = NUL"
    using assms(1,2) by (auto simp: holds_str_def)
  let ?p = "if ?k \<ge> sz - 1 then ?k else ?k + 1"
  let ?b' = "?b[?p := NUL]"
  have "size_less_1 (st_size t) = sz - 1" using h(1,4) by (simp add: size_less_1_def)
  then have "str_writer t [] 1 = Some (0, t\<lparr>st_str := ?b'\<rparr>)"
    using h by (auto simp: str_writer_def put_char_def)
  moreover have "cstr ?b' = cs"
  proof -
    have "take ?k ?b' = cs" "?b' ! ?k = NUL" "?k < length ?b'" using h by auto
    then have "?b' = cs @ NUL # drop (Suc ?k) ?b'" using id_take_nth_drop[of ?k ?b'] by simp
    then have "cstr ?b' = takeWhile (\<lambda>c. c \<noteq> NUL) (cs @ NUL # drop (Suc ?k) ?b')" by (simp only: cstr_def)
    also have "\<dots> = cs @ takeWhile (\<lambda>c. c \<noteq> NUL) (NUL # drop (Suc ?k) ?b')"
      by (rule takeWhile_append2) (use assms(3) in auto)
    finally show ?thesis by simp
  qed
  ultimately show ?thesis by auto
qed

section \<open>Conversion of a number\<close>

lemma digit_char_of:
  assumes "k < 36" "r = of_nat k"
  shows "digit_char r = digit_of k" "cstr [digit_char r] = [digit_of k]"
proof -
  have "sint (word_of_int (int k) :: u32) = int k" by (rule sint_of_range) (use assms in auto)
  then have "sint r = int k" using assms(2) by simp
  then have s: "9 < sint r \<longleftrightarrow> 9 < k" by simp
  have "unat (87 + r) = 87 + k" "unat (48 + r) = 48 + k"
    using assms by (simp_all add: unat_word_ariths unat_of_nat)
  then show d: "digit_char r = digit_of k" using s by (simp add: digit_char_def digit_of_def)
  show "cstr [digit_char r] = [digit_of k]" unfolding d using digit_of_not_NUL[OF assms(1)] by (simp add: cstr_def)
qed

lemma c_div_power:
  assumes "2 \<le> b" "b \<le> 36" "b ^ d < 2 ^ 31"
  shows "\<exists>q. c_div (of_nat (b ^ d)) (of_nat b) = Some q
    \<and> (0 < d \<longrightarrow> b ^ (d - 1) < 2 ^ 31 \<and> q = of_nat (b ^ (d - 1)))"
proof -
  have s: "sint (word_of_int (int m) :: u32) = int m" if "m < 2 ^ 31" for m
    by (rule sint_of_range) (use that in auto)
  have e: "sint (of_nat (b ^ d) :: u32) = int (b ^ d)" "sint (of_nat b :: u32) = int b"
    using s[OF assms(3)] s[of b] assms(2) by (simp_all only: of_int_of_nat_eq) simp
  then have "of_nat b \<noteq> (0 :: u32)" using assms(1) by auto
  then have c: "c_div (of_nat (b ^ d)) (of_nat b) = Some (word_of_int (int (b ^ d) sdiv int b))"
    using e by (simp only: c_div_def if_False)
  have "b ^ (d - 1) < 2 ^ 31 \<and> word_of_int (int (b ^ d) sdiv int b) = (of_nat (b ^ (d - 1)) :: u32)" if "0 < d"
  proof -
    have p: "b ^ d = b * b ^ (d - 1)" using that by (cases d) auto
    have "b ^ (d - 1) \<le> b ^ d" using assms(1) by (intro power_increasing) auto
    moreover have "int (b ^ d) sdiv int b = int (b ^ (d - 1))"
      using assms(1) unfolding p by (simp add: signed_divide_int_def sgn_if)
    ultimately show ?thesis using assms(3) by (simp only: of_int_of_nat_eq) simp
  qed
  with c show ?thesis by blast
qed

text \<open>The writing loop: with the divisor at the first digit, it writes all digits.\<close>

lemma itoa_loop_writes:
  assumes "base = of_nat b" "2 \<le> b" "b \<le> 36"
  shows "holds_str t cs (d + r) sz \<Longrightarrow> n < b ^ d \<Longrightarrow> n < 2 ^ 32 \<Longrightarrow> (0 < d \<longrightarrow> b ^ (d - 1) < 2 ^ 31 \<and> e = of_nat (b ^ (d - 1)))
    \<Longrightarrow> \<exists>t'. itoa_loop str_writer t d (of_nat n) e base wrote = Some (wrote + d, t')
      \<and> holds_str t' (cs @ padded b d n) r sz"
proof (induction d arbitrary: t cs n e wrote)
  case 0
  then show ?case by simp
next
  case (Suc d)
  have e: "e = of_nat (b ^ d)" "b ^ d < 2 ^ 31" using Suc.prems(4) by simp_all
  have ue: "unat e = b ^ d" using e(2) unfolding e(1) unat_of_nat by simp
  have un: "unat (of_nat n :: u32) = n" using Suc.prems(3) by (simp add: unat_of_nat)
  have pos: "0 < b ^ d" using assms(2) by simp
  have q: "of_nat n div e = of_nat (n div b ^ d)" "of_nat n mod e = of_nat (n mod b ^ d)"
    using word_arith_nat_div[of "of_nat n" e] word_arith_nat_mod[of "of_nat n" e] unfolding ue un by blast+
  have k: "n div b ^ d < 36"
  proof -
    have "n < b * b ^ d" using Suc.prems(2) by simp
    then have "n div b ^ d < b" by (rule less_mult_imp_div_less)
    then show ?thesis using assms(3) by simp
  qed
  have "digit_of (n div b ^ d) \<noteq> NUL" using k by (rule digit_of_not_NUL)
  then obtain t1 where t1: "str_writer t [digit_of (n div b ^ d)] 1 = Some (1, t1)"
    "holds_str t1 (cs @ [digit_of (n div b ^ d)]) (d + r) sz"
    using str_writer_char[of t cs "d + r" sz] Suc.prems(1) by auto
  have "n mod b ^ d < b ^ d" using pos by simp
  moreover have "n mod b ^ d < 2 ^ 32" using Suc.prems(3) by (meson mod_less_eq_dividend order_le_less_trans)
  moreover obtain e' where e': "c_div e base = Some e'" "0 < d \<longrightarrow> b ^ (d - 1) < 2 ^ 31 \<and> e' = of_nat (b ^ (d - 1))"
    using c_div_power[OF assms(2) _ e(2)] assms(1,3) e(1) by blast
  ultimately obtain t' where "itoa_loop str_writer t1 d (of_nat (n mod b ^ d)) e' base (wrote + 1) = Some (wrote + 1 + d, t')"
    "holds_str t' ((cs @ [digit_of (n div b ^ d)]) @ padded b d (n mod b ^ d)) r sz"
    using Suc.IH[OF t1(2)] by blast
  moreover have "e \<noteq> 0" using ue pos by auto
  ultimately show ?case using t1(1) e'(1) q digit_char_of(2)[OF k q(1)] by simp
qed

text \<open>
  In base 10 every \<^verbatim>\<open>int\<close> is written correctly, the smallest one included; in base 16 the
  non-negative ones are.
\<close>

lemma nitoa_number:
  assumes "b = 10 \<or> b = 16 \<and> 0 \<le> sint i" "12 \<le> len" "len \<le> length dest"
  shows "\<exists>buf. nitoa i (of_nat b) dest len
      = Some ((if sint i < 0 then 1 else 0) + length (number b (nat \<bar>sint i\<bar>)), buf)
    \<and> cstr buf = (if sint i < 0 then ''-'' else []) @ number b (nat \<bar>sint i\<bar>)"
proof -
  let ?n = "nat \<bar>sint i\<bar>" and ?neg = "if sint i < 0 then ''-'' else []"
  let ?t0 = "\<lparr>st_str = dest, st_size = len, st_wrote = 0\<rparr>"
  define j where "j = (if b = 10 \<and> sint i < 0 then - i else i)"
  have b: "2 \<le> b" "b \<le> 36" "sint (of_nat b :: u32) = int b" "(of_nat b :: u32) = 10 \<longleftrightarrow> b = 10" using assms(1) by auto
  have i: "i = word_of_int (sint i)" by simp
  have j: "j = of_nat ?n"
  proof (cases "b = 10 \<and> sint i < 0")
    case True
    have "- i = word_of_int (- sint i)" by simp
    also have "\<dots> = of_nat ?n" using True by (simp del: of_int_sint of_int_minus)
    finally show ?thesis using True by (simp only: j_def simp_thms if_True)
  next
    case False
    then have "0 \<le> sint i" using assms(1) by auto
    then have "of_nat ?n = (word_of_int (sint i) :: u32)" by (simp del: of_int_sint)
    then show ?thesis unfolding j_def if_not_P[OF False] by simp
  qed
  have n: "?n \<le> 2 ^ 31" "?n < 2 ^ 32" using sint_range[of i] by auto
  have sj: "\<bar>sint j\<bar> = int ?n"
  proof (cases "?n = 2 ^ 31")
    case True
    then show ?thesis unfolding j True by simp
  next
    case False
    then have "sint (word_of_int (int ?n) :: u32) = int ?n" using n(1) by (intro sint_of_range) auto
    then show ?thesis unfolding j by simp
  qed
  have j0: "j = 0 \<longleftrightarrow> ?n = 0" using sj sint_0_iff[of j] by linarith
  have t0: "holds_str ?t0 [] 11 len" using assms(2,3) by (simp add: holds_str_def)
  obtain t1 where t1: "(if b = 10 \<and> sint i < 0 then do {
         (wr, target) \<leftarrow> str_writer ?t0 ''-'' 1;
         Some (wr, target, - i)
       } else Some (0, ?t0, i)) = Some (length ?neg, t1, j)" "holds_str t1 ?neg 10 len"
  proof (cases "sint i < 0")
    case True
    then have b10: "b = 10" using assms(1) by auto
    obtain t1 where "str_writer ?t0 [CHR ''-''] 1 = Some (1, t1)" "holds_str t1 ([] @ [CHR ''-'']) 10 len"
      using str_writer_char[of ?t0 "[]" 10 len "CHR ''-''"] t0 by auto
    then show thesis using True b10 by (intro that[of t1]) (simp_all add: j_def)
  next
    case False
    have "holds_str ?t0 [] 10 len" using t0 by (auto simp: holds_str_def)
    then show thesis using False by (intro that[of ?t0]) (simp_all add: j_def)
  qed
  have body: "\<exists>t2. (if j \<noteq> 0 then do {
         digits \<leftarrow> count_digits j (of_nat b) 0;
         itoa_loop str_writer t1 digits j (pandos_pow (of_nat b) (digits - 1)) (of_nat b) (length ?neg)
       } else do {
         (wr, target) \<leftarrow> str_writer t1 ''0'' 1;
         Some (length ?neg + wr, target)
       }) = Some (length ?neg + length (number b ?n), t2) \<and> (\<exists>r. holds_str t2 (?neg @ number b ?n) r len)"
  proof (cases "j = 0")
    case True
    then have "?n = 0" using j0 by simp
    then have num: "number b ?n = ''0''" using b(1) by (simp add: number.simps digit_of_def char_of_eq_iff)
    obtain t2 where "str_writer t1 [CHR ''0''] 1 = Some (1, t2)" "holds_str t2 (?neg @ [CHR ''0'']) 9 len"
      using str_writer_char[of t1 ?neg 9 len "CHR ''0''"] t1(2) by auto
    then show ?thesis unfolding num using True by (intro exI[of _ t2]) auto
  next
    case False
    obtain d where d: "count_digits j (of_nat b) 0 = Some (Suc d)" "int b ^ d \<le> \<bar>sint j\<bar>" "\<bar>sint j\<bar> < int b ^ Suc d"
    proof -
      have "1 < sint (of_nat b :: u32)" using b(1,3) by simp
      from count_digits_total[OF this, of j 0] False obtain d where
        "count_digits j (of_nat b) 0 = Some d" "0 < d" "int b ^ (d - 1) \<le> \<bar>sint j\<bar>" "\<bar>sint j\<bar> < int b ^ d"
        unfolding b(3) by auto
      then show thesis using that[of "d - 1"] by (cases d) auto
    qed
    have dn: "b ^ d \<le> ?n" "?n < b ^ Suc d" using d(2,3) unfolding sj by (metis of_nat_le_iff of_nat_less_iff of_nat_power)+
    have "d < 10"
    proof (rule ccontr)
      assume "\<not> d < 10"
      then have "(10::nat) ^ 10 \<le> 10 ^ d" by (intro power_increasing) auto
      also have "\<dots> \<le> b ^ d" using assms(1) by (intro power_mono) auto
      finally show False using dn(1) n(1) by simp
    qed
    have small: "b ^ d < 2 ^ 31"
    proof -
      have "b ^ d \<noteq> 2 ^ 31"
      proof
        assume e: "b ^ d = 2 ^ 31"
        from assms(1) show False
        proof
          assume "b = 10"
          have "(10::nat) ^ d \<le> 10 ^ 9" using \<open>d < 10\<close> by (intro power_increasing) auto
          then show False using e \<open>b = 10\<close> by simp
        next
          assume "b = 16 \<and> 0 \<le> sint i"
          then have "?n < 2 ^ 31" using sint_range[of i] by auto
          then show False using e dn(1) by simp
        qed
      qed
      then show ?thesis using dn(1) n(1) by simp
    qed
    have pow: "pandos_pow (of_nat b) d = of_nat (b ^ d)" by (simp add: pandos_pow_eq)
    have room: "holds_str t1 ?neg (Suc d + (9 - d)) len" using t1(2) \<open>d < 10\<close> by simp
    from itoa_loop_writes[OF refl b(1,2) room dn(2) n(2), of "pandos_pow (of_nat b) d" "length ?neg"] small pow
    obtain t2 where t2: "itoa_loop str_writer t1 (Suc d) (of_nat ?n) (pandos_pow (of_nat b) d) (of_nat b) (length ?neg)
        = Some (length ?neg + Suc d, t2)" "holds_str t2 (?neg @ padded b (Suc d) ?n) (9 - d) len" by auto
    have num: "padded b (Suc d) ?n = number b ?n" using padded_number[OF b(1) dn(2)] dn(1) by blast
    have len: "length (padded b k m) = k" for k m by (induction k arbitrary: m) simp_all
    have "length (number b ?n) = Suc d" using len[of "Suc d" ?n] unfolding num .
    then show ?thesis using False d(1) t2 num j by (intro exI[of _ t2]) auto
  qed
  then obtain t2 r where t2: "(if j \<noteq> 0 then do {
         digits \<leftarrow> count_digits j (of_nat b) 0;
         itoa_loop str_writer t1 digits j (pandos_pow (of_nat b) (digits - 1)) (of_nat b) (length ?neg)
       } else do {
         (wr, target) \<leftarrow> str_writer t1 ''0'' 1;
         Some (length ?neg + wr, target)
       }) = Some (length ?neg + length (number b ?n), t2)" "holds_str t2 (?neg @ number b ?n) r len" by blast
  have "NUL \<notin> set (?neg @ number b ?n)" "?neg @ number b ?n \<noteq> []"
    using number_not_NUL[OF b(1,2), of ?n] by (auto simp: number.simps[of b ?n])
  from str_writer_end[OF t2(2) this(2,1)] obtain t3 where t3: "str_writer t2 [] 1 = Some (0, t3)"
    "cstr (st_str t3) = ?neg @ number b ?n" by blast
  have "itoa_raw str_writer ?t0 i (of_nat b) = Some (length ?neg + length (number b ?n), t3)"
    unfolding itoa_raw_def b(4) using t1(1) t2(1) t3(1) by simp
  then show ?thesis using t3(2) by (simp add: nitoa_def)
qed

end
