(* ===== verification/Scenario.thy ===== *)
theory Scenario
  imports Behaviour Numbers
begin

text \<open>
  Concrete machines on which the properties are witnessed: the constants of the uMPS3 headers, a
  machine with zeroed memory, the kernel right after \<^verbatim>\<open>init\<close> (\<open>boot\<close>) and after \<^verbatim>\<open>main\<close> has
  dispatched the first process (\<open>running\<close>).
\<close>

definition U0 :: umps where
  "U0 = \<lparr>UNINSTALLED = 0, STATUS_IEc = 1, STATUS_KUc = 2, STATUS_IEp = 4, STATUS_KUp = 8,
     STATUS_TE = 0x08000000, STATUS_IM_MASK = 0xFF00, STATUS_IM = (\<lambda>n. push_bit (8 + n) 1),
     IL_IPI = 0, IL_CPUTIMER = 1, IL_TIMER = 2, IL_DISK = 3, IL_FLASH = 4, IL_ETHERNET = 5,
     IL_PRINTER = 6, IL_TERMINAL = 7, DEVINTNUM = 5, DEVPERINT = 8, N_DEV_PER_IL = 8,
     DEV_IL_START = 3, DEV_REG_START = 0x10000054, DEV_REG_SIZE = 16,
     devreg = (\<lambda>i n. 0x10000054 + of_nat (i * 128 + n * 16)),
     CDEV_BITMAP_ADDR = (\<lambda>il. 0x10000040 + of_nat ((il - 3) * 4)),
     CAUSE_IP = (\<lambda>n. push_bit (8 + n) 1), CAUSE_GET_EXCCODE = (\<lambda>c. drop_bit 2 (c AND 0x7C)),
     EXC_RI = 10, WORD_SIZE = 4, semaphores_addr = 0x20002000\<rparr>"

definition zero_regs :: state_t where
  "zero_regs = \<lparr>entry_hi = 0, cause = 0, status = 0, pc_epc = 0, gpr = (\<lambda>_. 0), hi = 0, lo = 0\<rparr>"

definition zero_state :: kstate where
  "zero_state = \<lparr>lh = \<lparr>l_next = (\<lambda>_. None), l_prev = (\<lambda>_. None)\<rparr>,
     pcb_table = (\<lambda>_. \<lparr>p_parent = None, p_s = zero_regs, p_time = 0, p_sem_add = 0, p_support = 0,
       p_prio = 0, p_pid = 0\<rparr>),
     semd_table = (\<lambda>_. \<lparr>s_key = 0\<rparr>), mem = (\<lambda>_. 0), states = (\<lambda>_. zero_regs),
     supports = (\<lambda>_. \<lparr>sup_asid = 0, sup_except_state = (\<lambda>_. zero_regs),
       sup_except_context = (\<lambda>_. \<lparr>c_stack_ptr = 0, c_status = 0, c_pc = 0\<rparr>),
       sup_private_page_table = (\<lambda>_. \<lparr>pte_entry_hi = 0, pte_entry_lo = 0\<rparr>)\<rparr>),
     process_count = 0, softblock_count = 0, active_process = None, yield_process = None,
     start_tod = 0, recycle_count = 0, cp0_status = 0, cp0_cause = 0, clock = of_nat, ticks = 0,
     interval_timer = 0, local_timer = 0,
     passupvector = \<lparr>pv_tlb_refill_handler = 0, pv_tlb_refill_stackPtr = 0,
       pv_exception_handler = 0, pv_exception_stackPtr = 0\<rparr>,
     kstdout = \<lparr>mt_buffer = replicate MEM_WRITER_LINES (replicate MEM_WRITER_LINE_LENGTH CHR 0x00),
       mt_line = 0, mt_ch = 0\<rparr>\<rparr>"

definition boot :: kstate where
  "boot = the (init U0 0x1000 0x2000 0x3000 zero_state)"

definition running :: kstate where
  "running = (case main U0 0x1000 0x2000 0x3000 zero_state of Some (Exit _ s) \<Rightarrow> s | _ \<Rightarrow> zero_state)"

lemma bss_zero_state: "bss zero_state"
  by (simp add: bss_def zero_state_def nulled_def log_ok_def)

lemma SEMAPHORES_NUM_U0: "SEMAPHORES_NUM U0 = 49"
  by (simp add: SEMAPHORES_NUM_def U0_def)

lemma sems_ok_U0: "sems_ok U0"
  by (simp add: sems_ok_def SEMAPHORES_NUM_U0) (simp add: U0_def word_aligned_def take_bit_eq_mod)

lemma lines_ok_U0: "lines_ok U0"
  by (simp add: lines_ok_def U0_def)

lemma machine_ok_U0: "machine_ok U0"
  using sems_ok_U0 lines_ok_U0 by (simp add: machine_ok_def) (simp add: U0_def)

lemma devices_ok_U0: "devices_ok U0"
proof -
  have il: "il \<in> {3, 4, 5, 6, 7}" if "3 \<le> il" "il \<le> 7" for il :: nat using that by auto
  have n: "n \<in> {0, 1, 2, 3, 4, 5, 6, 7}" if "n < 8" for n :: nat using that by auto
  have "0x10000040 + of_nat ((il - 3) * 4) \<noteq> (0 :: u32) \<and> word_aligned (0x10000040 + of_nat ((il - 3) * 4))"
    if "3 \<le> il" "il \<le> 7" for il
    using il[OF that] by (auto simp: word_aligned_def take_bit_eq_mod)
  moreover have "0x10000054 + of_nat (i * 128 + n * 16) + r \<noteq> (0 :: u32)
      \<and> word_aligned (0x10000054 + of_nat (i * 128 + n * 16) + r)"
    if "n < 8" "i \<in> {0, 1, 2, 3, 4}" "r \<in> {0, 4, 8, 0xC}" for n i r
    using n[OF that(1)] that(2,3) by (elim insertE; simp add: word_aligned_def take_bit_eq_mod)
  moreover have "il - 3 \<in> {0, 1, 2, 3, 4}" if "3 \<le> il" "il \<le> 7" for il :: nat using that by auto
  moreover have "DEV_IL_START U0 = 3" "IL_DISK U0 = 3" "IL_PRINTER U0 = 6" "IL_TERMINAL U0 = 7"
    "N_DEV_PER_IL U0 = 8" "DEVPERINT U0 = 8" "\<And>il. CDEV_BITMAP_ADDR U0 il = 0x10000040 + of_nat ((il - 3) * 4)"
    "\<And>i n. devreg U0 i n = 0x10000054 + of_nat (i * 128 + n * 16)" by (simp_all add: U0_def)
  ultimately show ?thesis unfolding devices_ok_def by (intro conjI allI impI ballI) (simp_all only:, auto)
qed

lemma boot_facts:
  "init U0 0x1000 0x2000 0x3000 zero_state = Some boot" "sched_inv boot view1"
  "waiting boot view1 = (\<lambda>_. [])" "active_process boot = None" "yield_process boot = None"
  "p_pid (pcb_table boot (MAX_PROC - 1)) = make_pid (of_nat (MAX_PROC - 1)) 0"
  using init_rel[OF bss_zero_state sems_ok_U0, of "0x1000" "0x2000" "0x3000"] by (auto simp: boot_def)

lemma running_facts:
  "sched_inv running view2" "waiting running view2 = (\<lambda>_. [])" "off_lists view2 (MAX_PROC - 1)"
  "active_process running = Some (MAX_PROC - 1)" "yield_process running = None"
  "k < SEMAPHORES_NUM U0 \<Longrightarrow> mem running (sem_addr_of U0 (int k)) = 0"
  using main_rel[OF bss_zero_state sems_ok_U0, of "0x1000" "0x2000" "0x3000"] by (auto simp: running_def)

lemma running_kernel_ok: "kernel_ok running view2"
  using running_facts(1,3-5) by (simp add: kernel_ok_def no_lost_def view2_live)

lemma reachable_running: "reachable U0 running"
proof -
  obtain st s' where "main U0 0x1000 0x2000 0x3000 zero_state = Some (Exit (LDST st) s')"
    using main_kernel_ok[OF bss_zero_state sems_ok_U0] by blast
  then show ?thesis using reachable.start[OF bss_zero_state] by (auto simp: running_def)
qed

text \<open>The first process has just called YIELD.\<close>

definition yielding :: kstate where
  "yielding = running\<lparr>cp0_cause := 0x20, states := (\<lambda>_. zero_regs\<lparr>gpr := (\<lambda>_. 0)(reg_a0 := - 10)\<rparr>)\<rparr>"

lemma yielding_facts: "outside running yielding" "exception_ok U0 yielding" "kernel_ok yielding view2"
proof -
  show o: "outside running yielding" by (simp add: outside_def yielding_def)
  show "kernel_ok yielding view2" by (rule kernel_ok_outside[OF running_kernel_ok o])
  show "exception_ok U0 yielding"
    by (simp add: exception_ok_def syscall_args_ok_def yielding_def zero_regs_def U0_def)
qed

lemma boot_lists:
  "v_lo view1 = [19]" "v_hi view1 = []" "v_child view1 q = []" "v_sact view1 = []"
  "v_lo view2 = []" "v_hi view2 = []" "v_child view2 q = []" "v_sact view2 = []"
  "v_free view2 = 18 # rev [0..<18]"
  using upt_Suc_append[of 0 18] by (simp_all add: view1_def view2_def view0_def del: upt_rec_numeral)

text \<open>The kernel with its tables initialised and no process yet.\<close>

definition no_process :: kstate where
  "no_process = the (do {
     s \<leftarrow> init_scheduler (init_puv 0x1000 0x2000 zero_state);
     s \<leftarrow> init_semaphores U0 s;
     s \<leftarrow> init_pcbs s;
     init_asl s
   })"

lemma no_process_facts: "sched_inv no_process view0" "yield_process no_process = None"
  using init_lists[OF bss_zero_state sems_ok_U0, of "0x1000" "0x2000"] by (auto simp: no_process_def)

text \<open>The first process with one child, which is ready at high priority.\<close>

definition family :: kstate where
  "family = the (do {
     (c, s) \<leftarrow> spawn_process U0 1 running;
     insert_child (Some 19) c s
   })"

definition view_family :: view where
  "view_family = set_child 19 [18] (view2\<lparr>v_free := rev [0..<18], v_hi := [18]\<rparr>)"

lemma family_facts:
  "sched_inv family view_family" "live view_family 19" "live view_family 18"
  "v_child view_family 19 = [18]" "v_hi view_family = [18]" "v_lo view_family = []"
  "active_process family = Some 19" "off_lists view_family 19" "waiting family view_family = (\<lambda>_. [])"
  "yield_process family = None"
proof -
  let ?tab = "(pcb_table running)(18 := spawned_pcb U0 18 (recycle_count running) 1)"
  let ?w = "view2\<lparr>v_free := rev [0..<18], v_hi := [18]\<rparr>"
  obtain h v' where h: "spawn_process U0 1 running = Some (Some 18, running\<lparr>lh := h, pcb_table := ?tab,
        process_count := process_count running + 1, recycle_count := recycle_count running + 1\<rparr>)"
    "sched_inv (running\<lparr>lh := h, pcb_table := ?tab,
        process_count := process_count running + 1, recycle_count := recycle_count running + 1\<rparr>) v'"
    "v_free v' = rev [0..<18]" "v_child v' = (v_child view2)(18 := [])" "v_lo v' = v_lo view2"
    "v_hi v' = v_hi view2 @ [18]" "v_sfree v' = v_sfree view2" "v_sact v' = v_sact view2" "v_procq v' = v_procq view2"
    "waiting (running\<lparr>lh := h, pcb_table := ?tab,
        process_count := process_count running + 1, recycle_count := recycle_count running + 1\<rparr>) v' = waiting running view2"
    using spawn_process_rel[OF running_facts(1) boot_lists(9), of 1 U0] by auto
  have v': "v' = ?w"
    using h(3-9) boot_lists(6,7) by (intro view.equality) (simp_all add: fun_upd_idem del: upt_rec_numeral)
  let ?s = "running\<lparr>lh := h, pcb_table := ?tab,
        process_count := process_count running + 1, recycle_count := recycle_count running + 1\<rparr>"
  have live: "live ?w i \<longleftrightarrow> i = 18 \<or> i = 19" for i by (auto simp: live_def simp del: upt_rec_numeral)
  have noch: "v_child ?w q = []" "\<not> child_of ?w i q" for i q using boot_lists(7) by (simp_all add: child_of_def)
  have "sched_inv ?s ?w" using h(2) v' by simp
  moreover have "(19::nat) \<noteq> 18" "live ?w 19" "live ?w 18" using live by simp_all
  ultimately obtain h2 where h2: "insert_child (Some 19) (Some 18) ?s
      = Some (upd_pcb 18 (\<lambda>p. p\<lparr>p_parent := Some 19\<rparr>) (?s\<lparr>lh := h2\<rparr>))"
    "sched_inv (upd_pcb 18 (\<lambda>p. p\<lparr>p_parent := Some 19\<rparr>) (?s\<lparr>lh := h2\<rparr>)) (set_child 19 (v_child ?w 19 @ [18]) ?w)"
    "waiting (upd_pcb 18 (\<lambda>p. p\<lparr>p_parent := Some 19\<rparr>) (?s\<lparr>lh := h2\<rparr>)) (set_child 19 (v_child ?w 19 @ [18]) ?w)
      = waiting ?s ?w"
    using insert_child_inv[of ?s ?w 19 18] noch by auto
  have f: "family = upd_pcb 18 (\<lambda>p. p\<lparr>p_parent := Some 19\<rparr>) (?s\<lparr>lh := h2\<rparr>)"
    using h(1) h2(1) by (simp add: family_def)
  have vf: "set_child 19 (v_child ?w 19 @ [18]) ?w = view_family" using noch by (simp add: view_family_def)
  show "sched_inv family view_family" unfolding f using h2(2) vf by simp
  show "active_process family = Some 19" "yield_process family = None"
    unfolding f using running_facts(4,5) by simp_all
  show "waiting family view_family = (\<lambda>_. [])" unfolding f using h2(3) h(10) v' running_facts(2) vf by simp
  have lf: "live view_family i \<longleftrightarrow> i = 18 \<or> i = 19" for i
    using live set_child_facts(1)[of 19 "[18]" ?w] by (simp add: view_family_def)
  then show "live view_family 19" "live view_family 18" by simp_all
  show "v_child view_family 19 = [18]" "v_hi view_family = [18]" "v_lo view_family = []"
    using boot_lists(5) by (simp_all add: view_family_def set_child_def)
  then show "off_lists view_family 19" using lf boot_lists(8)
    by (auto simp: off_lists_def queued_def blocked_def view_family_def set_child_def live_def simp del: upt_rec_numeral)
qed

lemma family_kernel_ok: "kernel_ok family view_family"
proof -
  have "live view_family i \<Longrightarrow> queued view_family i \<or> 19 = i" for i
    using family_facts(5) by (auto simp: view_family_def live_def set_child_def queued_def simp del: upt_rec_numeral)
  then show ?thesis using family_facts(1,7,8,10) by (simp add: kernel_ok_def no_lost_def)
qed

text \<open>The first process waits on a semaphore, and the processor is idle.\<close>

definition blocked_on :: "u32 \<Rightarrow> kstate" where
  "blocked_on k = (case P k (Some 19) running of Some (Ret _ s) \<Rightarrow> s\<lparr>active_process := None\<rparr> | _ \<Rightarrow> running)"

lemma blocked_on_facts:
  assumes "j < SEMAPHORES_NUM U0" "k = sem_addr_of U0 (int j)"
  shows "\<exists>v. kernel_ok (blocked_on k) v \<and> waiting (blocked_on k) v = (\<lambda>_. [])(k := [19])
    \<and> active_process (blocked_on k) = None \<and> mem (blocked_on k) k = 0 \<and> v_lo v = [] \<and> v_hi v = []"
proof -
  have k: "k \<noteq> 0" "word_aligned k" "mem running k = 0"
    using sem_addr_facts(1,2)[OF sems_ok_U0 assms(1)] running_facts(6)[OF assms(1)] assms(2) by simp_all
  have "sem_P 19 (mem running k, waiting running view2 k) = ((0, [19]), Blocks)"
    using k(3) running_facts(2) by (simp add: sem_P_def)
  from P_refines[OF running_facts(1) _ k(1,2) this] running_facts(3)
  obtain s v where P: "P k (Some 19) running = Some (Ret CONTROL_BLOCK s)"
    "sem_effect k (0, [19]) Blocks running view2 s v" by auto
  let ?s = "s\<lparr>active_process := None\<rparr>"
  have b: "blocked_on k = ?s" using P(1) by (simp add: blocked_on_def)
  have same: "same_kernel s ?s" by (simp add: same_kernel_def)
  have L: "no_lost None s v"
    using sem_effect_lists(4)[OF P(2) running_facts(1), of 19 "Some 19"] running_facts(2) kernel_okD(4)[OF running_kernel_ok] running_facts(4)
    by (simp add: sem_step_def)
  then have "kernel_ok ?s v"
    using same_kernel_inv(3)[OF same] P(2) running_facts(5) by (simp add: kernel_ok_def sem_effect_def no_lost_def)
  then show ?thesis unfolding b
    using P(2) same_kernel_inv(2)[OF same] running_facts(2) boot_lists(5,6)
    by (intro exI[of _ v]) (simp add: sem_effect_def woken_def requeue_def)
qed

text \<open>The same, when disk 0 has just finished the request of the first process.\<close>

definition io_done :: kstate where
  "io_done = (blocked_on (sem_addr_of U0 0))\<lparr>mem := (\<lambda>a. if a = 0x10000054 then 1 else 0)\<rparr>"

text \<open>Disk 0 interrupts the first process, which did not ask for anything.\<close>

definition io_unclaimed :: kstate where
  "io_unclaimed = running\<lparr>mem := (\<lambda>a. if a = 0x10000054 then 1 else 0)\<rparr>"

lemma irq_ok_U0:
  assumes "mem s = (\<lambda>a. if a = 0x10000054 then 1 else 0)"
  shows "irq_ok U0 s"
proof -
  have "sem_addr_of U0 (int k) \<noteq> 0x10000054" if "k < 49" for k
  proof -
    have "unat (sem_addr_of U0 (int k)) = 0x20002000 + 4 * k"
      using unat_sem_addr[OF sems_ok_U0, of k] that by (simp add: SEMAPHORES_NUM_U0) (simp add: U0_def)
    then show ?thesis by auto
  qed
  moreover have "CDEV_BITMAP_ADDR U0 il \<noteq> 0x10000054" if "3 \<le> il" "il \<le> 7" for il
  proof -
    have "il \<in> {3, 4, 5, 6, 7}" using that by auto
    then show ?thesis by (auto simp: U0_def)
  qed
  moreover have "IL_DISK U0 = 3" "IL_TERMINAL U0 = 7" by (simp_all add: U0_def)
  ultimately show ?thesis using assms by (simp add: irq_ok_def SEMAPHORES_NUM_U0)
qed

lemma disk_0:
  assumes "mem s = (\<lambda>a. if a = 0x10000054 then 1 else 0)"
  shows "pending_line U0 0 = 3" "find_device_number U0 (CDEV_BITMAP_ADDR U0 3) s = Some 0"
    "sem_addr_of U0 (int (sem_index U0 3 0 False)) = sem_addr_of U0 0"
    "devreg U0 (3 - IL_DISK U0) 0 = 0x10000054" "sem_addr_of U0 0 = 0x20002000"
proof -
  have "find (\<lambda>i. False) xs = None" for xs :: "nat list" by (induction xs) simp_all
  then show "pending_line U0 0 = 3" unfolding pending_line_def by (simp add: U0_def)
  have "CDEV_BITMAP_ADDR U0 3 = 0x10000040" by (simp add: U0_def)
  then show "find_device_number U0 (CDEV_BITMAP_ADDR U0 3) s = Some 0"
    using assms by (simp add: find_device_number_def load_word_def word_aligned_def take_bit_eq_mod device_loop.simps)
  show "sem_addr_of U0 (int (sem_index U0 3 0 False)) = sem_addr_of U0 0"
    by (simp add: sem_index_def) (simp add: U0_def)
  show "devreg U0 (3 - IL_DISK U0) 0 = 0x10000054" "sem_addr_of U0 0 = 0x20002000"
    by (simp_all add: U0_def sem_addr_of_def)
qed

text \<open>A ring of two nodes around a head.\<close>

definition ring3 :: "nat lheap" where
  "ring3 = \<lparr>l_next = (\<lambda>n. if n = 0 then Some 1 else if n = 1 then Some 2 else if n = 2 then Some 0 else None),
     l_prev = (\<lambda>n. if n = 0 then Some 2 else if n = 1 then Some 0 else if n = 2 then Some 1 else None)\<rparr>"

lemma ring3_facts: "ring ring3 0 [1, 2]" "rings ring3 [0 \<mapsto> [1, 2]]" "3 \<notin> ring_nodes [0 \<mapsto> [1, 2 :: nat]]"
proof -
  show r: "ring ring3 0 [1, 2]" by (simp add: ring_def ring3_def)
  show "rings ring3 [0 \<mapsto> [1, 2]]" using r by (auto simp: rings_def disjoint_rings_def split: if_splits)
  show "3 \<notin> ring_nodes [0 \<mapsto> [1, 2 :: nat]]" by (auto simp: ring_nodes_def split: if_splits)
qed

end
