(* ===== verification/Level.thy ===== *)
theory Level
  imports Exception
begin

text \<open>
  The ground the support level (\<^verbatim>\<open>phase3/\<close>) stands on: its state, the ways its code ends, and the
  services it asks for. The support level runs as code of a process, in kernel mode, above the
  nucleus; its state holds the nucleus' own state in the field \<open>kernel\<close> and adds the static
  variables of \<^verbatim>\<open>pager.c\<close> and \<^verbatim>\<open>test.c\<close>, the TLB and the log targets.

  The record \<open>world\<close> gives what is not in the repository: the effect of the SYSCALL instruction, as
  the process that executes it sees it (the value in v0 and the state at the moment it runs again;
  or that it never does), the TLB instructions, and the addresses the linker chose. The field
  \<open>calls\<close> is the sequence of the system calls made, with their arguments.
\<close>

section \<open>Constants\<close>

abbreviation (input) PAGESIZE :: u32 where "PAGESIZE \<equiv> 4096"
abbreviation (input) KUSEG :: u32 where "KUSEG \<equiv> 0x80000000"
abbreviation (input) DIRTYON :: u32 where "DIRTYON \<equiv> 0x00000400"
abbreviation (input) VALIDON :: u32 where "VALIDON \<equiv> 0x00000200"
abbreviation (input) GETPAGENO :: u32 where "GETPAGENO \<equiv> 0x3FFFF000"
abbreviation (input) VPNSHIFT :: nat where "VPNSHIFT \<equiv> 12"
abbreviation (input) ASIDSHIFT :: nat where "ASIDSHIFT \<equiv> 6"
abbreviation (input) PRESENTFLAG :: u32 where "PRESENTFLAG \<equiv> 0x80000000"
abbreviation (input) FLASHREAD :: u32 where "FLASHREAD \<equiv> 2"
abbreviation (input) FLASHWRITE :: u32 where "FLASHWRITE \<equiv> 3"
abbreviation (input) UPROCSTARTADDR :: u32 where "UPROCSTARTADDR \<equiv> 0x800000B0"
abbreviation (input) USERSTACKTOP :: u32 where "USERSTACKTOP \<equiv> 0xC0000000"
abbreviation (input) MAXPAGES :: nat where "MAXPAGES \<equiv> 32"
abbreviation (input) UPROCMAX :: nat where "UPROCMAX \<equiv> 8"
abbreviation (input) POOLSIZE :: nat where "POOLSIZE \<equiv> 16"
abbreviation (input) DEV_STATUS_READY :: u32 where "DEV_STATUS_READY \<equiv> 1"

section \<open>State\<close>

text \<open>
  A page table lies inside a support structure, and a pointer to it is the address of that
  structure, \<open>None\<close> for NULL; a pointer to one of its entries adds the index.
\<close>

type_synonym page_table_t = "u32 option"
type_synonym pte_ptr = "(u32 \<times> u32) option"

record swap_t =
  sw_asid :: u32
  sw_page_no :: u32
  sw_pte :: pte_ptr

record tlb_t =
  ENTRYHI :: u32
  ENTRYLO :: u32
  INDEX :: u32
  tlb_entries :: "nat \<Rightarrow> pte_entry_t"

text \<open>The list heads of \<^verbatim>\<open>test.c\<close>: the free list, and the link inside each support structure.\<close>

datatype snode = support_free | sup_p_list u32

record sstate =
  kernel :: kstate
  supp_lh :: "snode lheap"
  swap_pool_addr :: u32
  swap_pool_batons :: "nat \<Rightarrow> bool"
  swap_pool_table :: "nat \<Rightarrow> swap_t"
  fifo_index :: u32
  tlb :: tlb_t
  user_mem :: "u32 \<Rightarrow> 8 word"
  kstderr :: memory_target_t
  kdebug :: memory_target_t
  calls :: "(int \<times> u32 \<times> u32 \<times> u32) list"

text \<open>
  How support level code ends, other than by returning: the machine panics, the processor loads a
  saved state, or the process is never dispatched again.
\<close>

datatype sexit = SPANIC | SLDST state_t | SGONE

datatype 'a sres = SRet 'a sstate | SExit sexit sstate

definition sbind :: "'a sres option \<Rightarrow> ('a \<Rightarrow> sstate \<Rightarrow> 'b sres option) \<Rightarrow> 'b sres option" where
  "sbind m f = (case m of
     None \<Rightarrow> None
   | Some (SExit e s) \<Rightarrow> Some (SExit e s)
   | Some (SRet x s) \<Rightarrow> f x s)"

section \<open>What the support level asks for\<close>

record world =
  emu :: umps
  sys :: "int \<Rightarrow> u32 \<Rightarrow> u32 \<Rightarrow> u32 \<Rightarrow> sstate \<Rightarrow> u32 sres option"
  TLBP :: "tlb_t \<Rightarrow> tlb_t"
  TLBWR :: "tlb_t \<Rightarrow> tlb_t"
  TLBWI :: "tlb_t \<Rightarrow> tlb_t"
  DEV_REG_ADDR :: "u32 \<Rightarrow> u32 \<Rightarrow> u32"
  FLASHINT :: u32
  DTP_DATA0 :: u32
  sem_swap_pool_table :: u32
  sys3_semaphores :: u32
  sys4_semaphores :: u32
  sys5_semaphores :: u32
  master_semaphore :: u32
  support_table :: u32
  sizeof_support_t :: u32
  header_data :: u32
  pstate_addr :: u32
  support_tlb_addr :: u32
  support_generic_addr :: u32

definition SYSCALL :: "world \<Rightarrow> int \<Rightarrow> u32 \<Rightarrow> u32 \<Rightarrow> u32 \<Rightarrow> sstate \<Rightarrow> u32 sres option" where
  "SYSCALL W n a1 a2 a3 s = sys W n a1 a2 a3 (s\<lparr>calls := calls s @ [(n, a1, a2, a3)]\<rparr>)"

section \<open>Access to the parts of the state\<close>

definition kload :: "u32 \<Rightarrow> sstate \<Rightarrow> u32 option" where
  "kload a s = load_word a (kernel s)"

definition kstore :: "u32 \<Rightarrow> u32 \<Rightarrow> sstate \<Rightarrow> sstate option" where
  "kstore a v s = map_option (\<lambda>k. s\<lparr>kernel := k\<rparr>) (store_word a v (kernel s))"

definition support_at :: "u32 \<Rightarrow> sstate \<Rightarrow> support_t option" where
  "support_at a s = (if a = 0 then None else Some (supports (kernel s) a))"

definition upd_support :: "u32 \<Rightarrow> (support_t \<Rightarrow> support_t) \<Rightarrow> sstate \<Rightarrow> sstate option" where
  "upd_support a f s = (if a = 0 then None else Some (s\<lparr>kernel :=
     (kernel s)\<lparr>supports := (supports (kernel s))(a := f (supports (kernel s) a))\<rparr>\<rparr>))"

definition pte_at :: "page_table_t \<Rightarrow> u32 \<Rightarrow> sstate \<Rightarrow> pte_entry_t option" where
  "pte_at pt i s = do {
     a \<leftarrow> pt;
     sup \<leftarrow> support_at a s;
     if unat i < MAXPAGES then Some (sup_private_page_table sup (unat i)) else None
   }"

definition upd_pte :: "page_table_t \<Rightarrow> u32 \<Rightarrow> (pte_entry_t \<Rightarrow> pte_entry_t) \<Rightarrow> sstate \<Rightarrow> sstate option" where
  "upd_pte pt i f s = do {
     a \<leftarrow> pt;
     if unat i < MAXPAGES
     then upd_support a (\<lambda>sup. sup\<lparr>sup_private_page_table :=
       (sup_private_page_table sup)(unat i := f (sup_private_page_table sup (unat i)))\<rparr>) s
     else None
   }"

definition upd_swap :: "nat \<Rightarrow> (swap_t \<Rightarrow> swap_t) \<Rightarrow> sstate \<Rightarrow> sstate" where
  "upd_swap i f s = s\<lparr>swap_pool_table := (swap_pool_table s)(i := f (swap_pool_table s i))\<rparr>"

definition kfprintf_err :: "string \<Rightarrow> varg list \<Rightarrow> sstate \<Rightarrow> sstate option" where
  "kfprintf_err fmt varg s = do {
     (n, out) \<leftarrow> pandos_kfprintf (kstderr s) fmt varg;
     Some (s\<lparr>kstderr := out\<rparr>)
   }"

definition kfprintf_debug :: "string \<Rightarrow> varg list \<Rightarrow> sstate \<Rightarrow> sstate option" where
  "kfprintf_debug fmt varg s = do {
     (n, out) \<leftarrow> pandos_kfprintf (kdebug s) fmt varg;
     Some (s\<lparr>kdebug := out\<rparr>)
   }"

definition panic :: "sstate \<Rightarrow> 'a sres option" where
  "panic s = Some (SExit SPANIC s)"

definition load_state :: "state_t \<Rightarrow> sstate \<Rightarrow> 'a sres option" where
  "load_state st s = Some (SExit (SLDST st) s)"

definition get_status :: "sstate \<Rightarrow> u32" where
  "get_status s = cp0_status (kernel s)"

definition set_status :: "u32 \<Rightarrow> sstate \<Rightarrow> sstate" where
  "set_status x s = s\<lparr>kernel := (kernel s)\<lparr>cp0_status := x\<rparr>\<rparr>"

section \<open>Critical sections\<close>

definition deactive_interrupts :: "world \<Rightarrow> sstate \<Rightarrow> sstate" where
  "deactive_interrupts W s = (
     let state = get_status s;
         state = status_interrupts_off_nucleus (emu W) state
     in set_status state s)"

definition active_interrupts :: "world \<Rightarrow> sstate \<Rightarrow> sstate" where
  "active_interrupts W s = (
     let state = get_status s;
         state = status_interrupts_on_nucleus (emu W) state
     in set_status state s)"

section \<open>The flash devices\<close>

text \<open>
  The driver of \<^verbatim>\<open>storage.c\<close>: the address of the buffer goes into the register \<^verbatim>\<open>data0\<close> of the
  device, and the command, with the number of the block, to the nucleus.
\<close>

abbreviation (input) FLASHCMDSHIFT :: nat where "FLASHCMDSHIFT \<equiv> 8"

definition read_flash :: "world \<Rightarrow> u32 \<Rightarrow> u32 \<Rightarrow> u32 \<Rightarrow> sstate \<Rightarrow> u32 sres option" where
  "read_flash W dev block dest s = do {
     let s = deactive_interrupts W s;
     let reg = DEV_REG_ADDR W (FLASHINT W) (dev - 1);
     let cmd = FLASHREAD OR push_bit FLASHCMDSHIFT block;
     s \<leftarrow> kstore (reg + DTP_DATA0 W) dest s;
     sbind (SYSCALL W DOIO (reg + RECV_COMMAND) cmd 0 s) (\<lambda>res s.
       Some (SRet res (active_interrupts W s)))
   }"

definition write_flash :: "world \<Rightarrow> u32 \<Rightarrow> u32 \<Rightarrow> u32 \<Rightarrow> sstate \<Rightarrow> u32 sres option" where
  "write_flash W dev block src s = do {
     let s = deactive_interrupts W s;
     let reg = DEV_REG_ADDR W (FLASHINT W) (dev - 1);
     let cmd = FLASHWRITE OR push_bit FLASHCMDSHIFT block;
     s \<leftarrow> kstore (reg + DTP_DATA0 W) src s;
     sbind (SYSCALL W DOIO (reg + RECV_COMMAND) cmd 0 s) (\<lambda>res s.
       Some (SRet res (active_interrupts W s)))
   }"

section \<open>Lemmas\<close>

lemma sbind_simps [simp]:
  "sbind None f = None"
  "sbind (Some (SRet x s)) f = f x s"
  "sbind (Some (SExit e s)) f = Some (SExit e s)"
  by (simp_all add: sbind_def)

lemma sbind_panic [simp]: "sbind (panic s) f = panic s"
  by (simp add: panic_def)

text \<open>Printing on a log that is intact always works, and leaves an intact log.\<close>

definition logs_ok :: "sstate \<Rightarrow> bool" where
  "logs_ok s \<longleftrightarrow> log_ok (kstderr s) \<and> log_ok (kdebug s)"

lemma kfprintf_ok:
  assumes "logs_ok s" "fmt_ok fmt args"
  shows "\<exists>m. kfprintf_err fmt args s = Some (s\<lparr>kstderr := m\<rparr>) \<and> log_ok m"
    "\<exists>m. kfprintf_debug fmt args s = Some (s\<lparr>kdebug := m\<rparr>) \<and> log_ok m"
  using log.printf_answers[OF _ assms(2), of "kstderr s"] log.printf_answers[OF _ assms(2), of "kdebug s"] assms(1)
  by (auto simp: kfprintf_err_def kfprintf_debug_def pandos_kfprintf_def logs_ok_def)

end
