(* ===== verification/Pager.thy ===== *)
theory Pager
  imports Level
begin

text \<open>
  The pager, \<^verbatim>\<open>phase3/src/pager.c\<close>: the table of the frames of the swap pool, the page tables of
  the user processes, the choice of the frame to use, and the handlers of TLB refills and of page
  faults. The code between two system calls of a handler runs as one step.

  An \<^verbatim>\<open>int\<close> is a word read through \<open>sint\<close>; \<open>c_not\<close> is the logical negation of C.
\<close>

section \<open>Initialisation\<close>

definition init_swap_pool_table :: "sstate \<Rightarrow> sstate" where
  "init_swap_pool_table s = fold (\<lambda>i. upd_swap i (\<lambda>e. e\<lparr>sw_asid := - 1\<rparr>)) [0..<POOLSIZE] s"

definition SWAP_POOL_ADDR :: "sstate \<Rightarrow> u32 option" where
  "SWAP_POOL_ADDR s = do {
     text_data \<leftarrow> kload (KERNELSTACK + 0x0018) s;
     bss \<leftarrow> kload (KERNELSTACK + 0x0024) s;
     Some (text_data + bss)
   }"

definition init_pager :: "sstate \<Rightarrow> sstate option" where
  "init_pager s = do {
     let s = init_swap_pool_table s;
     a \<leftarrow> SWAP_POOL_ADDR s;
     Some (s\<lparr>swap_pool_addr := a\<rparr>)
   }"

text \<open>\<^verbatim>\<open>support_trap\<close> of \<^verbatim>\<open>support.c\<close>: ask for the termination of the calling process.\<close>

abbreviation (input) TERMINATE :: int where "TERMINATE \<equiv> 2"

definition support_trap :: "world \<Rightarrow> sstate \<Rightarrow> unit sres option" where
  "support_trap W s = sbind (SYSCALL W TERMINATE 0 0 0 s) (\<lambda>_ s. Some (SRet () s))"

definition page_entry :: "u32 \<Rightarrow> u32 \<Rightarrow> nat \<Rightarrow> pte_entry_t" where
  "page_entry asid text_file_size i = \<lparr>
     pte_entry_hi = KUSEG + push_bit VPNSHIFT (of_nat i) + push_bit ASIDSHIFT asid,
     pte_entry_lo = (if of_nat i < text_file_size then 0 else DIRTYON)\<rparr>"

definition stack_entry :: "u32 \<Rightarrow> pte_entry_t" where
  "stack_entry asid = \<lparr>pte_entry_hi = KUSEG + GETPAGENO + push_bit ASIDSHIFT asid, pte_entry_lo = DIRTYON\<rparr>"

definition init_page_table :: "world \<Rightarrow> page_table_t \<Rightarrow> u32 \<Rightarrow> sstate \<Rightarrow> bool sres option" where
  "init_page_table W page_table asid s =
     (if page_table = None \<or> sint asid \<le> 0 \<or> sint asid > int UPROCMAX then Some (SRet False s)
      else sbind (read_flash W asid 0 (header_data W) s) (\<lambda>read_status s.
        sbind (if read_status \<noteq> DEV_STATUS_READY then do {
            s \<leftarrow> kfprintf_err ''Failed header read (AISD = %d, status = %d)\<newline>'' [ArgInt asid, ArgInt read_status] s;
            support_trap W s
          } else Some (SRet () s)) (\<lambda>_ s. do {
          data5 \<leftarrow> kload (header_data W + 20) s;
          let text_file_size = data5 div PAGESIZE;
          s \<leftarrow> for_each [0..<MAXPAGES - 1]
            (\<lambda>i. upd_pte page_table (of_nat i) (\<lambda>_. page_entry asid text_file_size i)) s;
          s \<leftarrow> upd_pte page_table (of_nat (MAXPAGES - 1)) (\<lambda>_. stack_entry asid) s;
          Some (SRet True (s\<lparr>swap_pool_batons := (swap_pool_batons s)(unat (asid - 1) := False)\<rparr>))
        })))"

section \<open>Batons\<close>

definition is_valid_asid :: "u32 \<Rightarrow> bool" where
  "is_valid_asid asid \<longleftrightarrow> 1 \<le> sint asid \<and> sint asid \<le> int UPROCMAX"

definition set_swap_pool_baton :: "u32 \<Rightarrow> bool \<Rightarrow> sstate \<Rightarrow> unit sres option" where
  "set_swap_pool_baton asid value s =
     (if \<not> is_valid_asid asid then do {
        s \<leftarrow> kfprintf_err ''memory.c: set_swap_pool_baton: invalid asid\<newline>'' [] s;
        panic s
      } else Some (SRet () (s\<lparr>swap_pool_batons := (swap_pool_batons s)(unat (asid - 1) := value)\<rparr>)))"

definition get_swap_pool_baton :: "u32 \<Rightarrow> sstate \<Rightarrow> bool sres option" where
  "get_swap_pool_baton asid s =
     (if \<not> is_valid_asid asid then do {
        s \<leftarrow> kfprintf_err ''memory.c: get_swap_pool_baton: invalid asid\<newline>'' [] s;
        panic s
      } else Some (SRet (swap_pool_batons s (unat (asid - 1))) s))"

definition release_sem_swap_pool_table :: "world \<Rightarrow> u32 \<Rightarrow> sstate \<Rightarrow> unit sres option" where
  "release_sem_swap_pool_table W asid s = sbind (get_swap_pool_baton asid s) (\<lambda>b s.
     if b then sbind (SYSCALL W VERHOGEN (sem_swap_pool_table W) 0 0 s) (\<lambda>_ s. Some (SRet () s))
     else Some (SRet () s))"

definition mark_frames_as_unoccupied :: "u32 \<Rightarrow> sstate \<Rightarrow> sstate" where
  "mark_frames_as_unoccupied asid s = fold (\<lambda>i s.
     if sw_asid (swap_pool_table s i) = asid then upd_swap i (\<lambda>e. e\<lparr>sw_asid := - 1\<rparr>) s else s)
     [0..<POOLSIZE] s"

definition clean_after_uproc :: "world \<Rightarrow> u32 \<Rightarrow> sstate \<Rightarrow> unit sres option" where
  "clean_after_uproc W asid s = sbind (release_sem_swap_pool_table W asid s) (\<lambda>_ s.
     Some (SRet () (mark_frames_as_unoccupied asid s)))"

section \<open>Page numbers and page table indices\<close>

definition vpn_to_index :: "u32 \<Rightarrow> sstate \<Rightarrow> u32 sres option" where
  "vpn_to_index vpn s =
     (if vpn < drop_bit VPNSHIFT KUSEG then do {
        s \<leftarrow> kfprintf_err ''pager: vpn_to_index: vpn = %p < %p = KUSEG >> VPNSHIFT\<newline>''
          [ArgInt vpn, ArgInt (drop_bit VPNSHIFT KUSEG)] s;
        panic s
      }
      else if vpn = drop_bit VPNSHIFT (KUSEG + GETPAGENO) then Some (SRet (of_nat (MAXPAGES - 1)) s)
      else if vpn \<ge> drop_bit VPNSHIFT KUSEG + of_nat MAXPAGES then do {
        s \<leftarrow> kfprintf_err ''pager: vpn_to_index: invalid vpn %p\<newline>'' [ArgInt vpn] s;
        panic s
      }
      else Some (SRet (vpn - drop_bit VPNSHIFT KUSEG) s))"

definition entryhi_to_vpn :: "u32 \<Rightarrow> sstate \<Rightarrow> u32 sres option" where
  "entryhi_to_vpn entryhi s =
     (if entryhi < KUSEG then do {
        s \<leftarrow> kfprintf_err ''pager: entryhi_to_vpn: entryhi = %p < %p = KUSEG\<newline>'' [ArgInt entryhi, ArgInt KUSEG] s;
        panic s
      }
      else if entryhi \<ge> KUSEG + of_nat (MAXPAGES - 1) * PAGESIZE
          \<and> drop_bit VPNSHIFT entryhi \<noteq> drop_bit VPNSHIFT (KUSEG + GETPAGENO) then do {
        s \<leftarrow> kfprintf_err ''pager: entryhi_to_vpn: %p?\<newline>'' [ArgInt entryhi, ArgInt KUSEG] s;
        panic s
      }
      else Some (SRet (drop_bit VPNSHIFT entryhi) s))"

definition entryhi_to_index :: "u32 \<Rightarrow> sstate \<Rightarrow> u32 sres option" where
  "entryhi_to_index entryhi s = sbind (entryhi_to_vpn entryhi s) (\<lambda>vpn s. vpn_to_index vpn s)"

section \<open>The TLB\<close>

definition add_random_in_tlb :: "world \<Rightarrow> pte_entry_t \<Rightarrow> sstate \<Rightarrow> sstate" where
  "add_random_in_tlb W pte s = (
     let s = s\<lparr>tlb := (tlb s)\<lparr>ENTRYHI := pte_entry_hi pte\<rparr>\<rparr>;
         s = s\<lparr>tlb := (tlb s)\<lparr>ENTRYLO := pte_entry_lo pte\<rparr>\<rparr>
     in s\<lparr>tlb := TLBWR W (tlb s)\<rparr>)"

definition tlb_refill_handler :: "world \<Rightarrow> sstate \<Rightarrow> unit sres option" where
  "tlb_refill_handler W s = (
     let saved_state = states (kernel s) BIOSDATAPAGE in
     sbind (entryhi_to_index (entry_hi saved_state) s) (\<lambda>index s. do {
       a \<leftarrow> active_process (kernel s);
       pte \<leftarrow> (let sup = p_support (pcb_table (kernel s) a) in
          if sup = 0 then None else pte_at (Some sup) index s);
       s \<leftarrow> kfprintf_debug ''TLB-Refill on %p\<newline>'' [ArgInt (entry_hi saved_state)] s;
       load_state saved_state (add_random_in_tlb W pte s)
     }))"

definition check_in_tlb :: "world \<Rightarrow> pte_entry_t \<Rightarrow> sstate \<Rightarrow> bool \<times> sstate" where
  "check_in_tlb W pte s = (
     let s = s\<lparr>tlb := (tlb s)\<lparr>ENTRYHI := pte_entry_hi pte\<rparr>\<rparr>;
         s = s\<lparr>tlb := TLBP W (tlb s)\<rparr>
     in (INDEX (tlb s) AND PRESENTFLAG = 0, s))"

definition update_tlb :: "world \<Rightarrow> pte_entry_t \<Rightarrow> sstate \<Rightarrow> sstate" where
  "update_tlb W pte s = (
     let (present, s) = check_in_tlb W pte s in
     if present then
       let s = s\<lparr>tlb := (tlb s)\<lparr>ENTRYHI := pte_entry_hi pte\<rparr>\<rparr>;
           s = s\<lparr>tlb := (tlb s)\<lparr>ENTRYLO := pte_entry_lo pte\<rparr>\<rparr>
       in s\<lparr>tlb := TLBWI W (tlb s)\<rparr>
     else s)"

section \<open>Frames\<close>

definition check_frame_occupied :: "swap_t \<Rightarrow> bool" where
  "check_frame_occupied frame \<longleftrightarrow> sw_asid frame \<noteq> - 1"

definition pick_page :: "sstate \<Rightarrow> nat \<times> sstate" where
  "pick_page s = (case find (\<lambda>index. \<not> check_frame_occupied (swap_pool_table s index)) [0..<POOLSIZE] of
     Some index \<Rightarrow> (index, s)
   | None \<Rightarrow> let i = (fifo_index s + 1) mod of_nat POOLSIZE in (unat i, s\<lparr>fifo_index := i\<rparr>))"

definition page_addr :: "u32 \<Rightarrow> sstate \<Rightarrow> u32" where
  "page_addr i s = (if i \<ge> of_nat POOLSIZE then 0 else swap_pool_addr s + i * PAGESIZE)"

definition c_not :: "u32 \<Rightarrow> u32" where
  "c_not x = (if x = 0 then 1 else 0)"

definition mark_page_not_valid :: "page_table_t \<Rightarrow> u32 \<Rightarrow> sstate \<Rightarrow> sstate option" where
  "mark_page_not_valid page_table index =
     upd_pte page_table index (\<lambda>e. e\<lparr>pte_entry_lo := pte_entry_lo e AND c_not VALIDON\<rparr>)"

definition add_entry_swap_pool_table :: "nat \<Rightarrow> u32 \<Rightarrow> u32 \<Rightarrow> page_table_t \<Rightarrow> sstate \<Rightarrow> unit sres option" where
  "add_entry_swap_pool_table frame_no asid vpn page_table s = (
     let s = upd_swap frame_no (\<lambda>e. e\<lparr>sw_asid := asid\<rparr>) s;
         s = upd_swap frame_no (\<lambda>e. e\<lparr>sw_page_no := vpn\<rparr>) s
     in sbind (vpn_to_index vpn s) (\<lambda>i s. do {
          a \<leftarrow> page_table;
          Some (SRet () (upd_swap frame_no (\<lambda>e. e\<lparr>sw_pte := Some (a, i)\<rparr>) s))
        }))"

definition update_page_table :: "page_table_t \<Rightarrow> u32 \<Rightarrow> u32 \<Rightarrow> sstate \<Rightarrow> sstate option" where
  "update_page_table page_table index frame_addr =
     upd_pte page_table index (\<lambda>e. e\<lparr>pte_entry_lo := frame_addr OR VALIDON OR DIRTYON\<rparr>)"

section \<open>The page fault handler\<close>

abbreviation (input) CAUSE_TLB_MOD :: u32 where "CAUSE_TLB_MOD \<equiv> 1"

definition pte_deref :: "pte_ptr \<Rightarrow> sstate \<Rightarrow> pte_entry_t option" where
  "pte_deref p s = (case p of None \<Rightarrow> None | Some (a, i) \<Rightarrow> pte_at (Some a) i s)"

text \<open>
  Writing back the page in the chosen frame, if there is one (\<open>swap\<close> is the frame's entry in the
  swap pool table).
\<close>

definition write_back :: "world \<Rightarrow> u32 \<Rightarrow> nat \<Rightarrow> swap_t \<Rightarrow> sstate \<Rightarrow> unit sres option" where
  "write_back W support victim_frame swap s =
     (if check_frame_occupied swap then do {
        pte \<leftarrow> pte_deref (sw_pte swap) s;
        sbind (entryhi_to_vpn (pte_entry_hi pte) s) (\<lambda>k_vpn s.
        sbind (vpn_to_index k_vpn s) (\<lambda>k_index s. do {
          let s = deactive_interrupts W s;
          s \<leftarrow> mark_page_not_valid (Some support) k_index s;
          pte \<leftarrow> pte_deref (sw_pte swap) s;
          let s = update_tlb W pte s;
          let s = active_interrupts W s;
          sbind (write_flash W (sw_asid swap) k_index (page_addr (of_nat victim_frame) s) s)
            (\<lambda>write_status s.
            if write_status \<noteq> DEV_STATUS_READY then do {
              s \<leftarrow> kfprintf_err ''Error on flash write (k_index = %d, status = %d)\<newline>''
                [ArgInt k_index, ArgInt write_status] s;
              support_trap W s
            } else Some (SRet () s))
        }))
      } else Some (SRet () s))"

text \<open>Reading the missing page into the frame, and entering it into the tables.\<close>

definition read_in :: "world \<Rightarrow> u32 \<Rightarrow> nat \<Rightarrow> u32 \<Rightarrow> u32 \<Rightarrow> u32 \<Rightarrow> sstate \<Rightarrow> unit sres option" where
  "read_in W support victim_frame victim_frame_addr p_vpn p_index s = do {
     sup \<leftarrow> support_at support s;
     sbind (read_flash W (sup_asid sup) p_index victim_frame_addr s) (\<lambda>read_status s.
     sbind (if read_status \<noteq> DEV_STATUS_READY then do {
         s \<leftarrow> kfprintf_err ''Error on flash read (p_index = %d, status = %d)\<newline>''
           [ArgInt p_index, ArgInt read_status] s;
         support_trap W s
       } else Some (SRet () s)) (\<lambda>_ s. do {
       let s = deactive_interrupts W s;
       sup \<leftarrow> support_at support s;
       sbind (add_entry_swap_pool_table victim_frame (sup_asid sup) p_vpn (Some support) s) (\<lambda>_ s. do {
         s \<leftarrow> update_page_table (Some support) p_index victim_frame_addr s;
         pte \<leftarrow> pte_at (Some support) p_index s;
         let s = update_tlb W pte s;
         Some (SRet () (active_interrupts W s))
       })
     }))
   }"

text \<open>
  The end of the handler: release the swap pool table and retry the instruction; and the handler from
  the moment it has got hold of the table.
\<close>

definition retry :: "world \<Rightarrow> u32 \<Rightarrow> sstate \<Rightarrow> unit sres option" where
  "retry W support s = sbind (SYSCALL W VERHOGEN (sem_swap_pool_table W) 0 0 s) (\<lambda>_ s. do {
     sup \<leftarrow> support_at support s;
     sbind (set_swap_pool_baton (sup_asid sup) False s) (\<lambda>_ s. do {
       sup \<leftarrow> support_at support s;
       load_state (sup_except_state sup PGFAULTEXCEPT) s
     })
   })"

definition page_fault :: "world \<Rightarrow> u32 \<Rightarrow> sstate \<Rightarrow> unit sres option" where
  "page_fault W support s = do {
     sup \<leftarrow> support_at support s;
     sbind (set_swap_pool_baton (sup_asid sup) True s) (\<lambda>_ s. do {
       let (victim_frame, s) = pick_page s;
       let victim_frame_addr = swap_pool_addr s + of_nat victim_frame * PAGESIZE;
       s \<leftarrow> kfprintf_debug ''Victim: %p\<newline>'' [ArgInt victim_frame_addr] s;
       sup \<leftarrow> support_at support s;
       sbind (entryhi_to_vpn (entry_hi (sup_except_state sup PGFAULTEXCEPT)) s) (\<lambda>p_vpn s.
       sbind (vpn_to_index p_vpn s) (\<lambda>p_index s.
       sbind (write_back W support victim_frame (swap_pool_table s victim_frame) s) (\<lambda>_ s.
       sbind (read_in W support victim_frame victim_frame_addr p_vpn p_index s) (\<lambda>_ s.
       retry W support s))))
     })
   }"

definition support_tlb :: "world \<Rightarrow> sstate \<Rightarrow> unit sres option" where
  "support_tlb W s = sbind (SYSCALL W GETSUPPORTPTR 0 0 0 s) (\<lambda>support s. do {
     sup \<leftarrow> support_at support s;
     if cause (sup_except_state sup PGFAULTEXCEPT) = CAUSE_TLB_MOD then support_trap W s
     else sbind (SYSCALL W PASSEREN (sem_swap_pool_table W) 0 0 s) (\<lambda>_ s. page_fault W support s)
   })"

end
