(* ===== verification/Supports.thy ===== *)
theory Supports
  imports Pager
begin

text \<open>
  The allocation of support structures, in \<^verbatim>\<open>phase3/src/test.c\<close>: a table of \<^verbatim>\<open>UPROCMAX\<close> structures
  and a list of those that are free, linked through their member \<^verbatim>\<open>p_list\<close>.
\<close>

section \<open>Operations\<close>

definition support_slot :: "world \<Rightarrow> nat \<Rightarrow> u32" where
  "support_slot W i = support_table W + of_nat i * sizeof_support_t W"

text \<open>The index of a structure, as a pointer difference.\<close>

definition slot_of :: "world \<Rightarrow> u32 \<Rightarrow> u32" where
  "slot_of W a = (a - support_table W) div sizeof_support_t W"

fun container_of_sup_p_list :: "snode ptr \<Rightarrow> u32 option" where
  "container_of_sup_p_list (Some (sup_p_list a)) = Some a"
| "container_of_sup_p_list _ = None"

definition log_free_size :: "sstate \<Rightarrow> sstate option" where
  "log_free_size s = do {
     n \<leftarrow> list_size (Some support_free) (supp_lh s);
     kfprintf_debug ''|support_free| = %d\<newline>'' [ArgInt (word_of_int n)] s
   }"

definition allocate :: "world \<Rightarrow> sstate \<Rightarrow> u32 sres option" where
  "allocate W s = do {
     lh \<leftarrow> list_next (Some support_free) (supp_lh s);
     if lh = None then do {
       s \<leftarrow> kfprintf_err ''Out of support_t\<newline>'' [] s;
       panic s
     } else do {
       h \<leftarrow> list_del lh (supp_lh s);
       let s = s\<lparr>supp_lh := h\<rparr>;
       res \<leftarrow> container_of_sup_p_list lh;
       s \<leftarrow> kfprintf_debug ''Alloc support_t #%d...\<newline>'' [ArgInt (slot_of W res)] s;
       s \<leftarrow> log_free_size s;
       Some (SRet res s)
     }
   }"

definition deallocate :: "world \<Rightarrow> u32 \<Rightarrow> sstate \<Rightarrow> unit sres option" where
  "deallocate W a s =
     (if a = 0 then do {
        s \<leftarrow> kfprintf_err ''NULL deallocation.\<newline>'' [] s;
        panic s
      } else do {
        found \<leftarrow> list_contains (sup_p_list a) (Some support_free) (supp_lh s);
        if found then do {
          s \<leftarrow> kfprintf_err ''Double support_t %p deallocation.\<newline>'' [ArgInt a] s;
          panic s
        } else do {
          s \<leftarrow> kfprintf_debug ''Deallocating #%d...\<newline>'' [ArgInt (slot_of W a)] s;
          h \<leftarrow> list_add (Some (sup_p_list a)) (Some support_free) (supp_lh s);
          s \<leftarrow> log_free_size (s\<lparr>supp_lh := h\<rparr>);
          Some (SRet () s)
        }
      })"

definition deallocate_support :: "world \<Rightarrow> u32 \<Rightarrow> sstate \<Rightarrow> unit sres option" where
  "deallocate_support W a s = deallocate W a s"

fun deallocate_all :: "world \<Rightarrow> nat list \<Rightarrow> sstate \<Rightarrow> unit sres option" where
  "deallocate_all W [] s = Some (SRet () s)"
| "deallocate_all W (i # is) s = sbind (deallocate W (support_slot W i) s) (\<lambda>_ s. deallocate_all W is s)"

definition init_supports :: "world \<Rightarrow> sstate \<Rightarrow> unit sres option" where
  "init_supports W s = do {
     h \<leftarrow> INIT_LIST_HEAD (Some support_free) (supp_lh s);
     deallocate_all W [0..<UPROCMAX] (s\<lparr>supp_lh := h\<rparr>)
   }"

end
