(* ===== verification/Uproc.thy ===== *)
theory Uproc
  imports Supports
begin

text \<open>
  The support level's system calls and its general exception handler, \<^verbatim>\<open>phase3/src/support.c\<close>. A
  string of a user process is read and written through \<open>user_mem\<close>, byte by byte, as the process
  sees it; plain \<^verbatim>\<open>char\<close> is signed.
\<close>

section \<open>Constants\<close>

abbreviation (input) PRINTCHR :: u32 where "PRINTCHR \<equiv> 2"
abbreviation (input) RECVD :: u32 where "RECVD \<equiv> 5"
abbreviation (input) MAXLEN :: u32 where "MAXLEN \<equiv> 128"
abbreviation (input) RECEIVE_CHAR :: u32 where "RECEIVE_CHAR \<equiv> 2"
abbreviation (input) GET_TOD :: int where "GET_TOD \<equiv> 1"
abbreviation (input) WRITEPRINTER :: int where "WRITEPRINTER \<equiv> 3"
abbreviation (input) WRITETERMINAL :: int where "WRITETERMINAL \<equiv> 4"
abbreviation (input) READTERMINAL :: int where "READTERMINAL \<equiv> 5"

definition RECEIVE_STATUS :: "u32 \<Rightarrow> u32" where
  "RECEIVE_STATUS v = v AND 0xF"

definition RECEIVE_VALUE :: "u32 \<Rightarrow> u32" where
  "RECEIVE_VALUE v = drop_bit 8 v AND 0xFF"

section \<open>Semaphores\<close>

text \<open>The address of an element of one of the arrays of semaphores.\<close>

definition sem_elem :: "u32 \<Rightarrow> u32 \<Rightarrow> u32" where
  "sem_elem base i = base + 4 * i"

definition init_sys_semaphores :: "world \<Rightarrow> sstate \<Rightarrow> sstate option" where
  "init_sys_semaphores W = for_each [0..<UPROCMAX] (\<lambda>i s. do {
     s \<leftarrow> kstore (sem_elem (sys5_semaphores W) (of_nat i)) 1 s;
     s \<leftarrow> kstore (sem_elem (sys4_semaphores W) (of_nat i)) 1 s;
     kstore (sem_elem (sys3_semaphores W) (of_nat i)) 1 s
   })"

definition master_semaphore_v :: "world \<Rightarrow> sstate \<Rightarrow> unit sres option" where
  "master_semaphore_v W s = sbind (SYSCALL W VERHOGEN (master_semaphore W) 0 0 s) (\<lambda>_ s. Some (SRet () s))"

definition master_semaphore_p :: "world \<Rightarrow> sstate \<Rightarrow> unit sres option" where
  "master_semaphore_p W s = sbind (SYSCALL W PASSEREN (master_semaphore W) 0 0 s) (\<lambda>_ s. Some (SRet () s))"

section \<open>System calls\<close>

definition sys_get_tod :: "sstate \<Rightarrow> u32 sres option" where
  "sys_get_tod s = (let (time, k) = store_tod (kernel s) in Some (SRet time (s\<lparr>kernel := k\<rparr>)))"

definition sys_terminate :: "world \<Rightarrow> sstate \<Rightarrow> unit sres option" where
  "sys_terminate W s = sbind (SYSCALL W GETSUPPORTPTR 0 0 0 s) (\<lambda>support s. do {
     sup \<leftarrow> support_at support s;
     sbind (clean_after_uproc W (sup_asid sup) s) (\<lambda>_ s.
     sbind (deallocate_support W support s) (\<lambda>_ s.
     sbind (master_semaphore_v W s) (\<lambda>_ s.
     sbind (SYSCALL W TERMPROCESS 0 0 0 s) (\<lambda>_ s. Some (SRet () s)))))
   })"

text \<open>The status bits a writer looks at, and the command for one character.\<close>

definition writer_mask :: "bool \<Rightarrow> u32" where
  "writer_mask terminal = (if terminal then TERMSTATMASK else - 1)"

definition writer_command :: "bool \<Rightarrow> 8 word \<Rightarrow> u32" where
  "writer_command terminal c = PRINTCHR OR (if terminal then push_bit 8 (scast c) else 0)"

fun writer_loop :: "world \<Rightarrow> bool \<Rightarrow> u32 \<Rightarrow> u32 \<Rightarrow> u32 \<Rightarrow> nat list \<Rightarrow> sstate \<Rightarrow> u32 option sres option" where
  "writer_loop W terminal device sem str [] s = Some (SRet None s)"
| "writer_loop W terminal device sem str (i # is) s = do {
     let c = user_mem s (str + of_nat i);
     s \<leftarrow> (if \<not> terminal then kstore (device + DTP_DATA0 W) (scast c) s else Some s);
     sbind (SYSCALL W DOIO (if terminal then device + TRANSM_COMMAND else device + RECV_COMMAND)
         (writer_command terminal c) 0 s) (\<lambda>stat s.
       if stat AND writer_mask terminal \<noteq> (if terminal then RECVD else DEV_STATUS_READY)
       then sbind (SYSCALL W VERHOGEN sem 0 0 s) (\<lambda>_ s.
         Some (SRet (Some (- (stat AND writer_mask terminal))) s))
       else writer_loop W terminal device sem str is s)
   }"

definition syscall_writer :: "world \<Rightarrow> nat \<Rightarrow> sstate \<Rightarrow> u32 sres option" where
  "syscall_writer W il_n s = sbind (SYSCALL W GETSUPPORTPTR 0 0 0 s) (\<lambda>current_support s. do {
     sup \<leftarrow> support_at current_support s;
     let ident = sup_asid sup - 1;
     let str = gpr (sup_except_state sup GENERALEXCEPT) reg_a1;
     let len = gpr (sup_except_state sup GENERALEXCEPT) reg_a2;
     sbind (if len > MAXLEN \<or> str < KUSEG then SYSCALL W TERMINATE 0 0 0 s else Some (SRet 0 s)) (\<lambda>_ s.
       let device = DEV_REG_ADDR W (of_nat il_n) ident in
       if il_n \<noteq> IL_PRINTER (emu W) \<and> il_n \<noteq> IL_TERMINAL (emu W) then do {
         s \<leftarrow> kfprintf_err ''Unimplemented write for class #%d\<newline>'' [ArgInt (of_nat il_n)] s;
         panic s
       } else
         let terminal = (il_n \<noteq> IL_PRINTER (emu W));
             sem = sem_elem (if terminal then sys4_semaphores W else sys3_semaphores W) ident
         in sbind (SYSCALL W PASSEREN sem 0 0 s) (\<lambda>_ s.
            sbind (writer_loop W terminal device sem str [0..<unat len] s) (\<lambda>r s.
              case r of Some e \<Rightarrow> Some (SRet e s)
              | None \<Rightarrow> sbind (SYSCALL W VERHOGEN sem 0 0 s) (\<lambda>_ s. Some (SRet len s)))))
   })"

definition sys_write_printer :: "world \<Rightarrow> sstate \<Rightarrow> u32 sres option" where
  "sys_write_printer W s = syscall_writer W (IL_PRINTER (emu W)) s"

definition sys_write_terminal :: "world \<Rightarrow> sstate \<Rightarrow> u32 sres option" where
  "sys_write_terminal W s = syscall_writer W (IL_TERMINAL (emu W)) s"

text \<open>
  The loop that reads a line. It ends at a newline or at an error; \<open>Inl\<close> is the value returned on
  an error, \<open>Inr\<close> the number of characters read.
\<close>

partial_function (option) reader_loop :: "world \<Rightarrow> u32 \<Rightarrow> u32 \<Rightarrow> u32 \<Rightarrow> u32 \<Rightarrow> sstate \<Rightarrow> (u32 + u32) sres option" where
  "reader_loop W base sem buf read s =
     (case SYSCALL W DOIO (base + RECV_COMMAND) RECEIVE_CHAR 0 s of
        None \<Rightarrow> None
      | Some (SExit e s) \<Rightarrow> Some (SExit e s)
      | Some (SRet stat s) \<Rightarrow>
          if RECEIVE_STATUS stat \<noteq> DEV_STATUS_TERMINAL_OK
          then sbind (SYSCALL W VERHOGEN sem 0 0 s) (\<lambda>_ s.
            Some (SRet (Inl (- RECEIVE_STATUS stat)) s))
          else
            let r = ucast (RECEIVE_VALUE stat);
                s = s\<lparr>user_mem := (user_mem s)(buf + read := r)\<rparr>
            in if r = 10 then Some (SRet (Inr (read + 1)) s)
               else reader_loop W base sem buf (read + 1) s)"

definition sys_read_terminal :: "world \<Rightarrow> sstate \<Rightarrow> u32 sres option" where
  "sys_read_terminal W s = sbind (SYSCALL W GETSUPPORTPTR 0 0 0 s) (\<lambda>current_support s. do {
     sup \<leftarrow> support_at current_support s;
     let termid = sup_asid sup - 1;
     let base = DEV_REG_ADDR W (of_nat (IL_TERMINAL (emu W))) termid;
     let buf = gpr (sup_except_state sup GENERALEXCEPT) reg_a1;
     let sem = sem_elem (sys5_semaphores W) termid;
     sbind (if buf < KUSEG then SYSCALL W TERMINATE 0 0 0 s else Some (SRet 0 s)) (\<lambda>_ s.
     sbind (SYSCALL W PASSEREN sem 0 0 s) (\<lambda>_ s.
     sbind (reader_loop W base sem buf 0 s) (\<lambda>r s. case r of
         Inl e \<Rightarrow> Some (SRet e s)
       | Inr read \<Rightarrow> sbind (SYSCALL W VERHOGEN sem 0 0 s) (\<lambda>_ s.
           Some (SRet read (s\<lparr>user_mem := (user_mem s)(buf + read := 0)\<rparr>))))))
   })"

section \<open>Exceptions\<close>

text \<open>The step past the SYSCALL instruction, in the control block of the running process.\<close>

definition skip_instruction :: "world \<Rightarrow> sstate \<Rightarrow> sstate option" where
  "skip_instruction W s = (case active_process (kernel s) of None \<Rightarrow> None | Some a \<Rightarrow>
     let t9 = get_reg a reg_t9 (kernel s) + WORD_SIZE (emu W) in
     Some (s\<lparr>kernel := upd_pcb a (\<lambda>p. p\<lparr>p_s := (p_s p)\<lparr>pc_epc := t9,
       gpr := (gpr (p_s p))(reg_t9 := t9)\<rparr>\<rparr>) (kernel s)\<rparr>))"

definition support_syscall :: "world \<Rightarrow> u32 \<Rightarrow> sstate \<Rightarrow> unit sres option" where
  "support_syscall W current_support s = do {
     s \<leftarrow> skip_instruction W s;
     sup \<leftarrow> support_at current_support s;
     let ident = sint (gpr (sup_except_state sup GENERALEXCEPT) reg_a0);
     s \<leftarrow> kfprintf_debug ''Syscall #%d\<newline>'' [ArgInt (word_of_int ident)] s;
     let store_result = (\<lambda>result s. do {
       s \<leftarrow> upd_support current_support (\<lambda>sup. sup\<lparr>sup_except_state := (sup_except_state sup)(GENERALEXCEPT :=
         (sup_except_state sup GENERALEXCEPT)\<lparr>gpr :=
           (gpr (sup_except_state sup GENERALEXCEPT))(reg_v0 := result)\<rparr>)\<rparr>) s;
       Some (SRet () s)
     });
     if ident = GET_TOD then sbind (sys_get_tod s) store_result
     else if ident = WRITEPRINTER then sbind (sys_write_printer W s) store_result
     else if ident = WRITETERMINAL then sbind (sys_write_terminal W s) store_result
     else if ident = READTERMINAL then sbind (sys_read_terminal W s) store_result
     else sys_terminate W s
   }"

definition support_generic :: "world \<Rightarrow> sstate \<Rightarrow> unit sres option" where
  "support_generic W s = sbind (SYSCALL W GETSUPPORTPTR 0 0 0 s) (\<lambda>current_support s. do {
     sup \<leftarrow> support_at current_support s;
     let ident = CAUSE_GET_EXCCODE (emu W) (cause (sup_except_state sup GENERALEXCEPT));
     sbind (if ident = 8 then support_syscall W current_support s else support_trap W s) (\<lambda>_ s. do {
       s \<leftarrow> upd_support current_support (\<lambda>sup. sup\<lparr>sup_except_state := (sup_except_state sup)(GENERALEXCEPT :=
         (sup_except_state sup GENERALEXCEPT)\<lparr>pc_epc := pc_epc (sup_except_state sup GENERALEXCEPT) + WORD_SIZE (emu W),
           gpr := (gpr (sup_except_state sup GENERALEXCEPT))
             (reg_t9 := gpr (sup_except_state sup GENERALEXCEPT) reg_t9 + WORD_SIZE (emu W))\<rparr>)\<rparr>) s;
       sup \<leftarrow> support_at current_support s;
       load_state (sup_except_state sup GENERALEXCEPT) s
     })
   })"

end
