(* ===== verification/Instantiator.thy ===== *)
theory Instantiator
  imports Uproc
begin

text \<open>
  The instantiator process, \<^verbatim>\<open>test()\<close> in \<^verbatim>\<open>phase3/src/test.c\<close>: it sets up the support level, starts
  \<^verbatim>\<open>UPROCMAX\<close> user processes, each with a support structure and a page table of its own, waits until
  all of them have ended, and ends itself. The local variable \<^verbatim>\<open>pstate\<close> lives at \<open>pstate_addr\<close>.
\<close>

section \<open>The state of a new process\<close>

definition upd_state :: "u32 \<Rightarrow> (state_t \<Rightarrow> state_t) \<Rightarrow> sstate \<Rightarrow> sstate" where
  "upd_state a f s = s\<lparr>kernel := (kernel s)\<lparr>states := (states (kernel s))(a := f (states (kernel s) a))\<rparr>\<rparr>"

definition uproc_status :: "umps \<Rightarrow> u32 \<Rightarrow> u32" where
  "uproc_status U st = (
     let st = status_local_timer_on U st;
         st = status_interrupts_on_process U st;
         st = status_il_on_all U st
     in status_kernel_mode_off_process U st)"

definition handler_status :: "umps \<Rightarrow> u32 \<Rightarrow> u32" where
  "handler_status U st = (
     let st = status_local_timer_on U st;
         st = status_interrupts_on_process U st;
         st = status_il_on_all U st
     in status_kernel_mode_on_process U st)"

definition init_pstate :: "world \<Rightarrow> sstate \<Rightarrow> sstate" where
  "init_pstate W = upd_state (pstate_addr W) (\<lambda>p. p\<lparr>pc_epc := UPROCSTARTADDR,
     gpr := (gpr p)(reg_sp := USERSTACKTOP, reg_t9 := UPROCSTARTADDR),
     status := uproc_status (emu W) (status p)\<rparr>)"

definition init_contexts :: "world \<Rightarrow> u32 \<Rightarrow> u32 \<Rightarrow> u32 \<Rightarrow> support_t \<Rightarrow> support_t" where
  "init_contexts W ramtop asid support_status S = S\<lparr>sup_except_context := (sup_except_context S)
     (PGFAULTEXCEPT := \<lparr>c_stack_ptr = ramtop - 2 * asid * PAGESIZE, c_status = support_status,
        c_pc = support_tlb_addr W\<rparr>,
      GENERALEXCEPT := \<lparr>c_stack_ptr = ramtop - 2 * asid * PAGESIZE + PAGESIZE, c_status = support_status,
        c_pc = support_generic_addr W\<rparr>)\<rparr>"

section \<open>The processes\<close>

definition start_uproc :: "world \<Rightarrow> u32 \<Rightarrow> u32 \<Rightarrow> nat \<Rightarrow> sstate \<Rightarrow> unit sres option" where
  "start_uproc W ramtop support_status i s = (
     let asid = of_nat i + 1;
         s = upd_state (pstate_addr W) (\<lambda>p. p\<lparr>entry_hi := push_bit ASIDSHIFT asid\<rparr>) s in
     sbind (allocate W s) (\<lambda>support_structure s. do {
       s \<leftarrow> upd_support support_structure (\<lambda>sup. sup\<lparr>sup_asid := asid\<rparr>) s;
       sbind (init_page_table W (Some support_structure) asid s) (\<lambda>ok s.
         if \<not> ok then do {
           s \<leftarrow> kfprintf_err ''Failed to initialize page table (ASID = %d)\<newline>'' [ArgInt asid] s;
           panic s
         } else do {
           s \<leftarrow> upd_support support_structure (init_contexts W ramtop asid support_status) s;
           sbind (SYSCALL W CREATEPROCESS (pstate_addr W) PROCESS_PRIO_LOW support_structure s)
             (\<lambda>_ s. Some (SRet () s))
         })
     }))"

fun start_uprocs :: "world \<Rightarrow> u32 \<Rightarrow> u32 \<Rightarrow> nat list \<Rightarrow> sstate \<Rightarrow> unit sres option" where
  "start_uprocs W ramtop support_status [] s = Some (SRet () s)"
| "start_uprocs W ramtop support_status (i # is) s =
     sbind (start_uproc W ramtop support_status i s) (\<lambda>_ s. start_uprocs W ramtop support_status is s)"

fun wait_uprocs :: "world \<Rightarrow> nat list \<Rightarrow> sstate \<Rightarrow> unit sres option" where
  "wait_uprocs W [] s = Some (SRet () s)"
| "wait_uprocs W (i # is) s = sbind (master_semaphore_p W s) (\<lambda>_ s. wait_uprocs W is s)"

definition test :: "world \<Rightarrow> sstate \<Rightarrow> unit sres option" where
  "test W s = do {
     s \<leftarrow> init_sys_semaphores W s;
     s \<leftarrow> init_pager s;
     sbind (init_supports W s) (\<lambda>_ s. do {
       let s = init_pstate W s;
       let support_status = handler_status (emu W) (status (states (kernel s) (pstate_addr W)));
       base \<leftarrow> kload RAMBASEADDR s;
       size \<leftarrow> kload RAMBASESIZE s;
       let ramtop = base + size;
       sbind (start_uprocs W ramtop support_status [0..<UPROCMAX] s) (\<lambda>_ s.
       sbind (wait_uprocs W [0..<UPROCMAX] s) (\<lambda>_ s.
       sbind (SYSCALL W TERMPROCESS 0 0 0 s) (\<lambda>_ s. Some (SRet () s))))
     })
   }"

end
