(* ===== verification/Paging.thy ===== *)
theory Paging
  imports Instantiator
begin

text \<open>
  What the pager does: the specification of the translation from addresses to page table indices,
  of the replacement policy and of the handling of a page fault, with the lemmas that the
  definitions of \<open>Pager\<close> implement them.

  The environment of a handler is described by \<open>gives_to\<close>: a system call answers with a given value
  and leaves the data of the support level alone, given that the nucleus' state satisfies \<open>I\<close>, and
  \<open>J\<close> holds when the caller runs on. This is what mutual exclusion on the swap pool is for: the
  handler has the table from the P that leads to \<open>I\<close> to the V that leads to \<open>J\<close>.
\<close>

section \<open>Addresses and indices\<close>

text \<open>The page table index of an address, on natural numbers.\<close>

definition page_of :: "u32 \<Rightarrow> nat option" where
  "page_of a = (let p = unat a div 4096 in
     if 0x80000 \<le> p \<and> p < 0x80000 + 31 then Some (p - 0x80000)
     else if p = 0xBFFFF then Some 31 else None)"

definition panics :: "'a sres option \<Rightarrow> bool" where
  "panics r \<longleftrightarrow> (\<exists>s. r = Some (SExit SPANIC s))"

lemma panics_panic [simp]: "panics (panic s)"
  by (simp add: panics_def panic_def)

lemma panics_sbind: "panics m \<Longrightarrow> panics (sbind m f)"
  by (auto simp: panics_def)

lemma panics_err:
  assumes "logs_ok s" "fmt_ok fmt args"
  shows "panics (do { s \<leftarrow> kfprintf_err fmt args s; panic s })"
  using kfprintf_ok(1)[OF assms] by auto

lemma page_of_less: "page_of a = Some i \<Longrightarrow> i < MAXPAGES"
  by (auto simp: page_of_def Let_def split: if_splits)

lemma unat_drop_vpn: "unat (drop_bit VPNSHIFT (a :: u32)) = unat a div 4096"
  by (simp add: unat_drop_bit_eq drop_bit_eq_div unat_div)

lemma vpn_const: "drop_bit VPNSHIFT KUSEG = (0x80000 :: u32)" "drop_bit VPNSHIFT (KUSEG + GETPAGENO) = (0xBFFFF :: u32)"
  by (simp_all add: drop_bit_eq_div)

lemma vpn_to_index_page:
  "page_of a = Some i \<Longrightarrow> vpn_to_index (drop_bit VPNSHIFT a) s = Some (SRet (of_nat i) s)"
proof -
  assume p: "page_of a = Some i"
  let ?v = "drop_bit VPNSHIFT a"
  have u: "unat ?v = unat a div 4096" by (rule unat_drop_vpn)
  have c: "?v = 0xBFFFF \<longleftrightarrow> unat a div 4096 = 0xBFFFF" "?v < 0x80000 \<longleftrightarrow> unat a div 4096 < 0x80000"
    "?v \<ge> 0x80020 \<longleftrightarrow> unat a div 4096 \<ge> 0x80020"
    using u by (simp_all add: word_less_nat_alt word_le_nat_alt word_unat_eq_iff)
  show ?thesis
  proof (cases "unat a div 4096 = 0xBFFFF")
    case True
    then show ?thesis using p c by (auto simp: vpn_to_index_def vpn_const page_of_def Let_def)
  next
    case False
    then have i: "0x80000 \<le> unat a div 4096" "unat a div 4096 < 0x80000 + 31" "i = unat a div 4096 - 0x80000"
      using p by (auto simp: page_of_def Let_def split: if_splits)
    have "?v - 0x80000 = of_nat i" using u i by (simp add: word_unat_eq_iff unat_sub_if' unat_of_nat)
    then show ?thesis using False i c by (simp add: vpn_to_index_def vpn_const)
  qed
qed

lemma entryhi_to_vpn_page:
  assumes "logs_ok s"
  shows "page_of a = Some i \<Longrightarrow> entryhi_to_vpn a s = Some (SRet (drop_bit VPNSHIFT a) s)"
    "page_of a = None \<Longrightarrow> panics (entryhi_to_vpn a s)"
proof -
  have c: "a < KUSEG \<longleftrightarrow> unat a div 4096 < 0x80000"
    "a \<ge> KUSEG + of_nat (MAXPAGES - 1) * PAGESIZE \<longleftrightarrow> unat a div 4096 \<ge> 0x80000 + 31"
    by (simp_all add: word_less_nat_alt word_le_nat_alt) linarith+
  have d: "drop_bit VPNSHIFT a = 0xBFFFF \<longleftrightarrow> unat a div 4096 = 0xBFFFF"
    by (simp add: word_unat_eq_iff unat_drop_vpn)
  show "page_of a = Some i \<Longrightarrow> entryhi_to_vpn a s = Some (SRet (drop_bit VPNSHIFT a) s)"
    unfolding entryhi_to_vpn_def c vpn_const d by (auto simp: page_of_def Let_def split: if_splits)
  show "panics (entryhi_to_vpn a s)" if "page_of a = None"
  proof (cases "unat a div 4096 < 0x80000")
    case True
    then show ?thesis unfolding entryhi_to_vpn_def c vpn_const d by (simp add: panics_err[OF assms])
  next
    case False
    then have "unat a div 4096 \<ge> 0x80000 + 31 \<and> unat a div 4096 \<noteq> 0xBFFFF"
      using that by (auto simp: page_of_def Let_def split: if_splits)
    then show ?thesis unfolding entryhi_to_vpn_def c vpn_const d by (simp add: panics_err[OF assms])
  qed
qed

lemma entryhi_to_index_page:
  assumes "logs_ok s"
  shows "page_of a = Some i \<Longrightarrow> entryhi_to_index a s = Some (SRet (of_nat i) s)"
    "page_of a = None \<Longrightarrow> panics (entryhi_to_index a s)"
proof -
  show "page_of a = Some i \<Longrightarrow> entryhi_to_index a s = Some (SRet (of_nat i) s)"
    by (simp add: entryhi_to_index_def entryhi_to_vpn_page(1)[OF assms] vpn_to_index_page)
  show "page_of a = None \<Longrightarrow> panics (entryhi_to_index a s)"
    using entryhi_to_vpn_page(2)[OF assms] by (simp add: entryhi_to_index_def panics_sbind)
qed

text \<open>The page number that the pager computes with, and the one it keeps in the swap pool table.\<close>

lemma unat_sint: "0 \<le> sint (w :: u32) \<Longrightarrow> int (unat w) = sint w"
proof -
  assume "0 \<le> sint w"
  moreover have "uint w = uint (word_of_int (sint w) :: u32)" by simp
  moreover have "\<dots> = sint w mod 2 ^ 32" by (simp only: uint_word_of_int) simp
  ultimately show ?thesis using sint_range(2)[of w] by (simp add: mod_pos_pos_trivial)
qed

lemma page_of_entry:
  assumes "i < MAXPAGES - 1" "1 \<le> sint asid" "sint asid \<le> int UPROCMAX"
  shows "page_of (pte_entry_hi (page_entry asid n i)) = Some i"
    "page_of (pte_entry_hi (stack_entry asid)) = Some (MAXPAGES - 1)"
proof -
  have a: "unat asid \<le> 8" using assms(2,3) unat_sint[of asid] by linarith
  have m: "unat (push_bit ASIDSHIFT asid) = 64 * unat asid"
    using a by (simp add: push_bit_eq_mult unat_word_ariths)
  have "unat (of_nat i :: u32) = i" using assms(1) by (simp add: unat_of_nat)
  then have v: "unat (push_bit VPNSHIFT (of_nat i :: u32)) = 4096 * i"
    using assms(1) by (simp add: push_bit_eq_mult unat_word_ariths)
  have "unat (pte_entry_hi (page_entry asid n i)) = 0x80000000 + 4096 * i + 64 * unat asid"
    using a m v assms(1) by (simp add: page_entry_def unat_word_ariths)
  moreover have "(64 * unat asid + (0x80000 + i) * 4096) div 4096 = 0x80000 + i"
    using a by simp
  moreover have "0x80000000 + 4096 * i + 64 * unat asid = 64 * unat asid + (0x80000 + i) * 4096" by simp
  ultimately show "page_of (pte_entry_hi (page_entry asid n i)) = Some i"
    using assms(1) by (simp add: page_of_def Let_def)
  have "unat (pte_entry_hi (stack_entry asid)) = 0xBFFFF000 + 64 * unat asid"
    using a m by (simp add: stack_entry_def unat_word_ariths)
  moreover have "(64 * unat asid + 0xBFFFF * 4096) div 4096 = 0xBFFFF"
    using a by simp
  moreover have "0xBFFFF000 + 64 * unat asid = 64 * unat asid + 0xBFFFF * 4096" by simp
  ultimately show "page_of (pte_entry_hi (stack_entry asid)) = Some (MAXPAGES - 1)"
    by (simp add: page_of_def Let_def)
qed

section \<open>The choice of a frame\<close>

text \<open>The frames chosen by n picks in a row, with nothing else happening in between.\<close>

fun picks :: "nat \<Rightarrow> sstate \<Rightarrow> nat list" where
  "picks 0 s = []"
| "picks (Suc n) s = (let (i, s) = pick_page s in i # picks n s)"

definition pool_full :: "sstate \<Rightarrow> bool" where
  "pool_full s \<longleftrightarrow> (\<forall>f<POOLSIZE. sw_asid (swap_pool_table s f) \<noteq> - 1)"

lemma find_upt:
  "find p [0..<n] = Some i \<longleftrightarrow> i < n \<and> p i \<and> (\<forall>j<i. \<not> p j)"
  by (auto simp: find_Some_iff)

lemma pick_page_free:
  assumes "f < POOLSIZE" "sw_asid (swap_pool_table s f) = - 1" "\<forall>g<f. sw_asid (swap_pool_table s g) \<noteq> - 1"
  shows "pick_page s = (f, s)"
proof -
  have "find (\<lambda>i. \<not> check_frame_occupied (swap_pool_table s i)) [0..<POOLSIZE] = Some f"
    using assms by (simp only: find_upt check_frame_occupied_def) simp
  then show ?thesis by (simp add: pick_page_def)
qed

lemma pick_page_full:
  assumes "pool_full s"
  shows "pick_page s = (unat ((fifo_index s + 1) mod 16), s\<lparr>fifo_index := (fifo_index s + 1) mod 16\<rparr>)"
proof -
  have "find (\<lambda>i. \<not> check_frame_occupied (swap_pool_table s i)) [0..<POOLSIZE] = None"
    using assms by (simp only: find_None_iff pool_full_def check_frame_occupied_def) simp
  then show ?thesis by (simp add: pick_page_def Let_def)
qed

lemma pick_page_less: "pick_page s = (f, s') \<Longrightarrow> f < POOLSIZE"
proof (cases "pool_full s")
  case True
  moreover have "(fifo_index s + 1) mod 16 < 16" by (rule word_mod_less_divisor) simp
  ultimately show "pick_page s = (f, s') \<Longrightarrow> f < POOLSIZE"
    using pick_page_full[OF True] by (auto simp: word_less_nat_alt)
next
  case False
  then show "pick_page s = (f, s') \<Longrightarrow> f < POOLSIZE"
    by (auto simp: pool_full_def pick_page_def find_Some_iff find_None_iff check_frame_occupied_def
        simp del: upt_rec_numeral split: option.splits)
qed

lemma unat_mod_16: "unat ((x + 1) mod 16 :: u32) = (unat x + 1) mod 16"
  by (simp add: unat_mod unat_word_ariths mod_mod_cancel)

lemma picks_full:
  "pool_full s \<Longrightarrow> picks n s = map (\<lambda>k. (unat (fifo_index s) + 1 + k) mod 16) [0..<n]"
proof (induction n arbitrary: s)
  case 0
  then show ?case by simp
next
  case (Suc n)
  let ?s = "s\<lparr>fifo_index := (fifo_index s + 1) mod 16\<rparr>"
  have "pool_full ?s" using Suc.prems by (simp add: pool_full_def)
  moreover have "(unat ((fifo_index s + 1) mod 16) + 1 + k) mod 16 = (unat (fifo_index s) + 1 + Suc k) mod 16" for k
    unfolding unat_mod_16 by (metis (no_types, opaque_lifting) add.assoc add_Suc_shift mod_add_left_eq plus_1_eq_Suc)
  ultimately have "picks n ?s = map (\<lambda>k. (unat (fifo_index s) + 1 + Suc k) mod 16) [0..<n]"
    using Suc.IH[of ?s] by simp
  then show ?case
    by (simp only: picks.simps pick_page_full[OF Suc.prems] Let_def prod.case unat_mod_16 upt_conv_Cons[of 0 "Suc n"]
        map_Suc_upt[symmetric] list.map map_map zero_less_Suc) (simp add: comp_def)
qed

section \<open>The environment of a handler\<close>

definition gives_to ::
  "world \<Rightarrow> (kstate \<Rightarrow> bool) \<Rightarrow> (kstate \<Rightarrow> bool) \<Rightarrow> int \<Rightarrow> u32 \<Rightarrow> u32 \<Rightarrow> u32 \<Rightarrow> u32 \<Rightarrow> bool" where
  "gives_to W I J n a b c r \<longleftrightarrow> (\<forall>s. I (kernel s) \<longrightarrow>
     (\<exists>k. sys W n a b c s = Some (SRet r (s\<lparr>kernel := k\<rparr>)) \<and> J k \<and> supports k = supports (kernel s)))"

abbreviation (input) gives :: "world \<Rightarrow> (kstate \<Rightarrow> bool) \<Rightarrow> int \<Rightarrow> u32 \<Rightarrow> u32 \<Rightarrow> u32 \<Rightarrow> u32 \<Rightarrow> bool" where
  "gives W I n a b c r \<equiv> gives_to W I I n a b c r"

text \<open>What the handlers themselves change of the nucleus' state keeps \<open>I\<close>.\<close>

definition undisturbed :: "world \<Rightarrow> (kstate \<Rightarrow> bool) \<Rightarrow> bool" where
  "undisturbed W I \<longleftrightarrow> (\<forall>k. I k \<longrightarrow>
     (\<forall>x. I (k\<lparr>cp0_status := x\<rparr>)) \<and> (\<forall>f. I (k\<lparr>supports := f\<rparr>))
     \<and> (\<forall>asid x. is_valid_asid asid \<longrightarrow>
          (\<exists>k'. store_word (DEV_REG_ADDR W (FLASHINT W) (asid - 1) + DTP_DATA0 W) x k = Some k' \<and> I k')))"

abbreviation (input) flash_command :: "world \<Rightarrow> u32 \<Rightarrow> u32" where
  "flash_command W dev \<equiv> DEV_REG_ADDR W (FLASHINT W) (dev - 1) + RECV_COMMAND"

definition flash_gives :: "world \<Rightarrow> (kstate \<Rightarrow> bool) \<Rightarrow> (u32 \<Rightarrow> u32 \<Rightarrow> u32) \<Rightarrow> bool" where
  "flash_gives W I st \<longleftrightarrow> (\<forall>asid cmd. is_valid_asid asid \<longrightarrow> gives W I DOIO (flash_command W asid) cmd 0 (st asid cmd))"

lemma SYSCALL_gives:
  assumes "gives_to W I J n a b c r" "I (kernel s)"
  shows "\<exists>k. SYSCALL W n a b c s = Some (SRet r (s\<lparr>kernel := k, calls := calls s @ [(n, a, b, c)]\<rparr>))
    \<and> J k \<and> supports k = supports (kernel s)"
proof -
  let ?s = "s\<lparr>calls := calls s @ [(n, a, b, c)]\<rparr>"
  have "I (kernel ?s)" using assms(2) by simp
  then obtain k where "sys W n a b c ?s = Some (SRet r (?s\<lparr>kernel := k\<rparr>))" "J k" "supports k = supports (kernel ?s)"
    using assms(1) unfolding gives_to_def by blast
  then show ?thesis by (intro exI[of _ k]) (simp add: SYSCALL_def)
qed

lemma undisturbedD:
  assumes "undisturbed W I" "I k"
  shows "I (k\<lparr>cp0_status := x\<rparr>)" "I (k\<lparr>supports := f\<rparr>)"
  using assms by (simp_all add: undisturbed_def)

lemma deactive_active [simp]:
  "deactive_interrupts W s = s\<lparr>kernel := (kernel s)\<lparr>cp0_status := status_interrupts_off_nucleus (emu W) (cp0_status (kernel s))\<rparr>\<rparr>"
  "active_interrupts W s = s\<lparr>kernel := (kernel s)\<lparr>cp0_status := status_interrupts_on_nucleus (emu W) (cp0_status (kernel s))\<rparr>\<rparr>"
  by (simp_all add: deactive_interrupts_def active_interrupts_def get_status_def set_status_def Let_def)

lemma flash_store:
  assumes "undisturbed W I" "I (kernel s)" "is_valid_asid asid"
  shows "\<exists>k. kstore (DEV_REG_ADDR W (FLASHINT W) (asid - 1) + DTP_DATA0 W) x s = Some (s\<lparr>kernel := k\<rparr>) \<and> I k
    \<and> supports k = supports (kernel s)"
proof -
  obtain k where k: "store_word (DEV_REG_ADDR W (FLASHINT W) (asid - 1) + DTP_DATA0 W) x (kernel s) = Some k" "I k"
    using assms unfolding undisturbed_def by blast
  then have "supports k = supports (kernel s)" by (auto simp: store_word_def split: if_splits)
  with k show ?thesis by (auto simp: kstore_def)
qed

lemma flash_io:
  assumes "undisturbed W I" "flash_gives W I st" "I (kernel s)" "is_valid_asid dev"
  shows "\<exists>k. read_flash W dev block dest s = Some (SRet (st dev (FLASHREAD OR push_bit FLASHCMDSHIFT block))
      (s\<lparr>kernel := k, calls := calls s @ [(DOIO, flash_command W dev, FLASHREAD OR push_bit FLASHCMDSHIFT block, 0)]\<rparr>))
      \<and> I k \<and> supports k = supports (kernel s)"
    "\<exists>k. write_flash W dev block dest s = Some (SRet (st dev (FLASHWRITE OR push_bit FLASHCMDSHIFT block))
      (s\<lparr>kernel := k, calls := calls s @ [(DOIO, flash_command W dev, FLASHWRITE OR push_bit FLASHCMDSHIFT block, 0)]\<rparr>))
      \<and> I k \<and> supports k = supports (kernel s)"
proof -
  let ?s = "deactive_interrupts W s"
  have "I (kernel ?s)" using undisturbedD(1)[OF assms(1,3)] by simp
  from flash_store[OF assms(1) this assms(4), of dest] obtain k1 where
    k1: "kstore (DEV_REG_ADDR W (FLASHINT W) (dev - 1) + DTP_DATA0 W) dest ?s = Some (s\<lparr>kernel := k1\<rparr>)"
      "I k1" "supports k1 = supports (kernel s)" by auto
  have *: "\<exists>k. SYSCALL W DOIO (flash_command W dev) cmd 0 (s\<lparr>kernel := k1\<rparr>) = Some (SRet (st dev cmd)
      (s\<lparr>kernel := k, calls := calls s @ [(DOIO, flash_command W dev, cmd, 0)]\<rparr>)) \<and> I k \<and> supports k = supports (kernel s)" for cmd
    using SYSCALL_gives[of W I I DOIO "flash_command W dev" cmd 0 "st dev cmd" "s\<lparr>kernel := k1\<rparr>"] assms(2,4) k1(2,3)
    by (simp add: flash_gives_def)
  show "\<exists>k. read_flash W dev block dest s = Some (SRet (st dev (FLASHREAD OR push_bit FLASHCMDSHIFT block))
      (s\<lparr>kernel := k, calls := calls s @ [(DOIO, flash_command W dev, FLASHREAD OR push_bit FLASHCMDSHIFT block, 0)]\<rparr>))
      \<and> I k \<and> supports k = supports (kernel s)"
  proof -
    from *[of "FLASHREAD OR push_bit FLASHCMDSHIFT block"] obtain k where
      "SYSCALL W DOIO (flash_command W dev) (FLASHREAD OR push_bit FLASHCMDSHIFT block) 0 (s\<lparr>kernel := k1\<rparr>)
        = Some (SRet (st dev (FLASHREAD OR push_bit FLASHCMDSHIFT block)) (s\<lparr>kernel := k,
          calls := calls s @ [(DOIO, flash_command W dev, FLASHREAD OR push_bit FLASHCMDSHIFT block, 0)]\<rparr>))"
      "I k" "supports k = supports (kernel s)" by blast
    with k1(1) undisturbedD(1)[OF assms(1)] show ?thesis
      by (intro exI[of _ "k\<lparr>cp0_status := status_interrupts_on_nucleus (emu W) (cp0_status k)\<rparr>"])
        (simp add: read_flash_def Let_def del: deactive_active(1))
  qed
  show "\<exists>k. write_flash W dev block dest s = Some (SRet (st dev (FLASHWRITE OR push_bit FLASHCMDSHIFT block))
      (s\<lparr>kernel := k, calls := calls s @ [(DOIO, flash_command W dev, FLASHWRITE OR push_bit FLASHCMDSHIFT block, 0)]\<rparr>))
      \<and> I k \<and> supports k = supports (kernel s)"
  proof -
    from *[of "FLASHWRITE OR push_bit FLASHCMDSHIFT block"] obtain k where
      "SYSCALL W DOIO (flash_command W dev) (FLASHWRITE OR push_bit FLASHCMDSHIFT block) 0 (s\<lparr>kernel := k1\<rparr>)
        = Some (SRet (st dev (FLASHWRITE OR push_bit FLASHCMDSHIFT block)) (s\<lparr>kernel := k,
          calls := calls s @ [(DOIO, flash_command W dev, FLASHWRITE OR push_bit FLASHCMDSHIFT block, 0)]\<rparr>))"
      "I k" "supports k = supports (kernel s)" by blast
    with k1(1) undisturbedD(1)[OF assms(1)] show ?thesis
      by (intro exI[of _ "k\<lparr>cp0_status := status_interrupts_on_nucleus (emu W) (cp0_status k)\<rparr>"])
        (simp add: write_flash_def Let_def del: deactive_active(1))
  qed
qed

section \<open>Page tables and the TLB\<close>

definition set_entry :: "u32 \<Rightarrow> nat \<Rightarrow> (pte_entry_t \<Rightarrow> pte_entry_t) \<Rightarrow> (u32 \<Rightarrow> support_t) \<Rightarrow> u32 \<Rightarrow> support_t" where
  "set_entry a i f S = S(a := (S a)\<lparr>sup_private_page_table :=
     (sup_private_page_table (S a))(i := f (sup_private_page_table (S a) i))\<rparr>)"

lemma set_entry_facts [simp]:
  "sup_asid (set_entry a i f S b) = sup_asid (S b)"
  "sup_except_state (set_entry a i f S b) = sup_except_state (S b)"
  "sup_except_context (set_entry a i f S b) = sup_except_context (S b)"
  "sup_private_page_table (set_entry a i f S b) j
     = (if b = a \<and> j = i then f (sup_private_page_table (S b) j) else sup_private_page_table (S b) j)"
  by (simp_all add: set_entry_def)

lemma upd_pte_Some:
  "a \<noteq> 0 \<Longrightarrow> i < MAXPAGES \<Longrightarrow> upd_pte (Some a) (of_nat i) f s
     = Some (s\<lparr>kernel := (kernel s)\<lparr>supports := set_entry a i f (supports (kernel s))\<rparr>\<rparr>)"
  by (simp add: upd_pte_def upd_support_def set_entry_def unat_of_nat)

lemma pte_at_Some:
  "a \<noteq> 0 \<Longrightarrow> i < MAXPAGES \<Longrightarrow> pte_at (Some a) (of_nat i) s = Some (sup_private_page_table (supports (kernel s) a) i)"
  by (simp add: pte_at_def support_at_def unat_of_nat)

text \<open>Updating the TLB touches nothing else.\<close>

definition tlb_refresh :: "world \<Rightarrow> pte_entry_t \<Rightarrow> tlb_t \<Rightarrow> tlb_t" where
  "tlb_refresh W pte t = (let t = TLBP W (t\<lparr>ENTRYHI := pte_entry_hi pte\<rparr>) in
     if INDEX t AND PRESENTFLAG = 0
     then TLBWI W (t\<lparr>ENTRYHI := pte_entry_hi pte, ENTRYLO := pte_entry_lo pte\<rparr>) else t)"

lemma update_tlb_eq: "update_tlb W pte s = s\<lparr>tlb := tlb_refresh W pte (tlb s)\<rparr>"
  by (simp add: update_tlb_def check_in_tlb_def tlb_refresh_def Let_def)

section \<open>Handling a page fault\<close>

abbreviation (input) write_call :: "world \<Rightarrow> u32 \<Rightarrow> nat \<Rightarrow> int \<times> u32 \<times> u32 \<times> u32" where
  "write_call W asid k \<equiv> (DOIO, flash_command W asid, FLASHWRITE OR push_bit FLASHCMDSHIFT (of_nat k), 0)"

abbreviation (input) read_call :: "world \<Rightarrow> u32 \<Rightarrow> nat \<Rightarrow> int \<times> u32 \<times> u32 \<times> u32" where
  "read_call W asid i \<equiv> (DOIO, flash_command W asid, FLASHREAD OR push_bit FLASHCMDSHIFT (of_nat i), 0)"

lemma write_back_occupied:
  assumes env: "undisturbed W I" "flash_gives W I st" "I (kernel s)"
    and swap: "check_frame_occupied swap" "sw_pte swap = Some (b, of_nat j)" "b \<noteq> 0" "j < MAXPAGES"
      "page_of (pte_entry_hi (sup_private_page_table (supports (kernel s) b) j)) = Some k" "is_valid_asid (sw_asid swap)"
    and ready: "st (sw_asid swap) (FLASHWRITE OR push_bit FLASHCMDSHIFT (of_nat k)) = DEV_STATUS_READY"
    and a: "a \<noteq> 0" "logs_ok s"
  shows "\<exists>\<kappa>. write_back W a f swap s = Some (SRet () (s\<lparr>kernel := \<kappa>,
      tlb := tlb_refresh W (sup_private_page_table (set_entry a k (\<lambda>e. e\<lparr>pte_entry_lo := 0\<rparr>) (supports (kernel s)) b) j) (tlb s),
      calls := calls s @ [write_call W (sw_asid swap) k]\<rparr>))
    \<and> I \<kappa> \<and> supports \<kappa> = set_entry a k (\<lambda>e. e\<lparr>pte_entry_lo := 0\<rparr>) (supports (kernel s))"
proof -
  let ?S = "set_entry a k (\<lambda>e. e\<lparr>pte_entry_lo := 0\<rparr>) (supports (kernel s))"
  let ?k1 = "(kernel s)\<lparr>cp0_status := status_interrupts_off_nucleus (emu W) (cp0_status (kernel s)), supports := ?S\<rparr>"
  let ?T = "tlb_refresh W (sup_private_page_table (?S b) j) (tlb s)"
  define s1 where "s1 = s\<lparr>kernel := ?k1\<lparr>cp0_status := status_interrupts_on_nucleus (emu W) (cp0_status ?k1)\<rparr>, tlb := ?T\<rparr>"
  have s1: "I (kernel s1)" "calls s1 = calls s" "supports (kernel s1) = ?S"
    "\<And>\<kappa> c. s1\<lparr>kernel := \<kappa>, calls := c\<rparr> = s\<lparr>kernel := \<kappa>, tlb := ?T, calls := c\<rparr>"
    using undisturbedD[OF env(1)] env(3) by (simp_all add: s1_def)
  have k: "k < MAXPAGES" using page_of_less[OF swap(5)] .
  from flash_io(2)[OF env(1,2) s1(1) swap(6), of "of_nat k" "page_addr (of_nat f) s1", unfolded ready s1(2,3,4)]
  obtain \<kappa> where \<kappa>: "write_flash W (sw_asid swap) (of_nat k) (page_addr (of_nat f) s1) s1
      = Some (SRet DEV_STATUS_READY (s\<lparr>kernel := \<kappa>, tlb := ?T, calls := calls s @ [write_call W (sw_asid swap) k]\<rparr>))"
      "I \<kappa>" "supports \<kappa> = ?S" by blast
  have m: "mark_page_not_valid (Some a) (of_nat k) t
      = Some (t\<lparr>kernel := (kernel t)\<lparr>supports := set_entry a k (\<lambda>e. e\<lparr>pte_entry_lo := 0\<rparr>) (supports (kernel t))\<rparr>\<rparr>)" for t
    using upd_pte_Some[OF a(1) k] by (simp add: mark_page_not_valid_def c_not_def)
  have "active_interrupts W (update_tlb W (sup_private_page_table (?S b) j) (s\<lparr>kernel := ?k1\<rparr>)) = s1"
    by (simp add: update_tlb_eq s1_def)
  then have "write_back W a f swap s = sbind (write_flash W (sw_asid swap) (of_nat k) (page_addr (of_nat f) s1) s1)
      (\<lambda>write_status s. if write_status \<noteq> DEV_STATUS_READY then do {
         s \<leftarrow> kfprintf_err ''Error on flash write (k_index = %d, status = %d)\<newline>'' [ArgInt (of_nat k), ArgInt write_status] s;
         support_trap W s } else Some (SRet () s))"
    using swap entryhi_to_vpn_page(1)[OF a(2) swap(5)] vpn_to_index_page[OF swap(5)]
    by (simp add: write_back_def pte_deref_def pte_at_Some m Let_def del: deactive_active(2) set_entry_facts(4))
  also have "\<dots> = Some (SRet () (s\<lparr>kernel := \<kappa>, tlb := ?T, calls := calls s @ [write_call W (sw_asid swap) k]\<rparr>))"
    by (simp only: \<kappa>(1)) simp
  finally show ?thesis using \<kappa>(2,3) by blast
qed

lemma write_back_free: "\<not> check_frame_occupied swap \<Longrightarrow> write_back W a f swap s = Some (SRet () s)"
  by (simp add: write_back_def)

lemma swap_all_fields:
  "(x :: swap_t)\<lparr>sw_asid := a, sw_page_no := n, sw_pte := q\<rparr> = \<lparr>sw_asid = a, sw_page_no = n, sw_pte = q\<rparr>"
  by (cases x) simp

lemma read_in_ready:
  assumes env: "undisturbed W I" "flash_gives W I st" "I (kernel s)"
    and ready: "st (sup_asid (supports (kernel s) a)) (FLASHREAD OR push_bit FLASHCMDSHIFT (of_nat i)) = DEV_STATUS_READY"
    and a: "a \<noteq> 0" "page_of e = Some i" "is_valid_asid (sup_asid (supports (kernel s) a))"
  shows "\<exists>\<kappa>. read_in W a f addr (drop_bit VPNSHIFT e) (of_nat i) s = Some (SRet () (s\<lparr>kernel := \<kappa>,
      swap_pool_table := (swap_pool_table s)(f := \<lparr>sw_asid = sup_asid (supports (kernel s) a),
        sw_page_no = drop_bit VPNSHIFT e, sw_pte = Some (a, of_nat i)\<rparr>),
      tlb := tlb_refresh W (sup_private_page_table (set_entry a i (\<lambda>e. e\<lparr>pte_entry_lo := addr OR VALIDON OR DIRTYON\<rparr>)
        (supports (kernel s)) a) i) (tlb s),
      calls := calls s @ [read_call W (sup_asid (supports (kernel s) a)) i]\<rparr>))
    \<and> I \<kappa> \<and> supports \<kappa> = set_entry a i (\<lambda>e. e\<lparr>pte_entry_lo := addr OR VALIDON OR DIRTYON\<rparr>) (supports (kernel s))"
proof -
  let ?asid = "sup_asid (supports (kernel s) a)"
  let ?S = "set_entry a i (\<lambda>e. e\<lparr>pte_entry_lo := addr OR VALIDON OR DIRTYON\<rparr>) (supports (kernel s))"
  let ?calls = "calls s @ [read_call W ?asid i]"
  let ?tab = "(swap_pool_table s)(f := \<lparr>sw_asid = ?asid, sw_page_no = drop_bit VPNSHIFT e, sw_pte = Some (a, of_nat i)\<rparr>)"
  have i: "i < MAXPAGES" using page_of_less[OF a(2)] .
  from flash_io(1)[OF env a(3), of "of_nat i" addr, unfolded ready] obtain \<kappa> where
    \<kappa>: "read_flash W ?asid (of_nat i) addr s = Some (SRet DEV_STATUS_READY (s\<lparr>kernel := \<kappa>, calls := ?calls\<rparr>))"
      "I \<kappa>" "supports \<kappa> = supports (kernel s)" by blast
  have add: "add_entry_swap_pool_table f asid (drop_bit VPNSHIFT e) (Some a) t
      = Some (SRet () (t\<lparr>swap_pool_table := (swap_pool_table t)(f := \<lparr>sw_asid = asid, sw_page_no = drop_bit VPNSHIFT e,
        sw_pte = Some (a, of_nat i)\<rparr>)\<rparr>))" for asid t
    using vpn_to_index_page[OF a(2)] by (simp add: add_entry_swap_pool_table_def upd_swap_def swap_all_fields Let_def)
  have upd: "update_page_table (Some a) (of_nat i) addr t
      = Some (t\<lparr>kernel := (kernel t)\<lparr>supports := set_entry a i (\<lambda>e. e\<lparr>pte_entry_lo := addr OR VALIDON OR DIRTYON\<rparr>) (supports (kernel t))\<rparr>\<rparr>)" for t
    using upd_pte_Some[OF a(1) i] by (simp add: update_page_table_def)
  let ?pte = "sup_private_page_table (?S a) i"
  let ?\<kappa> = "\<kappa>\<lparr>cp0_status := status_interrupts_on_nucleus (emu W) (status_interrupts_off_nucleus (emu W) (cp0_status \<kappa>)),
    supports := ?S\<rparr>"
  have "read_in W a f addr (drop_bit VPNSHIFT e) (of_nat i) s
      = Some (SRet () (s\<lparr>kernel := ?\<kappa>, swap_pool_table := ?tab, tlb := tlb_refresh W ?pte (tlb s), calls := ?calls\<rparr>))"
    using a \<kappa> by (simp add: read_in_def support_at_def add upd pte_at_Some[OF a(1) i] update_tlb_eq Let_def)
  moreover have "I ?\<kappa>" using undisturbedD[OF env(1)] \<kappa>(2) by simp
  ultimately show ?thesis by (intro exI[of _ ?\<kappa>]) simp
qed

text \<open>
  The frames in use hold pages of page tables that \<^verbatim>\<open>init_page_table\<close> has set up: each points to an
  entry, the page number in that entry is the one of its index, and the owner has a flash device.
\<close>

definition frame_mapped :: "(u32 \<Rightarrow> support_t) \<Rightarrow> swap_t \<Rightarrow> bool" where
  "frame_mapped S e \<longleftrightarrow> is_valid_asid (sw_asid e) \<and> (\<exists>b j. sw_pte e = Some (b, of_nat j) \<and> b \<noteq> 0 \<and> j < MAXPAGES
     \<and> page_of (pte_entry_hi (sup_private_page_table (S b) j)) = Some j)"

definition pool_mapped :: "sstate \<Rightarrow> bool" where
  "pool_mapped s \<longleftrightarrow> (\<forall>f<POOLSIZE. check_frame_occupied (swap_pool_table s f) \<longrightarrow>
     frame_mapped (supports (kernel s)) (swap_pool_table s f))"

definition victim_index :: "swap_t \<Rightarrow> nat" where
  "victim_index e = (case sw_pte e of None \<Rightarrow> 0 | Some (b, j) \<Rightarrow> unat j)"

text \<open>What a page fault does to the page tables, and the calls it makes.\<close>

definition evicted :: "u32 \<Rightarrow> swap_t \<Rightarrow> (u32 \<Rightarrow> support_t) \<Rightarrow> u32 \<Rightarrow> support_t" where
  "evicted a e S = (if check_frame_occupied e then set_entry a (victim_index e) (\<lambda>e. e\<lparr>pte_entry_lo := 0\<rparr>) S else S)"

definition faulted :: "u32 \<Rightarrow> nat \<Rightarrow> u32 \<Rightarrow> swap_t \<Rightarrow> (u32 \<Rightarrow> support_t) \<Rightarrow> u32 \<Rightarrow> support_t" where
  "faulted a i addr e S = set_entry a i (\<lambda>e. e\<lparr>pte_entry_lo := addr OR VALIDON OR DIRTYON\<rparr>)
     (evicted a e S)"

definition evicted_tlb :: "world \<Rightarrow> u32 \<Rightarrow> swap_t \<Rightarrow> (u32 \<Rightarrow> support_t) \<Rightarrow> tlb_t \<Rightarrow> tlb_t" where
  "evicted_tlb W a e S T = (case sw_pte e of
     Some (b, j) \<Rightarrow> if check_frame_occupied e
       then tlb_refresh W (sup_private_page_table (evicted a e S b) (unat j)) T else T
   | None \<Rightarrow> T)"

definition faulted_tlb :: "world \<Rightarrow> u32 \<Rightarrow> nat \<Rightarrow> u32 \<Rightarrow> swap_t \<Rightarrow> (u32 \<Rightarrow> support_t) \<Rightarrow> tlb_t \<Rightarrow> tlb_t" where
  "faulted_tlb W a i addr e S T =
     tlb_refresh W (sup_private_page_table (faulted a i addr e S a) i) (evicted_tlb W a e S T)"

definition fault_calls :: "world \<Rightarrow> u32 \<Rightarrow> nat \<Rightarrow> swap_t \<Rightarrow> (int \<times> u32 \<times> u32 \<times> u32) list" where
  "fault_calls W asid i e = (if check_frame_occupied e then [write_call W (sw_asid e) (victim_index e)] else [])
     @ [read_call W asid i, (VERHOGEN, sem_swap_pool_table W, 0, 0)]"

lemma victim_indexI: "frame_mapped S e \<Longrightarrow> \<exists>b j. sw_pte e = Some (b, of_nat j) \<and> b \<noteq> 0 \<and> j < MAXPAGES
    \<and> is_valid_asid (sw_asid e) \<and> page_of (pte_entry_hi (sup_private_page_table (S b) j)) = Some j \<and> victim_index e = j"
  by (force simp: frame_mapped_def victim_index_def unat_of_nat)

lemma write_back_any:
  assumes "undisturbed W I" "flash_gives W I (\<lambda>_ _. DEV_STATUS_READY)" "I (kernel s)" "logs_ok s" "a \<noteq> 0"
    and "check_frame_occupied e \<Longrightarrow> frame_mapped (supports (kernel s)) e"
  shows "\<exists>\<kappa>. write_back W a f e s = Some (SRet () (s\<lparr>kernel := \<kappa>,
      tlb := evicted_tlb W a e (supports (kernel s)) (tlb s), calls := calls s @
      (if check_frame_occupied e then [write_call W (sw_asid e) (victim_index e)] else [])\<rparr>)) \<and> I \<kappa>
    \<and> supports \<kappa> = evicted a e (supports (kernel s))"
proof (cases "check_frame_occupied e")
  case True
  obtain b j where j: "sw_pte e = Some (b, of_nat j)" "b \<noteq> 0" "j < MAXPAGES"
    "page_of (pte_entry_hi (sup_private_page_table (supports (kernel s) b) j)) = Some j" "is_valid_asid (sw_asid e)"
    "victim_index e = j"
    using victim_indexI[OF assms(6)[OF True]] by blast
  from write_back_occupied[OF assms(1-3) True j(1-5) refl assms(5,4)] show ?thesis
    using True j(1,3,6) by (simp add: evicted_def evicted_tlb_def unat_of_nat del: set_entry_facts(4))
next
  case False
  then show ?thesis using assms(3)
    by (intro exI[of _ "kernel s"]) (simp add: write_back_free evicted_def evicted_tlb_def split: option.split)
qed

lemma page_fault_loads:
  assumes call: "a \<noteq> 0"
    and asid: "is_valid_asid asid" "asid = sup_asid (supports (kernel s) a)"
    and page: "st = sup_except_state (supports (kernel s) a) PGFAULTEXCEPT" "page_of (entry_hi st) = Some i"
    and ok: "logs_ok s" "pool_mapped s" "pick_page s = (f, s')" "e = swap_pool_table s f"
      "addr = swap_pool_addr s + of_nat f * PAGESIZE"
    and env: "undisturbed W I" "I (kernel s)" "flash_gives W I (\<lambda>_ _. DEV_STATUS_READY)"
      "gives_to W I J VERHOGEN (sem_swap_pool_table W) 0 0 q"
  shows "\<exists>\<kappa> m. page_fault W a s = Some (SExit (SLDST st) (s'\<lparr>kernel := \<kappa>,
        swap_pool_table := (swap_pool_table s)(f := \<lparr>sw_asid = asid, sw_page_no = drop_bit VPNSHIFT (entry_hi st),
          sw_pte = Some (a, of_nat i)\<rparr>),
        swap_pool_batons := (swap_pool_batons s)(unat (asid - 1) := False),
        tlb := faulted_tlb W a i addr e (supports (kernel s)) (tlb s),
        kdebug := m, calls := calls s @ fault_calls W asid i e\<rparr>))
    \<and> J \<kappa> \<and> supports \<kappa> = faulted a i addr e (supports (kernel s)) \<and> log_ok m"
proof -
  let ?S = "supports (kernel s)"
  have s': "kernel s' = kernel s" "swap_pool_table s' = swap_pool_table s" "swap_pool_addr s' = swap_pool_addr s"
    "calls s' = calls s" "kstderr s' = kstderr s" "kdebug s' = kdebug s" "swap_pool_batons s' = swap_pool_batons s" "tlb s' = tlb s"
    using ok(3) by (auto simp: pick_page_def Let_def simp del: upt_rec_numeral split: option.splits)
  define b where "b = (swap_pool_batons s)(unat (asid - 1) := True)"
  have pick: "pick_page (s\<lparr>swap_pool_batons := b\<rparr>) = (f, s'\<lparr>swap_pool_batons := b\<rparr>)"
    using ok(3) by (auto simp: pick_page_def Let_def simp del: upt_rec_numeral split: option.splits)
  obtain m where m: "kfprintf_debug ''Victim: %p\<newline>'' [ArgInt addr] (s'\<lparr>swap_pool_batons := b\<rparr>)
      = Some (s'\<lparr>swap_pool_batons := b, kdebug := m\<rparr>)" "log_ok m"
    using kfprintf_ok(2)[of "s'\<lparr>swap_pool_batons := b\<rparr>" "''Victim: %p\<newline>''" "[ArgInt addr]"] ok(1) s' by (auto simp: logs_ok_def)
  define s2 where "s2 = s'\<lparr>swap_pool_batons := b, kdebug := m\<rparr>"
  have s2: "kernel s2 = kernel s" "swap_pool_table s2 = swap_pool_table s" "calls s2 = calls s" "logs_ok s2" "tlb s2 = tlb s"
    using s' m(2) ok(1) by (simp_all add: s2_def logs_ok_def)
  have fm: "frame_mapped (supports (kernel s2)) e" if "check_frame_occupied e"
    using ok(2) pick_page_less[OF ok(3)] that ok(4) s2(1) unfolding pool_mapped_def by metis
  let ?T1 = "evicted_tlb W a e ?S (tlb s)"
  from write_back_any[OF env(1,3) _ s2(4) call fm, where f = f] env(2) s2(1,3,5)
  obtain \<kappa>1 where w: "write_back W a f e s2 = Some (SRet () (s2\<lparr>kernel := \<kappa>1, tlb := ?T1, calls := calls s @
      (if check_frame_occupied e then [write_call W (sw_asid e) (victim_index e)] else [])\<rparr>))" "I \<kappa>1"
    "supports \<kappa>1 = evicted a e ?S" by auto
  let ?c1 = "calls s @ (if check_frame_occupied e then [write_call W (sw_asid e) (victim_index e)] else [])"
  define s3 where "s3 = s2\<lparr>kernel := \<kappa>1, tlb := ?T1, calls := ?c1\<rparr>"
  have s3: "I (kernel s3)" "sup_asid (supports (kernel s3) a) = asid" "swap_pool_table s3 = swap_pool_table s" "calls s3 = ?c1"
    "tlb s3 = ?T1"
    "set_entry a i (\<lambda>e. e\<lparr>pte_entry_lo := addr OR VALIDON OR DIRTYON\<rparr>) (supports (kernel s3)) = faulted a i addr e ?S"
    using w(2,3) asid(2) s2(2) by (simp_all add: s3_def faulted_def evicted_def)
  let ?T2 = "faulted_tlb W a i addr e ?S (tlb s)"
  from read_in_ready[OF env(1,3) s3(1) _ call page(2), of f addr, unfolded s3(2), OF refl asid(1), unfolded s3(2-6) faulted_tlb_def[symmetric]]
  obtain \<kappa>2 where rd: "read_in W a f addr (drop_bit VPNSHIFT (entry_hi st)) (of_nat i) s3
      = Some (SRet () (s3\<lparr>kernel := \<kappa>2, swap_pool_table := (swap_pool_table s)(f := \<lparr>sw_asid = asid,
          sw_page_no = drop_bit VPNSHIFT (entry_hi st), sw_pte = Some (a, of_nat i)\<rparr>),
        tlb := ?T2, calls := ?c1 @ [read_call W asid i]\<rparr>))" "I \<kappa>2" "supports \<kappa>2 = faulted a i addr e ?S" by blast
  define s4 where "s4 = s3\<lparr>kernel := \<kappa>2, swap_pool_table := (swap_pool_table s)(f := \<lparr>sw_asid = asid,
          sw_page_no = drop_bit VPNSHIFT (entry_hi st), sw_pte = Some (a, of_nat i)\<rparr>),
        tlb := ?T2, calls := ?c1 @ [read_call W asid i]\<rparr>"
  have "I (kernel s4)" "calls s4 = ?c1 @ [read_call W asid i]" using rd(2) by (simp_all add: s4_def)
  from SYSCALL_gives[OF env(4) this(1), unfolded this(2)] rd(3)
  obtain \<kappa>3 where v: "SYSCALL W VERHOGEN (sem_swap_pool_table W) 0 0 s4
      = Some (SRet q (s4\<lparr>kernel := \<kappa>3, calls := calls s @ fault_calls W asid i e\<rparr>))" "J \<kappa>3"
    "supports \<kappa>3 = faulted a i addr e ?S" by (auto simp: s4_def fault_calls_def)
  have F: "sup_asid (faulted a i addr e ?S a) = asid" "sup_except_state (faulted a i addr e ?S a) PGFAULTEXCEPT = st"
    using asid(2) page(1) by (simp_all add: faulted_def evicted_def)
  have B: "set_swap_pool_baton asid x t = Some (SRet () (t\<lparr>swap_pool_batons := (swap_pool_batons t)(unat (asid - 1) := x)\<rparr>))" for x t
    using asid(1) by (simp add: set_swap_pool_baton_def)
  have A: "support_at a t = Some (supports (kernel t) a)" for t using call by (simp add: support_at_def)
  have "page_fault W a s = retry W a s4"
    using s' s2 s3(3)
    by (simp add: page_fault_def A B pick b_def[symmetric] asid(2)[symmetric] page(1)[symmetric] ok(4,5)[symmetric]
        m(1)[folded s2_def] w(1)[folded s3_def] rd(1)[folded s4_def] entryhi_to_vpn_page(1)[OF s2(4) page(2)]
        vpn_to_index_page[OF page(2)])
  also have "\<dots> = Some (SExit (SLDST st) (s4\<lparr>kernel := \<kappa>3, calls := calls s @ fault_calls W asid i e,
      swap_pool_batons := (swap_pool_batons s)(unat (asid - 1) := False)\<rparr>))"
    using s'(7) by (simp add: retry_def v A F B load_state_def) (simp add: s4_def s3_def s2_def b_def)
  finally show ?thesis using v(2,3) m(2)
    by (intro exI[of _ \<kappa>3] exI[of _ m]) (simp add: s4_def s3_def s2_def)
qed

section \<open>One process and the pool\<close>

text \<open>
  A process that has the swap pool for itself: the frames in use hold different pages of its table
  and are marked with a process that has a flash device, the entries of those pages map their frames, and no other entry is valid.
\<close>

definition frame_entry :: "sstate \<Rightarrow> nat \<Rightarrow> u32" where
  "frame_entry s f = (swap_pool_addr s + of_nat f * PAGESIZE) OR VALIDON OR DIRTYON"

abbreviation (input) entry_at :: "sstate \<Rightarrow> u32 \<Rightarrow> nat \<Rightarrow> pte_entry_t" where
  "entry_at s a j \<equiv> sup_private_page_table (supports (kernel s) a) j"

definition occupied :: "sstate \<Rightarrow> nat \<Rightarrow> bool" where
  "occupied s f \<longleftrightarrow> f < POOLSIZE \<and> check_frame_occupied (swap_pool_table s f)"

definition pool_inv :: "u32 \<Rightarrow> sstate \<Rightarrow> bool" where
  "pool_inv a s \<longleftrightarrow> a \<noteq> 0 \<and> (\<forall>j<MAXPAGES. page_of (pte_entry_hi (entry_at s a j)) = Some j)
   \<and> (\<forall>f. occupied s f \<longrightarrow> (\<exists>j<MAXPAGES. sw_pte (swap_pool_table s f) = Some (a, of_nat j)
       \<and> pte_entry_lo (entry_at s a j) = frame_entry s f))
   \<and> (\<forall>f. occupied s f \<longrightarrow> is_valid_asid (sw_asid (swap_pool_table s f)))
   \<and> (\<forall>f g. occupied s f \<longrightarrow> occupied s g \<longrightarrow> sw_pte (swap_pool_table s f) = sw_pte (swap_pool_table s g) \<longrightarrow> f = g)
   \<and> (\<forall>j<MAXPAGES. pte_entry_lo (entry_at s a j) AND VALIDON \<noteq> 0 \<longrightarrow>
       (\<exists>f. occupied s f \<and> sw_pte (swap_pool_table s f) = Some (a, of_nat j)))"

lemma frame_entry_valid: "frame_entry s f AND VALIDON \<noteq> 0"
proof -
  have "bit (frame_entry s f AND VALIDON) 9"
    by (simp add: frame_entry_def bit_or_iff bit_and_iff)
  then show ?thesis by (metis bit_0_eq bot_apply bot_bool_def)
qed

lemma pool_invD:
  assumes "pool_inv a s"
  shows "a \<noteq> 0" "j < MAXPAGES \<Longrightarrow> page_of (pte_entry_hi (entry_at s a j)) = Some j"
    "occupied s f \<Longrightarrow> \<exists>j<MAXPAGES. sw_pte (swap_pool_table s f) = Some (a, of_nat j)
       \<and> pte_entry_lo (entry_at s a j) = frame_entry s f"
    "occupied s f \<Longrightarrow> occupied s g \<Longrightarrow> sw_pte (swap_pool_table s f) = sw_pte (swap_pool_table s g) \<Longrightarrow> f = g"
    "j < MAXPAGES \<Longrightarrow> pte_entry_lo (entry_at s a j) AND VALIDON \<noteq> 0 \<Longrightarrow>
       \<exists>f. occupied s f \<and> sw_pte (swap_pool_table s f) = Some (a, of_nat j)"
    "occupied s f \<Longrightarrow> is_valid_asid (sw_asid (swap_pool_table s f))"
  using assms unfolding pool_inv_def by blast+

lemma pool_inv_mapped: "pool_inv a s \<Longrightarrow> pool_mapped s"
  unfolding pool_inv_def pool_mapped_def frame_mapped_def occupied_def by metis

lemma of_nat_index_inj: "i < MAXPAGES \<Longrightarrow> j < MAXPAGES \<Longrightarrow> (of_nat i :: u32) = of_nat j \<longleftrightarrow> i = j"
  by (auto simp: word_of_nat_eq_iff take_bit_eq_mod)

lemma pool_inv_fault:
  assumes inv: "pool_inv a s" and i: "i < MAXPAGES" "pte_entry_lo (entry_at s a i) AND VALIDON = 0"
    and f: "f < POOLSIZE" "e = swap_pool_table s f" "addr = swap_pool_addr s + of_nat f * PAGESIZE"
    and asid: "is_valid_asid asid"
    and s': "swap_pool_table s' = (swap_pool_table s)(f := \<lparr>sw_asid = asid, sw_page_no = n, sw_pte = Some (a, of_nat i)\<rparr>)"
      "swap_pool_addr s' = swap_pool_addr s" "supports (kernel s') = faulted a i addr e (supports (kernel s))"
  shows "pool_inv a s'"
proof -
  note I = pool_invD[OF inv]
  have occ: "occupied s' g \<longleftrightarrow> g = f \<or> occupied s g" for g
    using f(1) s'(1) asid by (auto simp: occupied_def check_frame_occupied_def is_valid_asid_def)
  have fe: "frame_entry s' g = frame_entry s g" "frame_entry s f = addr OR VALIDON OR DIRTYON" for g
    using s'(2) f(3) by (simp_all add: frame_entry_def)
  have vic: "\<exists>j<MAXPAGES. sw_pte e = Some (a, of_nat j) \<and> victim_index e = j \<and> j \<noteq> i"
    if "check_frame_occupied e"
  proof -
    from that f have "occupied s f" by (simp add: occupied_def)
    then obtain j where j: "j < MAXPAGES" "sw_pte e = Some (a, of_nat j)" "pte_entry_lo (entry_at s a j) = frame_entry s f"
      using I(3) f(2) by blast
    then have "j \<noteq> i" using i(2) frame_entry_valid by auto
    then show ?thesis using j by (auto simp: victim_index_def unat_of_nat)
  qed
  have hi: "pte_entry_hi (entry_at s' a j) = pte_entry_hi (entry_at s a j)" for j
    using s'(3) by (simp add: faulted_def evicted_def)
  have lo: "pte_entry_lo (entry_at s' a i) = frame_entry s f"
    "j \<noteq> i \<Longrightarrow> pte_entry_lo (entry_at s' a j) = (if check_frame_occupied e \<and> j = victim_index e then 0
       else pte_entry_lo (entry_at s a j))" for j
    using s'(3) fe(2) by (auto simp: faulted_def evicted_def)
  have other: "\<exists>j<MAXPAGES. sw_pte (swap_pool_table s g) = Some (a, of_nat j) \<and> j \<noteq> i
      \<and> pte_entry_lo (entry_at s' a j) = frame_entry s g" if g: "occupied s g" "g \<noteq> f" for g
  proof -
    obtain j where j: "j < MAXPAGES" "sw_pte (swap_pool_table s g) = Some (a, of_nat j)"
      "pte_entry_lo (entry_at s a j) = frame_entry s g" using I(3) g(1) by blast
    then have ji: "j \<noteq> i" using i(2) frame_entry_valid by auto
    have "j \<noteq> victim_index e" if occ: "check_frame_occupied e"
    proof
      assume "j = victim_index e"
      then have "sw_pte (swap_pool_table s g) = sw_pte (swap_pool_table s f)" using vic[OF occ] j(2) f(2) by auto
      moreover have "occupied s f" using occ f by (simp add: occupied_def)
      ultimately show False using I(4) g by blast
    qed
    then have "pte_entry_lo (entry_at s' a j) = frame_entry s g" using lo(2)[OF ji] j(3) by auto
    then show ?thesis using j(1,2) ji by blast
  qed
  have new: "sw_pte (swap_pool_table s' f) = Some (a, of_nat i)"
    "g \<noteq> f \<Longrightarrow> sw_pte (swap_pool_table s' g) = sw_pte (swap_pool_table s g)" for g
    using s'(1) by simp_all
  have 1: "\<exists>j<MAXPAGES. sw_pte (swap_pool_table s' g) = Some (a, of_nat j)
       \<and> pte_entry_lo (entry_at s' a j) = frame_entry s' g" if "occupied s' g" for g
  proof (cases "g = f")
    case True
    then show ?thesis using new(1) i(1) lo(1) fe(1) by auto
  next
    case False
    then show ?thesis using other[of g] that occ new(2)[OF False] fe(1) by auto
  qed
  have 2: "g = h" if "occupied s' g" "occupied s' h" "sw_pte (swap_pool_table s' g) = sw_pte (swap_pool_table s' h)" for g h
  proof -
    have ne: "sw_pte (swap_pool_table s k) \<noteq> Some (a, of_nat i)" if "occupied s k" "k \<noteq> f" for k
      using other[OF that] of_nat_index_inj i(1) by auto
    consider "g = f" "h = f" | "g = f" "h \<noteq> f" | "g \<noteq> f" "h = f" | "g \<noteq> f" "h \<noteq> f" by blast
    then show ?thesis
    proof cases
      case 4
      then have "occupied s g" "occupied s h" using that occ by auto
      then show ?thesis using I(4) that(3) new(2)[OF 4(1)] new(2)[OF 4(2)] by metis
    qed (use that occ new ne in \<open>auto dest: sym\<close>)
  qed
  have 3: "\<exists>g. occupied s' g \<and> sw_pte (swap_pool_table s' g) = Some (a, of_nat j)"
    if jl: "j < MAXPAGES" "pte_entry_lo (entry_at s' a j) AND VALIDON \<noteq> 0" for j
  proof (cases "j = i")
    case True
    then show ?thesis using new(1) occ by blast
  next
    case False
    then have v: "pte_entry_lo (entry_at s a j) AND VALIDON \<noteq> 0" and nv: "\<not> (check_frame_occupied e \<and> j = victim_index e)"
      using jl(2) lo(2)[OF False] by (auto split: if_splits)
    obtain g where g: "occupied s g" "sw_pte (swap_pool_table s g) = Some (a, of_nat j)"
      using I(5)[of j] v jl(1) by blast
    have "g \<noteq> f"
    proof
      assume "g = f"
      then have "check_frame_occupied e" "sw_pte e = Some (a, of_nat j)" using g f(2) by (auto simp: occupied_def)
      then show False using vic nv of_nat_index_inj jl(1) by auto
    qed
    then show ?thesis using g occ new(2) by metis
  qed
  have 4: "is_valid_asid (sw_asid (swap_pool_table s' g))" if "occupied s' g" for g
    using that occ[of g] I(6)[of g] s'(1) asid by auto
  show ?thesis unfolding pool_inv_def using I(1,2) hi 1 2 3 4 by simp
qed

section \<open>The TLB and the page tables\<close>

text \<open>
  What the architecture documents of the TLB: an entry answers for an address of the same page and
  address space; \<^verbatim>\<open>TLBP\<close> reports the entry that matches \<^verbatim>\<open>ENTRYHI\<close>, or sets the top bit of
  \<^verbatim>\<open>INDEX\<close>; \<^verbatim>\<open>TLBWI\<close> writes the entry at \<^verbatim>\<open>INDEX\<close>, \<^verbatim>\<open>TLBWR\<close> some entry.
\<close>

definition same_page :: "u32 \<Rightarrow> u32 \<Rightarrow> bool" where
  "same_page x y \<longleftrightarrow> drop_bit ASIDSHIFT x = drop_bit ASIDSHIFT y"

definition tlb_answers :: "nat \<Rightarrow> tlb_t \<Rightarrow> u32 \<Rightarrow> nat \<Rightarrow> bool" where
  "tlb_answers n t x m \<longleftrightarrow> m < n \<and> same_page (pte_entry_hi (tlb_entries t m)) x"

abbreviation (input) tlb_written :: "tlb_t \<Rightarrow> nat \<Rightarrow> tlb_t" where
  "tlb_written t m \<equiv> t\<lparr>tlb_entries := (tlb_entries t)(m := \<lparr>pte_entry_hi = ENTRYHI t, pte_entry_lo = ENTRYLO t\<rparr>)\<rparr>"

definition tlb_ok :: "world \<Rightarrow> nat \<Rightarrow> bool" where
  "tlb_ok W n \<longleftrightarrow> n \<le> 2 ^ 31
   \<and> (\<forall>t. (\<exists>m. tlb_answers n t (ENTRYHI t) m \<and> TLBP W t = t\<lparr>INDEX := of_nat m\<rparr>)
        \<or> (\<forall>m. \<not> tlb_answers n t (ENTRYHI t) m) \<and> (\<exists>x. TLBP W t = t\<lparr>INDEX := x\<rparr> \<and> x AND PRESENTFLAG \<noteq> 0))
   \<and> (\<forall>t m. m < n \<longrightarrow> INDEX t = of_nat m \<longrightarrow> TLBWI W t = tlb_written t m)
   \<and> (\<forall>t. \<exists>m<n. TLBWR W t = tlb_written t m)"

lemma present_index: "n \<le> 2 ^ 31 \<Longrightarrow> m < n \<Longrightarrow> (of_nat m :: u32) AND PRESENTFLAG = 0"
proof -
  assume "n \<le> 2 ^ 31" "m < n"
  then have "m < 2 ^ 31" by simp
  then have "\<not> bit m 31" by (simp add: bit_iff_odd)
  then have "\<not> bit (of_nat m :: u32) 31" by (simp only: bit_of_nat_iff) simp
  then show ?thesis using bit_iff_and_push_bit_not_eq_0[of "of_nat m :: u32" 31] by simp
qed

lemma tlb_refresh_cases:
  assumes "tlb_ok W n"
  shows "(\<exists>m. tlb_answers n t (pte_entry_hi p) m \<and> tlb_entries (tlb_refresh W p t) = (tlb_entries t)(m := p))
    \<or> (\<forall>m. \<not> tlb_answers n t (pte_entry_hi p) m) \<and> tlb_entries (tlb_refresh W p t) = tlb_entries t"
proof -
  let ?t = "t\<lparr>ENTRYHI := pte_entry_hi p\<rparr>"
  have A: "tlb_answers n ?t (ENTRYHI ?t) = tlb_answers n t (pte_entry_hi p)" by (simp add: tlb_answers_def fun_eq_iff)
  have "(\<exists>m. tlb_answers n ?t (ENTRYHI ?t) m \<and> TLBP W ?t = ?t\<lparr>INDEX := of_nat m\<rparr>)
      \<or> (\<forall>m. \<not> tlb_answers n ?t (ENTRYHI ?t) m) \<and> (\<exists>x. TLBP W ?t = ?t\<lparr>INDEX := x\<rparr> \<and> x AND PRESENTFLAG \<noteq> 0)"
    using assms unfolding tlb_ok_def by blast
  then show ?thesis
  proof
    assume "\<exists>m. tlb_answers n ?t (ENTRYHI ?t) m \<and> TLBP W ?t = ?t\<lparr>INDEX := of_nat m\<rparr>"
    then obtain m where m: "tlb_answers n t (pte_entry_hi p) m" "TLBP W ?t = ?t\<lparr>INDEX := of_nat m\<rparr>" using A by auto
    let ?u = "?t\<lparr>INDEX := of_nat m, ENTRYHI := pte_entry_hi p, ENTRYLO := pte_entry_lo p\<rparr>"
    have "m < n" "n \<le> 2 ^ 31" using m(1) assms by (auto simp: tlb_answers_def tlb_ok_def)
    then have "(of_nat m :: u32) AND PRESENTFLAG = 0" "TLBWI W ?u = tlb_written ?u m"
      using present_index assms unfolding tlb_ok_def by simp_all
    then have "tlb_refresh W p t = tlb_written ?u m" using m(2) by (simp add: tlb_refresh_def Let_def)
    moreover have "\<lparr>pte_entry_hi = pte_entry_hi p, pte_entry_lo = pte_entry_lo p\<rparr> = p" by simp
    ultimately have "tlb_entries (tlb_refresh W p t) = (tlb_entries t)(m := p)" by simp
    then show ?thesis using m(1) by blast
  next
    assume "(\<forall>m. \<not> tlb_answers n ?t (ENTRYHI ?t) m) \<and> (\<exists>x. TLBP W ?t = ?t\<lparr>INDEX := x\<rparr> \<and> x AND PRESENTFLAG \<noteq> 0)"
    then show ?thesis using A by (auto simp: tlb_refresh_def Let_def)
  qed
qed

text \<open>No entry of the TLB contradicts the page table of a process, and no two entries answer for one page.\<close>

definition tlb_unique :: "nat \<Rightarrow> tlb_t \<Rightarrow> bool" where
  "tlb_unique n t \<longleftrightarrow> (\<forall>x m m'. tlb_answers n t x m \<longrightarrow> tlb_answers n t x m' \<longrightarrow> m = m')"

definition tlb_coherent :: "nat \<Rightarrow> u32 \<Rightarrow> (u32 \<Rightarrow> support_t) \<Rightarrow> tlb_t \<Rightarrow> bool" where
  "tlb_coherent n a S t \<longleftrightarrow> (\<forall>j<MAXPAGES. \<forall>m. tlb_answers n t (pte_entry_hi (sup_private_page_table (S a) j)) m \<longrightarrow>
     pte_entry_lo (tlb_entries t m) = pte_entry_lo (sup_private_page_table (S a) j))"

lemma same_page_page_of: "same_page x y \<Longrightarrow> page_of x = page_of y"
proof -
  assume "same_page x y"
  then have "unat (drop_bit 6 x) = unat (drop_bit 6 y)" by (simp add: same_page_def)
  then have "unat x div 64 = unat y div 64" by (simp add: unat_drop_bit_eq drop_bit_eq_div unat_div)
  then have "unat x div 64 div 64 = unat y div 64 div 64" by (rule arg_cong)
  then show ?thesis by (simp add: page_of_def div_mult2_eq[symmetric])
qed

lemma same_page_sym: "same_page x y \<longleftrightarrow> same_page y x"
  by (auto simp: same_page_def)

lemma same_page_trans: "same_page x y \<Longrightarrow> same_page x z \<longleftrightarrow> same_page y z" "same_page x x"
  by (simp_all add: same_page_def)

lemma tlb_refresh_coherent:
  assumes W: "tlb_ok W n" and T: "tlb_unique n t" "tlb_coherent n a S t" and k: "k < MAXPAGES"
    and pages: "\<And>j. j < MAXPAGES \<Longrightarrow> page_of (pte_entry_hi (sup_private_page_table (S a) j)) = Some j"
    and g: "\<And>e. pte_entry_hi (g e) = pte_entry_hi e"
  shows "tlb_unique n (tlb_refresh W (sup_private_page_table (set_entry a k g S a) k) t)"
    "tlb_coherent n a (set_entry a k g S) (tlb_refresh W (sup_private_page_table (set_entry a k g S a) k) t)"
proof -
  let ?p = "sup_private_page_table (set_entry a k g S a) k"
  let ?t = "tlb_refresh W ?p t"
  have hi: "pte_entry_hi (sup_private_page_table (set_entry a k g S a) j) = pte_entry_hi (sup_private_page_table (S a) j)" for j
    using g by simp
  have ans: "tlb_answers n ?t x m \<longleftrightarrow> tlb_answers n t x m" for x m
  proof -
    from tlb_refresh_cases[OF W, of t ?p] show ?thesis
    proof
      assume "\<exists>m. tlb_answers n t (pte_entry_hi ?p) m \<and> tlb_entries ?t = (tlb_entries t)(m := ?p)"
      then obtain m0 where m0: "tlb_answers n t (pte_entry_hi ?p) m0" "tlb_entries ?t = (tlb_entries t)(m0 := ?p)" by blast
      then have "same_page (pte_entry_hi (tlb_entries t m0)) x \<longleftrightarrow> same_page (pte_entry_hi ?p) x"
        using same_page_trans(1) unfolding tlb_answers_def by blast
      then show ?thesis using m0(2) unfolding tlb_answers_def by simp
    qed (simp add: tlb_answers_def)
  qed
  show "tlb_unique n ?t" using T(1) unfolding tlb_unique_def ans .
  show "tlb_coherent n a (set_entry a k g S) ?t"
    unfolding tlb_coherent_def
  proof (intro allI impI)
    fix j m assume j: "j < MAXPAGES" and m: "tlb_answers n ?t (pte_entry_hi (sup_private_page_table (set_entry a k g S a) j)) m"
    then have m': "tlb_answers n t (pte_entry_hi (sup_private_page_table (S a) j)) m" unfolding hi ans by simp
    show "pte_entry_lo (tlb_entries ?t m) = pte_entry_lo (sup_private_page_table (set_entry a k g S a) j)"
    proof (cases "j = k")
      case True
      then have "tlb_answers n t (pte_entry_hi ?p) m" using m' unfolding hi by simp
      then have "tlb_entries ?t m = ?p" using tlb_refresh_cases[OF W, of t ?p] T(1) unfolding tlb_unique_def
        by (metis fun_upd_same)
      then show ?thesis using True by simp
    next
      case False
      have "\<not> tlb_answers n t (pte_entry_hi ?p) m"
      proof
        assume "tlb_answers n t (pte_entry_hi ?p) m"
        then have "same_page (pte_entry_hi (sup_private_page_table (S a) k)) (pte_entry_hi (sup_private_page_table (S a) j))"
          using m' same_page_trans(1) unfolding tlb_answers_def hi by blast
        then show False using same_page_page_of pages[OF j] pages[OF k] False by fastforce
      qed
      then have "tlb_entries ?t m = tlb_entries t m" using tlb_refresh_cases[OF W, of t ?p] by auto
      then show ?thesis using T(2) m' j False unfolding tlb_coherent_def by simp
    qed
  qed
qed

lemma faulted_coherent:
  assumes W: "tlb_ok W n" and T: "tlb_unique n t" "tlb_coherent n a S t" and i: "i < MAXPAGES"
    and pages: "\<And>j. j < MAXPAGES \<Longrightarrow> page_of (pte_entry_hi (sup_private_page_table (S a) j)) = Some j"
    and e: "check_frame_occupied e \<Longrightarrow> \<exists>j<MAXPAGES. sw_pte e = Some (a, of_nat j)"
  shows "tlb_unique n (faulted_tlb W a i addr e S t)" "tlb_coherent n a (faulted a i addr e S) (faulted_tlb W a i addr e S t)"
proof -
  have "tlb_unique n (evicted_tlb W a e S t) \<and> tlb_coherent n a (evicted a e S) (evicted_tlb W a e S t)"
  proof (cases "check_frame_occupied e")
    case True
    then obtain j where j: "j < MAXPAGES" "sw_pte e = Some (a, of_nat j)" "victim_index e = j"
      using e by (auto simp: victim_index_def unat_of_nat)
    then show ?thesis
      using True tlb_refresh_coherent[OF W T j(1) pages, of "\<lambda>e. e\<lparr>pte_entry_lo := 0\<rparr>"]
      by (simp add: evicted_tlb_def evicted_def unat_of_nat del: set_entry_facts(4))
  next
    case False
    then show ?thesis using T by (simp add: evicted_tlb_def evicted_def split: option.split)
  qed
  moreover have "page_of (pte_entry_hi (sup_private_page_table (evicted a e S a) j)) = Some j" if "j < MAXPAGES" for j
    using pages[OF that] by (auto simp: evicted_def)
  ultimately show "tlb_unique n (faulted_tlb W a i addr e S t)"
    "tlb_coherent n a (faulted a i addr e S) (faulted_tlb W a i addr e S t)"
    using tlb_refresh_coherent[OF W _ _ i, of "evicted_tlb W a e S t" a "evicted a e S"
      "\<lambda>e. e\<lparr>pte_entry_lo := addr OR VALIDON OR DIRTYON\<rparr>"]
    unfolding faulted_tlb_def faulted_def by simp_all
qed

lemma pick_page_same:
  "pick_page s = (f, s') \<Longrightarrow> s' = s\<lparr>fifo_index := fifo_index s'\<rparr>"
  by (auto simp: pick_page_def Let_def simp del: upt_rec_numeral split: option.splits)

lemma pte_collapse: "\<lparr>pte_entry_hi = pte_entry_hi p, pte_entry_lo = pte_entry_lo p\<rparr> = p"
  by simp

text \<open>The refill handler puts the page table's entry into the TLB.\<close>

lemma refill:
  assumes "tlb_ok W n" "logs_ok s" "active_process (kernel s) = Some p" "p_support (pcb_table (kernel s) p) = a" "a \<noteq> 0"
    and "st = states (kernel s) BIOSDATAPAGE" "page_of (entry_hi st) = Some i"
  shows "\<exists>m<n. \<exists>t d. tlb_refill_handler W s = Some (SExit (SLDST st) (s\<lparr>tlb := t, kdebug := d\<rparr>))
    \<and> tlb_entries t = (tlb_entries (tlb s))(m := entry_at s a i) \<and> log_ok d"
proof -
  have i: "i < MAXPAGES" by (rule page_of_less[OF assms(7)])
  obtain d where d: "kfprintf_debug ''TLB-Refill on %p\<newline>'' [ArgInt (entry_hi st)] s = Some (s\<lparr>kdebug := d\<rparr>)" "log_ok d"
    using kfprintf_ok(2)[OF assms(2), of "''TLB-Refill on %p\<newline>''" "[ArgInt (entry_hi st)]"] by auto
  let ?t = "(tlb s)\<lparr>ENTRYHI := pte_entry_hi (entry_at s a i), ENTRYLO := pte_entry_lo (entry_at s a i)\<rparr>"
  obtain m where m: "m < n" "TLBWR W ?t = tlb_written ?t m" using assms(1) unfolding tlb_ok_def by blast
  have "tlb_refill_handler W s = load_state st (add_random_in_tlb W (entry_at s a i) (s\<lparr>kdebug := d\<rparr>))"
    using assms(3-5) d(1) entryhi_to_index_page(1)[OF assms(2,7)] i
    by (simp add: tlb_refill_handler_def assms(6)[symmetric] pte_at_Some)
  also have "\<dots> = Some (SExit (SLDST st) (s\<lparr>tlb := tlb_written ?t m, kdebug := d\<rparr>))"
    using m(2) by (simp add: add_random_in_tlb_def load_state_def)
  finally show ?thesis using m(1) d(2)
    by (intro exI[of _ m] conjI exI[of _ "tlb_written ?t m"] exI[of _ d]) (simp_all add: pte_collapse)
qed

section \<open>Cleaning up after a process\<close>

lemma mark_frames:
  "mark_frames_as_unoccupied asid s = s\<lparr>swap_pool_table := (\<lambda>f. if f < POOLSIZE \<and> sw_asid (swap_pool_table s f) = asid
     then (swap_pool_table s f)\<lparr>sw_asid := - 1\<rparr> else swap_pool_table s f)\<rparr>"
proof -
  have "fold (\<lambda>i s. if sw_asid (swap_pool_table s i) = asid then upd_swap i (\<lambda>e. e\<lparr>sw_asid := - 1\<rparr>) s else s) [0..<n] s
      = s\<lparr>swap_pool_table := (\<lambda>f. if f < n \<and> sw_asid (swap_pool_table s f) = asid
     then (swap_pool_table s f)\<lparr>sw_asid := - 1\<rparr> else swap_pool_table s f)\<rparr>" for n
  proof (induction n)
    case 0
    then show ?case by simp
  next
    case (Suc n)
    then show ?case by (auto simp: upd_swap_def fun_eq_iff less_Suc_eq)
  qed
  from this[of POOLSIZE] show ?thesis by (simp only: mark_frames_as_unoccupied_def)
qed

lemma clean_after:
  assumes "is_valid_asid asid" "I (kernel s)" "gives W I VERHOGEN (sem_swap_pool_table W) 0 0 q"
  shows "\<exists>\<kappa>. clean_after_uproc W asid s = Some (SRet () (s\<lparr>kernel := \<kappa>,
      swap_pool_table := (\<lambda>f. if f < POOLSIZE \<and> sw_asid (swap_pool_table s f) = asid
        then (swap_pool_table s f)\<lparr>sw_asid := - 1\<rparr> else swap_pool_table s f),
      calls := calls s @ (if swap_pool_batons s (unat (asid - 1)) then [(VERHOGEN, sem_swap_pool_table W, 0, 0)] else [])\<rparr>))
    \<and> I \<kappa> \<and> supports \<kappa> = supports (kernel s)"
proof (cases "swap_pool_batons s (unat (asid - 1))")
  case True
  from SYSCALL_gives[OF assms(3,2)] obtain \<kappa> where "SYSCALL W VERHOGEN (sem_swap_pool_table W) 0 0 s
      = Some (SRet q (s\<lparr>kernel := \<kappa>, calls := calls s @ [(VERHOGEN, sem_swap_pool_table W, 0, 0)]\<rparr>))"
    "I \<kappa>" "supports \<kappa> = supports (kernel s)" by blast
  with True assms(1) show ?thesis
    by (intro exI[of _ \<kappa>])
      (simp add: clean_after_uproc_def release_sem_swap_pool_table_def get_swap_pool_baton_def mark_frames cong: if_cong)
next
  case False
  with assms(1,2) show ?thesis
    by (intro exI[of _ "kernel s"])
      (simp add: clean_after_uproc_def release_sem_swap_pool_table_def get_swap_pool_baton_def mark_frames cong: if_cong)
qed

section \<open>A new page table\<close>

definition new_table :: "u32 \<Rightarrow> u32 \<Rightarrow> nat \<Rightarrow> (nat \<Rightarrow> pte_entry_t) \<Rightarrow> nat \<Rightarrow> pte_entry_t" where
  "new_table asid n m t j = (if j < m then page_entry asid n j else t j)"

lemma fill_page_table:
  assumes "a \<noteq> 0" "m \<le> MAXPAGES"
  shows "for_each [0..<m] (\<lambda>i. upd_pte (Some a) (of_nat i) (\<lambda>_. page_entry asid n i)) s
    = Some (s\<lparr>kernel := (kernel s)\<lparr>supports := (supports (kernel s))(a := (supports (kernel s) a)
        \<lparr>sup_private_page_table := new_table asid n m (sup_private_page_table (supports (kernel s) a))\<rparr>)\<rparr>\<rparr>)"
  using assms(2)
proof (induction m)
  case 0
  then show ?case by (simp add: new_table_def)
next
  case (Suc m)
  have "(new_table asid n m t)(m := page_entry asid n m) = new_table asid n (Suc m) t" for t
    by (auto simp: new_table_def less_Suc_eq)
  moreover have "(S(a := y))(a := x) = S(a := x)" for S :: "u32 \<Rightarrow> support_t" and x y by simp
  ultimately show ?case using Suc assms(1)
    by (simp add: for_each_append upd_pte_Some set_entry_def del: fun_upd_apply) (simp add: fun_upd_def)
qed

lemma init_page_table_ready:
  assumes env: "undisturbed W I" "flash_gives W I (\<lambda>_ _. DEV_STATUS_READY)" "I (kernel s)"
    and a: "a \<noteq> 0" "is_valid_asid asid" and h: "header_data W + 20 \<noteq> 0" "word_aligned (header_data W + 20)"
  shows "\<exists>\<kappa> n. init_page_table W (Some a) asid s = Some (SRet True (s\<lparr>kernel := \<kappa>,
      swap_pool_batons := (swap_pool_batons s)(unat (asid - 1) := False), calls := calls s @ [read_call W asid 0]\<rparr>))
    \<and> I \<kappa> \<and> n = mem \<kappa> (header_data W + 20) div PAGESIZE
    \<and> supports \<kappa> = (supports (kernel s))(a := (supports (kernel s) a)\<lparr>sup_private_page_table :=
        (new_table asid n (MAXPAGES - 1) (sup_private_page_table (supports (kernel s) a)))(MAXPAGES - 1 := stack_entry asid)\<rparr>)"
proof -
  from flash_io(1)[OF env a(2), of 0 "header_data W"] obtain \<kappa>1 where
    r: "read_flash W asid 0 (header_data W) s = Some (SRet DEV_STATUS_READY (s\<lparr>kernel := \<kappa>1, calls := calls s @ [read_call W asid 0]\<rparr>))"
      "I \<kappa>1" "supports \<kappa>1 = supports (kernel s)" by auto
  let ?n = "mem \<kappa>1 (header_data W + 20) div PAGESIZE"
  let ?S = "(supports (kernel s))(a := (supports (kernel s) a)\<lparr>sup_private_page_table :=
        (new_table asid ?n (MAXPAGES - 1) (sup_private_page_table (supports (kernel s) a)))(MAXPAGES - 1 := stack_entry asid)\<rparr>)"
  have asid: "\<not> sint asid \<le> 0" "\<not> sint asid > int UPROCMAX" using a(2) by (auto simp: is_valid_asid_def)
  have stack: "upd_pte (Some a) (of_nat (MAXPAGES - 1)) f t
      = Some (t\<lparr>kernel := (kernel t)\<lparr>supports := set_entry a (MAXPAGES - 1) f (supports (kernel t))\<rparr>\<rparr>)" for f t
    using upd_pte_Some[OF a(1), of "MAXPAGES - 1"] by simp
  have "init_page_table W (Some a) asid s = Some (SRet True (s\<lparr>kernel := \<kappa>1\<lparr>supports := ?S\<rparr>,
      swap_pool_batons := (swap_pool_batons s)(unat (asid - 1) := False), calls := calls s @ [read_call W asid 0]\<rparr>))"
    using a(1) asid r(1,3) h fill_page_table[OF a(1), of "MAXPAGES - 1"] stack
    by (simp add: init_page_table_def kload_def load_word_def set_entry_def del: upt_rec_numeral)
  moreover have "I (\<kappa>1\<lparr>supports := ?S\<rparr>)" using undisturbedD(2)[OF env(1) r(2)] .
  ultimately show ?thesis by (intro exI[of _ "\<kappa>1\<lparr>supports := ?S\<rparr>"] exI[of _ ?n]) simp
qed

end
