(* ===== verification/Userland.thy ===== *)
theory Userland
  imports Paging
begin

text \<open>
  What the rest of the support level does: the allocation of support structures keeps a ring of free
  ones, the writers and the reader move strings to and from devices, a process that terminates gives
  its resources back, and the instantiator starts its processes.
\<close>

section \<open>Allocation of support structures\<close>

definition free_supports :: "sstate \<Rightarrow> u32 list \<Rightarrow> bool" where
  "free_supports s xs \<longleftrightarrow> ring (supp_lh s) support_free (map sup_p_list xs)"

lemma log_free_size_ok:
  assumes "free_supports s xs" "logs_ok s"
  shows "\<exists>d. log_free_size s = Some (s\<lparr>kdebug := d\<rparr>) \<and> log_ok d"
  using list_size_ring[OF assms(1)[unfolded free_supports_def]]
    kfprintf_ok(2)[OF assms(2), of "''|support_free| = %d\<newline>''" "[ArgInt (word_of_int (int (length xs)))]"]
  by (simp add: log_free_size_def)

lemma deallocate_taken:
  assumes "free_supports s xs" "logs_ok s" "a \<noteq> 0" "a \<notin> set xs"
  shows "\<exists>h d. deallocate W a s = Some (SRet () (s\<lparr>supp_lh := h, kdebug := d\<rparr>)) \<and> log_ok d
    \<and> free_supports (s\<lparr>supp_lh := h, kdebug := d\<rparr>) (a # xs)"
proof -
  note r = assms(1)[unfolded free_supports_def]
  let ?R = "[support_free \<mapsto> map sup_p_list xs]"
  have "rings (supp_lh s) ?R" using r by (auto simp: rings_def disjoint_rings_def split: if_splits)
  moreover have "sup_p_list a \<notin> ring_nodes ?R" using assms(4) by (auto simp: ring_nodes_def split: if_splits)
  ultimately obtain h where h: "list_add (Some (sup_p_list a)) (Some support_free) (supp_lh s) = Some h"
    "rings h (?R(support_free \<mapsto> sup_p_list a # map sup_p_list xs))"
    using rings_add[of "supp_lh s" ?R support_free "map sup_p_list xs" "sup_p_list a"] by auto
  note hr = rings_ring[OF h(2), of support_free "map sup_p_list (a # xs)", simplified]
  obtain d where d: "kfprintf_debug ''Deallocating #%d...\<newline>'' [ArgInt (slot_of W a)] s = Some (s\<lparr>kdebug := d\<rparr>)" "log_ok d"
    using kfprintf_ok(2)[OF assms(2), of "''Deallocating #%d...\<newline>''" "[ArgInt (slot_of W a)]"] by auto
  have "free_supports (s\<lparr>kdebug := d, supp_lh := h\<rparr>) (a # xs)" "logs_ok (s\<lparr>kdebug := d, supp_lh := h\<rparr>)"
    using hr d(2) assms(2) by (simp_all add: free_supports_def logs_ok_def)
  from log_free_size_ok[OF this] obtain d' where
    d': "log_free_size (s\<lparr>kdebug := d, supp_lh := h\<rparr>) = Some (s\<lparr>supp_lh := h, kdebug := d'\<rparr>)" "log_ok d'" by auto
  have "list_contains (sup_p_list a) (Some support_free) (supp_lh s) = Some False"
    using list_contains_ring[OF r] assms(4) by auto
  then show ?thesis using assms(3) d d' h(1) hr
    by (intro exI[of _ h] exI[of _ d']) (simp add: deallocate_def free_supports_def)
qed

lemma deallocate_free:
  assumes "free_supports s xs" "logs_ok s" "a = 0 \<or> a \<in> set xs"
  shows "panics (deallocate W a s)"
proof (cases "a = 0")
  case True
  then show ?thesis by (simp add: deallocate_def panics_err[OF assms(2)])
next
  case False
  then have "list_contains (sup_p_list a) (Some support_free) (supp_lh s) = Some True"
    using list_contains_ring[OF assms(1)[unfolded free_supports_def]] assms(3) by auto
  then show ?thesis using False panics_err[OF assms(2), of "''Double support_t %p deallocation.\<newline>''" "[ArgInt a]"]
    by (simp add: deallocate_def)
qed

lemma allocate_free:
  assumes "free_supports s (a # xs)" "logs_ok s"
  shows "\<exists>h d. allocate W s = Some (SRet a (s\<lparr>supp_lh := h, kdebug := d\<rparr>)) \<and> log_ok d
    \<and> free_supports (s\<lparr>supp_lh := h, kdebug := d\<rparr>) xs"
proof -
  note r = assms(1)[unfolded free_supports_def]
  let ?R = "[support_free \<mapsto> map sup_p_list (a # xs)]"
  have "rings (supp_lh s) ?R" using r by (auto simp: rings_def disjoint_rings_def split: if_splits)
  then obtain h where h0: "list_del (Some (sup_p_list a)) (supp_lh s) = Some h"
    "rings h (?R(support_free \<mapsto> map sup_p_list xs))"
    using rings_del[of "supp_lh s" ?R support_free "map sup_p_list (a # xs)" "sup_p_list a"] by auto
  note h = h0(1) rings_ring[OF h0(2), of support_free "map sup_p_list xs", simplified]
  let ?s = "s\<lparr>supp_lh := h\<rparr>"
  have "logs_ok ?s" using assms(2) by (simp add: logs_ok_def)
  from kfprintf_ok(2)[OF this, of "''Alloc support_t #%d...\<newline>''" "[ArgInt (slot_of W a)]"] obtain d where
    d: "kfprintf_debug ''Alloc support_t #%d...\<newline>'' [ArgInt (slot_of W a)] ?s = Some (s\<lparr>supp_lh := h, kdebug := d\<rparr>)" "log_ok d"
    by auto
  have "free_supports (s\<lparr>supp_lh := h, kdebug := d\<rparr>) xs" "logs_ok (s\<lparr>supp_lh := h, kdebug := d\<rparr>)"
    using h(2) d(2) assms(2) by (simp_all add: free_supports_def logs_ok_def)
  from log_free_size_ok[OF this] obtain d' where
    d': "log_free_size (s\<lparr>supp_lh := h, kdebug := d\<rparr>) = Some (s\<lparr>supp_lh := h, kdebug := d'\<rparr>)" "log_ok d'" by auto
  have "list_next (Some support_free) (supp_lh s) = Some (Some (sup_p_list a))"
    using list_next_ring[OF r] by simp
  then show ?thesis using h d d'
    by (intro exI[of _ h] exI[of _ d']) (simp add: allocate_def free_supports_def)
qed

lemma allocate_none:
  assumes "free_supports s []" "logs_ok s"
  shows "panics (allocate W s)"
proof -
  have "list_next (Some support_free) (supp_lh s) = Some None"
    using list_next_ring[OF assms(1)[unfolded free_supports_def]] by simp
  then show ?thesis by (simp add: allocate_def panics_err[OF assms(2)])
qed

text \<open>The table of support structures: different slots, none of them at address 0.\<close>

definition slots_ok :: "world \<Rightarrow> bool" where
  "slots_ok W \<longleftrightarrow> (\<forall>i<UPROCMAX. support_slot W i \<noteq> 0) \<and> inj_on (support_slot W) {..<UPROCMAX}"

lemma deallocate_all_slots:
  assumes "slots_ok W" "free_supports s xs" "logs_ok s" "distinct is" "set is \<subseteq> {..<UPROCMAX}"
    and "set xs \<inter> support_slot W ` set is = {}"
  shows "\<exists>h d. deallocate_all W is s = Some (SRet () (s\<lparr>supp_lh := h, kdebug := d\<rparr>)) \<and> log_ok d
    \<and> free_supports (s\<lparr>supp_lh := h, kdebug := d\<rparr>) (rev (map (support_slot W) is) @ xs)"
  using assms(2-6)
proof (induction "is" arbitrary: s xs)
  case Nil
  then show ?case by (intro exI[of _ "supp_lh s"] exI[of _ "kdebug s"]) (simp add: logs_ok_def)
next
  case (Cons i "is")
  let ?a = "support_slot W i"
  have a: "?a \<noteq> 0" "?a \<notin> set xs" using assms(1) Cons.prems(4,5) by (auto simp: slots_ok_def)
  obtain h d where d: "deallocate W ?a s = Some (SRet () (s\<lparr>supp_lh := h, kdebug := d\<rparr>))" "log_ok d"
    "free_supports (s\<lparr>supp_lh := h, kdebug := d\<rparr>) (?a # xs)"
    using deallocate_taken[OF Cons.prems(1,2) a] by blast
  have "?a \<notin> support_slot W ` set is" using assms(1) Cons.prems(3,4) by (auto simp: slots_ok_def inj_on_def)
  then have "set (?a # xs) \<inter> support_slot W ` set is = {}" using Cons.prems(5) by auto
  from Cons.IH[OF d(3) _ _ _ this] d(2) Cons.prems(2-4) obtain h' d' where
    "deallocate_all W is (s\<lparr>supp_lh := h, kdebug := d\<rparr>) = Some (SRet () (s\<lparr>supp_lh := h', kdebug := d'\<rparr>))" "log_ok d'"
    "free_supports (s\<lparr>supp_lh := h', kdebug := d'\<rparr>) (rev (map (support_slot W) is) @ ?a # xs)" by (auto simp: logs_ok_def)
  then show ?case using d(1) by (intro exI[of _ h'] exI[of _ d']) simp
qed

lemma init_supports_ok:
  assumes "slots_ok W" "logs_ok s"
  shows "\<exists>h d. init_supports W s = Some (SRet () (s\<lparr>supp_lh := h, kdebug := d\<rparr>)) \<and> log_ok d
    \<and> free_supports (s\<lparr>supp_lh := h, kdebug := d\<rparr>) (rev (map (support_slot W) [0..<UPROCMAX]))"
proof -
  obtain h where h0: "INIT_LIST_HEAD (Some support_free) (supp_lh s) = Some h" "rings h [support_free \<mapsto> []]"
    using rings_init[of "supp_lh s" Map.empty support_free] by (auto simp: ring_nodes_def)
  note h = h0(1) rings_ring[OF h0(2), of support_free "[]", simplified]
  let ?s = "s\<lparr>supp_lh := h\<rparr>"
  have "free_supports ?s []" "logs_ok ?s" using h(2) assms(2) by (simp_all add: free_supports_def logs_ok_def)
  from deallocate_all_slots[OF assms(1) this, of "[0..<UPROCMAX]"] show ?thesis
    using h(1) by (simp add: init_supports_def lessThan_atLeast0 del: upt_rec_numeral)
qed

section \<open>Termination of a user process\<close>

text \<open>The control block of the running process may be stepped past an instruction.\<close>

definition keeps_registers :: "(kstate \<Rightarrow> bool) \<Rightarrow> bool" where
  "keeps_registers I \<longleftrightarrow> (\<forall>k i f. I k \<longrightarrow> I (upd_pcb i (\<lambda>p. p\<lparr>p_s := f (p_s p)\<rparr>) k))"

lemma SYSCALL_gives_level:
  assumes "gives W I n a b c r" "I (kernel s)"
  shows "\<exists>k. SYSCALL W n a b c s = Some (SRet r (s\<lparr>kernel := k, calls := calls s @ [(n, a, b, c)]\<rparr>))
    \<and> I (kernel (s\<lparr>kernel := k, calls := calls s @ [(n, a, b, c)]\<rparr>)) \<and> supports k = supports (kernel s)"
  using SYSCALL_gives[OF assms] by simp

lemma release_frames:
  assumes "gives W I GETSUPPORTPTR 0 0 0 a" "gives W I VERHOGEN (sem_swap_pool_table W) 0 0 q"
    and "I (kernel s)" "a \<noteq> 0" "asid = sup_asid (supports (kernel s) a)" "is_valid_asid asid"
  shows "\<exists>\<kappa>. sys_terminate W s = sbind (deallocate_support W a (s\<lparr>kernel := \<kappa>,
        swap_pool_table := (\<lambda>f. if f < POOLSIZE \<and> sw_asid (swap_pool_table s f) = asid
          then (swap_pool_table s f)\<lparr>sw_asid := - 1\<rparr> else swap_pool_table s f),
        calls := calls s @ (GETSUPPORTPTR, 0, 0, 0)
          # (if swap_pool_batons s (unat (asid - 1)) then [(VERHOGEN, sem_swap_pool_table W, 0, 0)] else [])\<rparr>))
      (\<lambda>_ s. sbind (master_semaphore_v W s) (\<lambda>_ s. sbind (SYSCALL W TERMPROCESS 0 0 0 s) (\<lambda>_ s. Some (SRet () s))))
    \<and> I \<kappa> \<and> supports \<kappa> = supports (kernel s)"
proof -
  from SYSCALL_gives[OF assms(1,3)] obtain \<kappa>1 where
    g: "SYSCALL W GETSUPPORTPTR 0 0 0 s = Some (SRet a (s\<lparr>kernel := \<kappa>1, calls := calls s @ [(GETSUPPORTPTR, 0, 0, 0)]\<rparr>))"
    "I \<kappa>1" "supports \<kappa>1 = supports (kernel s)" by blast
  define s1 where "s1 = s\<lparr>kernel := \<kappa>1, calls := calls s @ [(GETSUPPORTPTR, 0, 0, 0)]\<rparr>"
  have s1: "I (kernel s1)" "supports (kernel s1) = supports (kernel s)" "swap_pool_table s1 = swap_pool_table s"
    "swap_pool_batons s1 = swap_pool_batons s" "calls s1 = calls s @ [(GETSUPPORTPTR, 0, 0, 0)]"
    using g(2,3) by (simp_all add: s1_def)
  from clean_after[OF assms(6) s1(1) assms(2), unfolded s1(2-5)] obtain \<kappa> where
    c: "clean_after_uproc W asid s1 = Some (SRet () (s1\<lparr>kernel := \<kappa>,
      swap_pool_table := (\<lambda>f. if f < POOLSIZE \<and> sw_asid (swap_pool_table s f) = asid
        then (swap_pool_table s f)\<lparr>sw_asid := - 1\<rparr> else swap_pool_table s f),
      calls := (calls s @ [(GETSUPPORTPTR, 0, 0, 0)])
        @ (if swap_pool_batons s (unat (asid - 1)) then [(VERHOGEN, sem_swap_pool_table W, 0, 0)] else [])\<rparr>))"
    "I \<kappa>" "supports \<kappa> = supports (kernel s)" by blast
  have "sys_terminate W s = sbind (clean_after_uproc W asid s1) (\<lambda>_ s. sbind (deallocate_support W a s) (\<lambda>_ s.
      sbind (master_semaphore_v W s) (\<lambda>_ s. sbind (SYSCALL W TERMPROCESS 0 0 0 s) (\<lambda>_ s. Some (SRet () s)))))"
    using assms(4,5) s1(2) by (simp add: sys_terminate_def g(1) s1_def[symmetric] support_at_def)
  then show ?thesis using c by (intro exI[of _ \<kappa>]) (simp add: s1_def)
qed

lemma second_termination:
  assumes "gives W I GETSUPPORTPTR 0 0 0 a" "gives W I VERHOGEN (sem_swap_pool_table W) 0 0 q"
    and "I (kernel s)" "a \<noteq> 0" "is_valid_asid (sup_asid (supports (kernel s) a))"
    and "free_supports s xs" "a \<in> set xs" "logs_ok s"
  shows "panics (sys_terminate W s)"
proof -
  from release_frames[OF assms(1-4) refl assms(5)] obtain \<kappa> T c where
    t: "sys_terminate W s = sbind (deallocate_support W a (s\<lparr>kernel := \<kappa>, swap_pool_table := T, calls := c\<rparr>))
      (\<lambda>_ s. sbind (master_semaphore_v W s) (\<lambda>_ s. sbind (SYSCALL W TERMPROCESS 0 0 0 s) (\<lambda>_ s. Some (SRet () s))))"
    by blast
  have "panics (deallocate_support W a (s\<lparr>kernel := \<kappa>, swap_pool_table := T, calls := c\<rparr>))"
    unfolding deallocate_support_def
    by (rule deallocate_free) (use assms(6-8) in \<open>auto simp: free_supports_def logs_ok_def\<close>)
  then show ?thesis unfolding t by (rule panics_sbind)
qed

text \<open>A call number that is none of the support level's ends the process.\<close>

lemma support_generic_terminates:
  assumes "gives W I GETSUPPORTPTR 0 0 0 a" "keeps_registers I" "\<And>k. I k \<Longrightarrow> active_process k \<noteq> None"
    and "I (kernel s)" "logs_ok s" "a \<noteq> 0"
    and "st = sup_except_state (supports (kernel s) a) GENERALEXCEPT" "CAUSE_GET_EXCCODE (emu W) (cause st) = 8"
    and "sint (gpr st reg_a0) \<notin> {GET_TOD, WRITEPRINTER, WRITETERMINAL, READTERMINAL}"
  shows "\<exists>\<kappa> d. support_generic W s = sbind (sys_terminate W (s\<lparr>kernel := \<kappa>,
        calls := calls s @ [(GETSUPPORTPTR, 0, 0, 0)], kdebug := d\<rparr>)) (\<lambda>_ s. do {
      s \<leftarrow> upd_support a (\<lambda>sup. sup\<lparr>sup_except_state := (sup_except_state sup)(GENERALEXCEPT :=
         (sup_except_state sup GENERALEXCEPT)\<lparr>pc_epc := pc_epc (sup_except_state sup GENERALEXCEPT) + WORD_SIZE (emu W),
           gpr := (gpr (sup_except_state sup GENERALEXCEPT))
             (reg_t9 := gpr (sup_except_state sup GENERALEXCEPT) reg_t9 + WORD_SIZE (emu W))\<rparr>)\<rparr>) s;
      sup \<leftarrow> support_at a s;
      load_state (sup_except_state sup GENERALEXCEPT) s })
    \<and> I \<kappa> \<and> supports \<kappa> = supports (kernel s) \<and> log_ok d"
proof -
  from SYSCALL_gives[OF assms(1,4)] obtain \<kappa>1 where
    g: "SYSCALL W GETSUPPORTPTR 0 0 0 s = Some (SRet a (s\<lparr>kernel := \<kappa>1, calls := calls s @ [(GETSUPPORTPTR, 0, 0, 0)]\<rparr>))"
    "I \<kappa>1" "supports \<kappa>1 = supports (kernel s)" by blast
  obtain p where p: "active_process \<kappa>1 = Some p" using assms(3)[OF g(2)] by blast
  let ?t9 = "get_reg p reg_t9 \<kappa>1 + WORD_SIZE (emu W)"
  define \<kappa> where "\<kappa> = upd_pcb p (\<lambda>p. p\<lparr>p_s := (p_s p)\<lparr>pc_epc := ?t9, gpr := (gpr (p_s p))(reg_t9 := ?t9)\<rparr>\<rparr>) \<kappa>1"
  have "I (upd_pcb p (\<lambda>q. q\<lparr>p_s := (\<lambda>x. x\<lparr>pc_epc := ?t9, gpr := (gpr x)(reg_t9 := ?t9)\<rparr>) (p_s q)\<rparr>) \<kappa>1)"
    by (rule assms(2)[unfolded keeps_registers_def, rule_format, OF g(2)])
  then have k: "I \<kappa>" "supports \<kappa> = supports (kernel s)" using g(3) by (simp_all add: \<kappa>_def)
  define s1 where "s1 = s\<lparr>kernel := \<kappa>, calls := calls s @ [(GETSUPPORTPTR, 0, 0, 0)]\<rparr>"
  have "logs_ok s1" "supports (kernel s1) = supports (kernel s)" using assms(5) k by (simp_all add: s1_def logs_ok_def)
  then obtain d where d: "kfprintf_debug ''Syscall #%d\<newline>'' [ArgInt (word_of_int (sint (gpr st reg_a0)))] s1
      = Some (s1\<lparr>kdebug := d\<rparr>)" "log_ok d"
    using kfprintf_ok(2)[of s1 "''Syscall #%d\<newline>''" "[ArgInt (word_of_int (sint (gpr st reg_a0)))]"] by auto
  have "skip_instruction W (s\<lparr>kernel := \<kappa>1, calls := calls s @ [(GETSUPPORTPTR, 0, 0, 0)]\<rparr>) = Some s1"
    using p by (simp add: skip_instruction_def s1_def \<kappa>_def Let_def)
  moreover have "support_at a s1 = Some (supports (kernel s) a)"
    using assms(6) k by (simp add: support_at_def s1_def)
  ultimately have "support_syscall W a (s\<lparr>kernel := \<kappa>1, calls := calls s @ [(GETSUPPORTPTR, 0, 0, 0)]\<rparr>)
      = sys_terminate W (s1\<lparr>kdebug := d\<rparr>)"
    using d(1) assms(9) unfolding support_syscall_def Let_def by (simp add: assms(7)[symmetric] del: One_nat_def)
  moreover have "support_at a (s\<lparr>kernel := \<kappa>1, calls := calls s @ [(GETSUPPORTPTR, 0, 0, 0)]\<rparr>)
      = Some (supports (kernel s) a)"
    using assms(6) g(3) by (simp add: support_at_def)
  ultimately show ?thesis using k d(2) assms(8)
    by (intro exI[of _ \<kappa>] exI[of _ d])
      (simp add: support_generic_def g(1) assms(7)[symmetric] s1_def Let_def del: One_nat_def)
qed

lemma terminates_twice:
  assumes "gives W I GETSUPPORTPTR 0 0 0 a" "gives W I VERHOGEN (sem_swap_pool_table W) 0 0 q"
    and "keeps_registers I" "\<And>k. I k \<Longrightarrow> active_process k \<noteq> None"
    and "I (kernel s)" "logs_ok s" "a \<noteq> 0" "is_valid_asid (sup_asid (supports (kernel s) a))"
    and "st = sup_except_state (supports (kernel s) a) GENERALEXCEPT" "CAUSE_GET_EXCCODE (emu W) (cause st) = 8"
    and "sint (gpr st reg_a0) \<notin> {GET_TOD, WRITEPRINTER, WRITETERMINAL, READTERMINAL}"
    and "free_supports s xs" "a \<in> set xs"
  shows "panics (support_generic W s)"
proof -
  obtain \<kappa> d F where g: "support_generic W s = sbind (sys_terminate W (s\<lparr>kernel := \<kappa>,
        calls := calls s @ [(GETSUPPORTPTR, 0, 0, 0)], kdebug := d\<rparr>)) F" "I \<kappa>" "supports \<kappa> = supports (kernel s)" "log_ok d"
    using support_generic_terminates[OF assms(1,3,4,5,6,7,9,10,11)] by blast
  let ?s = "s\<lparr>kernel := \<kappa>, calls := calls s @ [(GETSUPPORTPTR, 0, 0, 0)], kdebug := d\<rparr>"
  have "panics (sys_terminate W ?s)"
    by (rule second_termination[OF assms(1,2) _ assms(7)])
      (use g(2-4) assms(6,8,12,13) in \<open>auto simp: free_supports_def logs_ok_def\<close>)
  then show ?thesis unfolding g(1) by (rule panics_sbind)
qed

section \<open>Writing a string\<close>

text \<open>
  A device that answers the command for the character \<open>c\<close> with the status \<open>st c\<close>. The characters
  sent are those up to the first one the device rejects, that one included.
\<close>

definition accepted :: "bool \<Rightarrow> (8 word \<Rightarrow> u32) \<Rightarrow> 8 word \<Rightarrow> bool" where
  "accepted terminal st c \<longleftrightarrow> st c AND writer_mask terminal = (if terminal then RECVD else DEV_STATUS_READY)"

definition sent :: "('a \<Rightarrow> bool) \<Rightarrow> 'a list \<Rightarrow> 'a list" where
  "sent good cs = takeWhile good cs @ take 1 (dropWhile good cs)"

definition write_result :: "bool \<Rightarrow> (8 word \<Rightarrow> u32) \<Rightarrow> u32 \<Rightarrow> 8 word list \<Rightarrow> u32" where
  "write_result terminal st len cs = (case dropWhile (accepted terminal st) cs of
     [] \<Rightarrow> len | c # _ \<Rightarrow> - (st c AND writer_mask terminal))"

definition user_string :: "sstate \<Rightarrow> u32 \<Rightarrow> nat list \<Rightarrow> 8 word list" where
  "user_string s str is = map (\<lambda>i. user_mem s (str + of_nat i)) is"

lemma sent_simps [simp]:
  "sent good [] = []" "sent good (c # cs) = (if good c then c # sent good cs else [c])"
  by (simp_all add: sent_def)

abbreviation (input) write_command_addr :: "bool \<Rightarrow> u32 \<Rightarrow> u32" where
  "write_command_addr terminal device \<equiv> if terminal then device + TRANSM_COMMAND else device + RECV_COMMAND"

abbreviation (input) write_calls :: "bool \<Rightarrow> u32 \<Rightarrow> 8 word list \<Rightarrow> (int \<times> u32 \<times> u32 \<times> u32) list" where
  "write_calls terminal device cs \<equiv> map (\<lambda>c. (DOIO, write_command_addr terminal device, writer_command terminal c, 0)) cs"

definition data_register_ok :: "world \<Rightarrow> (kstate \<Rightarrow> bool) \<Rightarrow> u32 \<Rightarrow> bool" where
  "data_register_ok W I device \<longleftrightarrow>
     (\<forall>x k. I k \<longrightarrow> (\<exists>k'. store_word (device + DTP_DATA0 W) x k = Some k' \<and> I k'))"

lemma kstore_data:
  assumes "data_register_ok W I device" "I (kernel s)"
  shows "\<exists>k. kstore (device + DTP_DATA0 W) x s = Some (s\<lparr>kernel := k\<rparr>) \<and> I k \<and> supports k = supports (kernel s)"
proof -
  obtain k where k: "store_word (device + DTP_DATA0 W) x (kernel s) = Some k" "I k"
    using assms unfolding data_register_ok_def by blast
  then have "supports k = supports (kernel s)" by (auto simp: store_word_def split: if_splits)
  with k show ?thesis by (auto simp: kstore_def)
qed

lemma writer_loop_result:
  assumes dev: "data_register_ok W I device" "\<And>c. gives W I DOIO (write_command_addr terminal device) (writer_command terminal c) 0 (st c)"
    and V: "gives W I VERHOGEN sem 0 0 q"
  shows "I (kernel s) \<Longrightarrow> \<exists>\<kappa>. writer_loop W terminal device sem str is s
      = Some (SRet (case dropWhile (accepted terminal st) (user_string s str is) of [] \<Rightarrow> None | c # _ \<Rightarrow> Some (- (st c AND writer_mask terminal)))
          (s\<lparr>kernel := \<kappa>, calls := calls s @ write_calls terminal device (sent (accepted terminal st) (user_string s str is))
            @ (if dropWhile (accepted terminal st) (user_string s str is) = [] then [] else [(VERHOGEN, sem, 0, 0)])\<rparr>))
    \<and> I \<kappa> \<and> supports \<kappa> = supports (kernel s)"
proof (induction "is" arbitrary: s)
  case Nil
  then show ?case by (intro exI[of _ "kernel s"]) (simp add: user_string_def)
next
  case (Cons i "is")
  let ?c = "user_mem s (str + of_nat i)"
  obtain \<kappa>1 where k1: "(if \<not> terminal then kstore (device + DTP_DATA0 W) (scast ?c) s else Some s) = Some (s\<lparr>kernel := \<kappa>1\<rparr>)"
    "I \<kappa>1" "supports \<kappa>1 = supports (kernel s)"
  proof (cases terminal)
    case True
    then show ?thesis using that[of "kernel s"] Cons.prems by simp
  next
    case False
    then show ?thesis using that kstore_data[OF dev(1) Cons.prems, of "scast ?c"] by auto
  qed
  let ?cs1 = "calls s @ [(DOIO, write_command_addr terminal device, writer_command terminal ?c, 0)]"
  obtain \<kappa>2 where k2: "SYSCALL W DOIO (write_command_addr terminal device) (writer_command terminal ?c) 0 (s\<lparr>kernel := \<kappa>1\<rparr>)
      = Some (SRet (st ?c) (s\<lparr>kernel := \<kappa>2, calls := ?cs1\<rparr>))" "I \<kappa>2" "supports \<kappa>2 = supports (kernel s)"
    using SYSCALL_gives[OF dev(2)[of ?c], of "s\<lparr>kernel := \<kappa>1\<rparr>"] k1(2,3) by auto
  define s2 where "s2 = s\<lparr>kernel := \<kappa>2, calls := ?cs1\<rparr>"
  have s2: "I (kernel s2)" "calls s2 = ?cs1" "supports (kernel s2) = supports (kernel s)"
    "user_string s2 str is = user_string s str is" using k2 by (simp_all add: s2_def user_string_def)
  have step: "writer_loop W terminal device sem str (i # is) s = (if \<not> accepted terminal st ?c
      then sbind (SYSCALL W VERHOGEN sem 0 0 s2) (\<lambda>_ s. Some (SRet (Some (- (st ?c AND writer_mask terminal))) s))
      else writer_loop W terminal device sem str is s2)"
    using k1(1) k2(1) by (simp add: s2_def accepted_def Let_def)
  show ?case
  proof (cases "accepted terminal st ?c")
    case True
    obtain \<kappa> where "writer_loop W terminal device sem str is s2
      = Some (SRet (case dropWhile (accepted terminal st) (user_string s str is) of [] \<Rightarrow> None | c # _ \<Rightarrow> Some (- (st c AND writer_mask terminal)))
          (s2\<lparr>kernel := \<kappa>, calls := ?cs1 @ write_calls terminal device (sent (accepted terminal st) (user_string s str is))
            @ (if dropWhile (accepted terminal st) (user_string s str is) = [] then [] else [(VERHOGEN, sem, 0, 0)])\<rparr>))"
      "I \<kappa>" "supports \<kappa> = supports (kernel s)" using Cons.IH[OF s2(1), unfolded s2(2-4)] by blast
    then show ?thesis unfolding step using True by (intro exI[of _ \<kappa>]) (simp add: s2_def user_string_def)
  next
    case False
    obtain \<kappa> where "SYSCALL W VERHOGEN sem 0 0 s2 = Some (SRet q (s2\<lparr>kernel := \<kappa>, calls := ?cs1 @ [(VERHOGEN, sem, 0, 0)]\<rparr>))"
      "I \<kappa>" "supports \<kappa> = supports (kernel s)" using SYSCALL_gives[OF V s2(1), unfolded s2(2,3)] by blast
    then show ?thesis unfolding step using False by (intro exI[of _ \<kappa>]) (simp add: s2_def user_string_def)
  qed
qed

lemma syscall_writer_result:
  assumes il: "il = (if terminal then IL_TERMINAL (emu W) else IL_PRINTER (emu W))" "IL_TERMINAL (emu W) \<noteq> IL_PRINTER (emu W)"
    and a: "gives W I GETSUPPORTPTR 0 0 0 a" "I (kernel s)" "a \<noteq> 0" "S = supports (kernel s) a"
    and arg: "str = gpr (sup_except_state S GENERALEXCEPT) reg_a1" "len = gpr (sup_except_state S GENERALEXCEPT) reg_a2"
      "KUSEG \<le> str" "len \<le> MAXLEN"
    and dv: "device = DEV_REG_ADDR W (of_nat il) (sup_asid S - 1)"
      "sem = sem_elem (if terminal then sys4_semaphores W else sys3_semaphores W) (sup_asid S - 1)"
    and dev: "data_register_ok W I device" "\<And>c. gives W I DOIO (write_command_addr terminal device) (writer_command terminal c) 0 (st c)"
    and PV: "gives W I PASSEREN sem 0 0 q" "gives W I VERHOGEN sem 0 0 q'"
    and cs: "cs = user_string s str [0..<unat len]"
  shows "\<exists>\<kappa>. syscall_writer W il s = Some (SRet (write_result terminal st len cs) (s\<lparr>kernel := \<kappa>,
      calls := calls s @ [(GETSUPPORTPTR, 0, 0, 0), (PASSEREN, sem, 0, 0)]
        @ write_calls terminal device (sent (accepted terminal st) cs) @ [(VERHOGEN, sem, 0, 0)]\<rparr>))
    \<and> I \<kappa> \<and> supports \<kappa> = supports (kernel s)"
proof -
  let ?c1 = "calls s @ [(GETSUPPORTPTR, 0, 0, 0)]"
  obtain \<kappa>1 where g: "SYSCALL W GETSUPPORTPTR 0 0 0 s = Some (SRet a (s\<lparr>kernel := \<kappa>1, calls := ?c1\<rparr>))"
    "I \<kappa>1" "supports \<kappa>1 = supports (kernel s)" using SYSCALL_gives[OF a(1,2)] by blast
  define s1 where "s1 = s\<lparr>kernel := \<kappa>1, calls := ?c1\<rparr>"
  have s1: "I (kernel s1)" "calls s1 = ?c1" "supports (kernel s1) = supports (kernel s)" using g by (simp_all add: s1_def)
  let ?c2 = "?c1 @ [(PASSEREN, sem, 0, 0)]"
  obtain \<kappa>2 where p: "SYSCALL W PASSEREN sem 0 0 s1 = Some (SRet q (s1\<lparr>kernel := \<kappa>2, calls := ?c2\<rparr>))"
    "I \<kappa>2" "supports \<kappa>2 = supports (kernel s)" using SYSCALL_gives[OF PV(1) s1(1), unfolded s1(2,3)] by blast
  define s2 where "s2 = s1\<lparr>kernel := \<kappa>2, calls := ?c2\<rparr>"
  have s2: "I (kernel s2)" "calls s2 = ?c2" "supports (kernel s2) = supports (kernel s)"
    "user_string s2 str [0..<unat len] = cs" using p by (simp_all add: s2_def s1_def cs user_string_def)
  let ?c3 = "?c2 @ write_calls terminal device (sent (accepted terminal st) cs)"
  obtain \<kappa>3 where w: "writer_loop W terminal device sem str [0..<unat len] s2
      = Some (SRet (case dropWhile (accepted terminal st) cs of [] \<Rightarrow> None | c # _ \<Rightarrow> Some (- (st c AND writer_mask terminal)))
          (s2\<lparr>kernel := \<kappa>3, calls := ?c3 @ (if dropWhile (accepted terminal st) cs = [] then [] else [(VERHOGEN, sem, 0, 0)])\<rparr>))"
    "I \<kappa>3" "supports \<kappa>3 = supports (kernel s)"
    using writer_loop_result[OF dev PV(2) s2(1), of str "[0..<unat len]", unfolded s2(2-4)] by (auto simp only: append_assoc)
  have step: "syscall_writer W il s = sbind (writer_loop W terminal device sem str [0..<unat len] s2) (\<lambda>r s.
      case r of Some e \<Rightarrow> Some (SRet e s)
      | None \<Rightarrow> sbind (SYSCALL W VERHOGEN sem 0 0 s) (\<lambda>_ s. Some (SRet len s)))"
  proof -
    have A: "support_at a s1 = Some S" using a(3,4) s1(3) by (simp add: support_at_def)
    have n: "(len > MAXLEN \<or> str < KUSEG) = False" "(terminal \<and> il \<noteq> IL_TERMINAL (emu W)) = False"
      "(il \<noteq> IL_PRINTER (emu W)) = terminal" using arg(3,4) il by auto
    show ?thesis
      by (simp only: syscall_writer_def g(1) s1_def[symmetric] sbind_simps A Option.bind.bind_lunit Let_def
        arg(1,2)[symmetric] n if_False dv[symmetric] p(1) s2_def[symmetric])
  qed
  show ?thesis
  proof (cases "dropWhile (accepted terminal st) cs")
    case Nil
    define s3 where "s3 = s2\<lparr>kernel := \<kappa>3, calls := ?c3\<rparr>"
    have s3: "I (kernel s3)" "calls s3 = ?c3" "supports (kernel s3) = supports (kernel s)" using w by (simp_all add: s3_def)
    obtain \<kappa> where v: "SYSCALL W VERHOGEN sem 0 0 s3 = Some (SRet q' (s3\<lparr>kernel := \<kappa>, calls := ?c3 @ [(VERHOGEN, sem, 0, 0)]\<rparr>))"
      "I \<kappa>" "supports \<kappa> = supports (kernel s)" using SYSCALL_gives[OF PV(2) s3(1), unfolded s3(2,3)] by blast
    have "writer_loop W terminal device sem str [0..<unat len] s2 = Some (SRet None s3)"
      using w(1) unfolding Nil s3_def by (simp only: list.case if_True append_Nil2 simp_thms)
    then have "syscall_writer W il s = Some (SRet len (s3\<lparr>kernel := \<kappa>, calls := ?c3 @ [(VERHOGEN, sem, 0, 0)]\<rparr>))"
      by (simp only: step sbind_simps option.case v)
    moreover have "write_result terminal st len cs = len" by (simp only: write_result_def Nil list.case)
    moreover have "s3\<lparr>kernel := \<kappa>, calls := X\<rparr> = s\<lparr>kernel := \<kappa>, calls := X\<rparr>" for X by (simp add: s3_def s2_def s1_def)
    ultimately show ?thesis using v(2,3) by (intro exI[of _ \<kappa>]) (simp only: append_assoc append_Cons append_Nil simp_thms)
  next
    case (Cons c rest)
    have "writer_loop W terminal device sem str [0..<unat len] s2
        = Some (SRet (Some (- (st c AND writer_mask terminal))) (s2\<lparr>kernel := \<kappa>3, calls := ?c3 @ [(VERHOGEN, sem, 0, 0)]\<rparr>))"
      using w(1) unfolding Cons by (simp only: list.case list.distinct if_False simp_thms)
    then have "syscall_writer W il s
        = Some (SRet (- (st c AND writer_mask terminal)) (s2\<lparr>kernel := \<kappa>3, calls := ?c3 @ [(VERHOGEN, sem, 0, 0)]\<rparr>))"
      by (simp only: step sbind_simps option.case)
    moreover have "write_result terminal st len cs = - (st c AND writer_mask terminal)" by (simp only: write_result_def Cons list.case)
    moreover have "s2\<lparr>kernel := \<kappa>3, calls := X\<rparr> = s\<lparr>kernel := \<kappa>3, calls := X\<rparr>" for X by (simp add: s2_def s1_def)
    ultimately show ?thesis using w(2,3) by (intro exI[of _ \<kappa>3]) (simp only: append_assoc append_Cons append_Nil simp_thms)
  qed
qed

section \<open>Reading a line\<close>

text \<open>
  A terminal whose n-th answer (counting the calls made by the process) is \<open>stat n\<close>. The reader goes
  on while the answers are characters other than a newline.
\<close>

definition terminal_gives :: "world \<Rightarrow> (kstate \<Rightarrow> bool) \<Rightarrow> u32 \<Rightarrow> (nat \<Rightarrow> u32) \<Rightarrow> bool" where
  "terminal_gives W I cmd stat \<longleftrightarrow> (\<forall>s. I (kernel s) \<longrightarrow>
     (\<exists>k. sys W DOIO cmd RECEIVE_CHAR 0 s = Some (SRet (stat (length (calls s))) (s\<lparr>kernel := k\<rparr>))
        \<and> I k \<and> supports k = supports (kernel s)))"

definition received :: "u32 \<Rightarrow> 8 word" where
  "received v = ucast (RECEIVE_VALUE v)"

definition is_char :: "u32 \<Rightarrow> bool" where
  "is_char v \<longleftrightarrow> RECEIVE_STATUS v = DEV_STATUS_TERMINAL_OK"

fun store_chars :: "(u32 \<Rightarrow> 8 word) \<Rightarrow> u32 \<Rightarrow> 8 word list \<Rightarrow> u32 \<Rightarrow> 8 word" where
  "store_chars m a [] = m"
| "store_chars m a (c # cs) = store_chars (m(a := c)) (a + 1) cs"

lemma store_chars_before: "a \<notin> (\<lambda>j. b + of_nat j) ` {..<length cs} \<Longrightarrow> store_chars m b cs a = m a"
proof (induction cs arbitrary: m b)
  case Nil
  then show ?case by simp
next
  case (Cons c cs)
  have "a \<noteq> b" using Cons.prems by (force simp: image_iff)
  moreover have "a \<notin> (\<lambda>j. b + 1 + of_nat j) ` {..<length cs}"
  proof
    assume "a \<in> (\<lambda>j. b + 1 + of_nat j) ` {..<length cs}"
    then obtain j where "j < length cs" "a = b + of_nat (Suc j)" by (auto simp: algebra_simps)
    then show False using Cons.prems by (metis Suc_less_eq image_eqI length_Cons lessThan_iff)
  qed
  ultimately show ?case using Cons.IH by simp
qed

lemma store_chars_at:
  "i < length cs \<Longrightarrow> length cs < 2 ^ 32 \<Longrightarrow> store_chars m b cs (b + of_nat i) = cs ! i"
proof (induction cs arbitrary: m b i)
  case Nil
  then show ?case by simp
next
  case (Cons c cs)
  show ?case
  proof (cases i)
    case 0
    have "b \<notin> (\<lambda>j. b + 1 + of_nat j) ` {..<length cs}"
    proof
      assume "b \<in> (\<lambda>j. b + 1 + of_nat j) ` {..<length cs}"
      then obtain j where j: "j < length cs" "b = b + 1 + of_nat j" by auto
      then have "(of_nat (Suc j) :: u32) = 0" by (simp add: algebra_simps)
      then have "2 ^ 32 dvd Suc j" by (simp only: word_of_nat_eq_0_iff) simp
      then have "2 ^ 32 \<le> Suc j" by (rule dvd_imp_le) simp
      then show False using j(1) Cons.prems(2) by simp
    qed
    then show ?thesis using store_chars_before[of b "b + 1" cs] 0 by simp
  next
    case (Suc k)
    then show ?thesis using Cons.IH[of k "m(b := c)" "b + 1"] Cons.prems by (simp add: algebra_simps del: fun_upd_apply)
  qed
qed

text \<open>One round of the loop.\<close>

lemma reader_loop_step:
  assumes "terminal_gives W I (base + RECV_COMMAND) stat" "I (kernel s)" "v = stat (Suc (length (calls s)))"
  shows "\<exists>\<kappa>. reader_loop W base sem buf r s = (let s' = s\<lparr>kernel := \<kappa>, calls := calls s @ [(DOIO, base + RECV_COMMAND, RECEIVE_CHAR, 0)]\<rparr>;
        s'' = s'\<lparr>user_mem := (user_mem s)(buf + r := received v)\<rparr> in
      if \<not> is_char v then sbind (SYSCALL W VERHOGEN sem 0 0 s') (\<lambda>_ s. Some (SRet (Inl (- RECEIVE_STATUS v)) s))
      else if received v = 10 then Some (SRet (Inr (r + 1)) s'') else reader_loop W base sem buf (r + 1) s'')
    \<and> I \<kappa> \<and> supports \<kappa> = supports (kernel s)"
proof -
  let ?s = "s\<lparr>calls := calls s @ [(DOIO, base + RECV_COMMAND, RECEIVE_CHAR, 0)]\<rparr>"
  obtain \<kappa> where k: "sys W DOIO (base + RECV_COMMAND) RECEIVE_CHAR 0 ?s = Some (SRet (stat (length (calls ?s))) (?s\<lparr>kernel := \<kappa>\<rparr>))"
    "I \<kappa>" "supports \<kappa> = supports (kernel ?s)"
    using assms(1)[unfolded terminal_gives_def, rule_format, of ?s] assms(2) by auto
  have "stat (length (calls ?s)) = v" using assms(3) by simp
  then have "SYSCALL W DOIO (base + RECV_COMMAND) RECEIVE_CHAR 0 s
      = Some (SRet v (s\<lparr>kernel := \<kappa>, calls := calls s @ [(DOIO, base + RECV_COMMAND, RECEIVE_CHAR, 0)]\<rparr>))"
    using k(1) by (simp add: SYSCALL_def)
  then show ?thesis using k(2,3)
    by (intro exI[of _ \<kappa>]) (simp add: reader_loop.simps[of W base sem buf r s] is_char_def received_def Let_def)
qed

lemma reader_loop_result:
  assumes T: "terminal_gives W I (base + RECV_COMMAND) stat" and V: "gives W I VERHOGEN sem 0 0 q"
  shows "I (kernel s) \<Longrightarrow> m = Suc (length (calls s)) \<Longrightarrow>
    \<forall>i<n. is_char (stat (m + i)) \<and> received (stat (m + i)) \<noteq> 10 \<Longrightarrow> is_char (stat (m + n)) \<longrightarrow> received (stat (m + n)) = 10 \<Longrightarrow>
    \<exists>\<kappa>. reader_loop W base sem buf r s = Some (SRet
        (if is_char (stat (m + n)) then Inr (r + of_nat (Suc n)) else Inl (- RECEIVE_STATUS (stat (m + n))))
        (s\<lparr>kernel := \<kappa>,
          user_mem := store_chars (user_mem s) (buf + r) (map (\<lambda>i. received (stat (m + i))) [0..<(if is_char (stat (m + n)) then Suc n else n)]),
          calls := calls s @ replicate (Suc n) (DOIO, base + RECV_COMMAND, RECEIVE_CHAR, 0)
            @ (if is_char (stat (m + n)) then [] else [(VERHOGEN, sem, 0, 0)])\<rparr>))
      \<and> I \<kappa> \<and> supports \<kappa> = supports (kernel s)"
proof (induction n arbitrary: s m r)
  case 0
  let ?v = "stat m" and ?c = "calls s @ [(DOIO, base + RECV_COMMAND, RECEIVE_CHAR, 0)]"
  obtain \<kappa> where step: "reader_loop W base sem buf r s = (let s' = s\<lparr>kernel := \<kappa>, calls := ?c\<rparr>;
        s'' = s'\<lparr>user_mem := (user_mem s)(buf + r := received ?v)\<rparr> in
      if \<not> is_char ?v then sbind (SYSCALL W VERHOGEN sem 0 0 s') (\<lambda>_ s. Some (SRet (Inl (- RECEIVE_STATUS ?v)) s))
      else if received ?v = 10 then Some (SRet (Inr (r + 1)) s'') else reader_loop W base sem buf (r + 1) s'')"
    "I \<kappa>" "supports \<kappa> = supports (kernel s)"
    using reader_loop_step[OF T 0(1), of ?v] 0(2) by blast
  show ?case
  proof (cases "is_char ?v")
    case True
    then show ?thesis using step 0(4) by (intro exI[of _ \<kappa>]) (simp add: Let_def del: fun_upd_apply)
  next
    case False
    obtain \<kappa>' where "SYSCALL W VERHOGEN sem 0 0 (s\<lparr>kernel := \<kappa>, calls := ?c\<rparr>)
        = Some (SRet q (s\<lparr>kernel := \<kappa>', calls := ?c @ [(VERHOGEN, sem, 0, 0)]\<rparr>))" "I \<kappa>'" "supports \<kappa>' = supports (kernel s)"
      using SYSCALL_gives[OF V, of "s\<lparr>kernel := \<kappa>, calls := ?c\<rparr>"] step(2,3) by auto
    then show ?thesis using step(1) False by (intro exI[of _ \<kappa>']) (simp add: Let_def)
  qed
next
  case (Suc n)
  let ?v = "stat m" and ?c = "calls s @ [(DOIO, base + RECV_COMMAND, RECEIVE_CHAR, 0)]"
  have v: "is_char ?v" "received ?v \<noteq> 10" using Suc.prems(3) by (metis add_0_right zero_less_Suc)+
  obtain \<kappa> where step: "reader_loop W base sem buf r s = (let s' = s\<lparr>kernel := \<kappa>, calls := ?c\<rparr>;
        s'' = s'\<lparr>user_mem := (user_mem s)(buf + r := received ?v)\<rparr> in
      if \<not> is_char ?v then sbind (SYSCALL W VERHOGEN sem 0 0 s') (\<lambda>_ s. Some (SRet (Inl (- RECEIVE_STATUS ?v)) s))
      else if received ?v = 10 then Some (SRet (Inr (r + 1)) s'') else reader_loop W base sem buf (r + 1) s'')"
    "I \<kappa>" "supports \<kappa> = supports (kernel s)"
    using reader_loop_step[OF T Suc.prems(1), of ?v] Suc.prems(2) by blast
  define s1 where "s1 = s\<lparr>kernel := \<kappa>, calls := ?c, user_mem := (user_mem s)(buf + r := received ?v)\<rparr>"
  have s1: "I (kernel s1)" "Suc m = Suc (length (calls s1))" "calls s1 = ?c" "supports (kernel s1) = supports (kernel s)"
    "user_mem s1 = (user_mem s)(buf + r := received ?v)" using step(2,3) Suc.prems(2) by (simp_all add: s1_def)
  have eq: "reader_loop W base sem buf r s = reader_loop W base sem buf (r + 1) s1"
    using step(1) v by (simp add: s1_def Let_def)
  have m: "Suc m + i = m + Suc i" for i by simp
  have "\<forall>i<n. is_char (stat (Suc m + i)) \<and> received (stat (Suc m + i)) \<noteq> 10" using Suc.prems(3) unfolding m by blast
  from Suc.IH[OF s1(1,2) this, unfolded m, OF Suc.prems(4), of "r + 1"] obtain \<kappa>' where
    "reader_loop W base sem buf (r + 1) s1 = Some (SRet
        (if is_char (stat (m + Suc n)) then Inr (r + 1 + of_nat (Suc n)) else Inl (- RECEIVE_STATUS (stat (m + Suc n))))
        (s1\<lparr>kernel := \<kappa>',
          user_mem := store_chars (user_mem s1) (buf + (r + 1)) (map (\<lambda>i. received (stat (m + Suc i))) [0..<(if is_char (stat (m + Suc n)) then Suc n else n)]),
          calls := calls s1 @ replicate (Suc n) (DOIO, base + RECV_COMMAND, RECEIVE_CHAR, 0)
            @ (if is_char (stat (m + Suc n)) then [] else [(VERHOGEN, sem, 0, 0)])\<rparr>))"
    "I \<kappa>'" "supports \<kappa>' = supports (kernel s1)" by blast
  moreover have "map (\<lambda>i. received (stat (m + i))) [0..<Suc k] = received ?v # map (\<lambda>i. received (stat (m + Suc i))) [0..<k]" for k
    by (simp add: upt_conv_Cons map_Suc_upt[symmetric] comp_def del: upt_Suc)
  ultimately show ?case unfolding eq s1(3-5)
    by (intro exI[of _ \<kappa>']) (auto simp: s1_def algebra_simps simp del: upt_Suc)
qed

text \<open>A line of input: the n answers before the last are characters, the last is a newline or an error.\<close>

definition input_line :: "(nat \<Rightarrow> u32) \<Rightarrow> nat \<Rightarrow> nat \<Rightarrow> bool" where
  "input_line stat m n \<longleftrightarrow> (\<forall>i<n. is_char (stat (m + i)) \<and> received (stat (m + i)) \<noteq> 10)
     \<and> (is_char (stat (m + n)) \<longrightarrow> received (stat (m + n)) = 10)"

definition line_chars :: "(nat \<Rightarrow> u32) \<Rightarrow> nat \<Rightarrow> nat \<Rightarrow> 8 word list" where
  "line_chars stat m n = map (\<lambda>i. received (stat (m + i))) [0..<n]"

lemma sys_read_terminal_result:
  assumes a: "gives W I GETSUPPORTPTR 0 0 0 a" "I (kernel s)" "a \<noteq> 0" "S = supports (kernel s) a"
    and arg: "buf = gpr (sup_except_state S GENERALEXCEPT) reg_a1" "KUSEG \<le> buf"
    and dv: "base = DEV_REG_ADDR W (of_nat (IL_TERMINAL (emu W))) (sup_asid S - 1)"
      "sem = sem_elem (sys5_semaphores W) (sup_asid S - 1)"
    and T: "terminal_gives W I (base + RECV_COMMAND) stat"
    and PV: "gives W I PASSEREN sem 0 0 q" "gives W I VERHOGEN sem 0 0 q'"
    and line: "m = length (calls s) + 3" "input_line stat m n"
  shows "\<exists>\<kappa>. sys_read_terminal W s = Some (SRet
        (if is_char (stat (m + n)) then of_nat (Suc n) else - RECEIVE_STATUS (stat (m + n)))
        (s\<lparr>kernel := \<kappa>,
          user_mem := (if is_char (stat (m + n)) then (store_chars (user_mem s) buf (line_chars stat m (Suc n)))(buf + of_nat (Suc n) := 0)
            else store_chars (user_mem s) buf (line_chars stat m n)),
          calls := calls s @ [(GETSUPPORTPTR, 0, 0, 0), (PASSEREN, sem, 0, 0)]
            @ replicate (Suc n) (DOIO, base + RECV_COMMAND, RECEIVE_CHAR, 0) @ [(VERHOGEN, sem, 0, 0)]\<rparr>))
      \<and> I \<kappa> \<and> supports \<kappa> = supports (kernel s)"
proof -
  let ?c1 = "calls s @ [(GETSUPPORTPTR, 0, 0, 0)]"
  obtain \<kappa>1 where g: "SYSCALL W GETSUPPORTPTR 0 0 0 s = Some (SRet a (s\<lparr>kernel := \<kappa>1, calls := ?c1\<rparr>))"
    "I \<kappa>1" "supports \<kappa>1 = supports (kernel s)" using SYSCALL_gives[OF a(1,2)] by blast
  define s1 where "s1 = s\<lparr>kernel := \<kappa>1, calls := ?c1\<rparr>"
  have s1: "I (kernel s1)" "calls s1 = ?c1" "supports (kernel s1) = supports (kernel s)" using g by (simp_all add: s1_def)
  let ?c2 = "?c1 @ [(PASSEREN, sem, 0, 0)]"
  obtain \<kappa>2 where p: "SYSCALL W PASSEREN sem 0 0 s1 = Some (SRet q (s1\<lparr>kernel := \<kappa>2, calls := ?c2\<rparr>))"
    "I \<kappa>2" "supports \<kappa>2 = supports (kernel s)" using SYSCALL_gives[OF PV(1) s1(1), unfolded s1(2,3)] by blast
  define s2 where "s2 = s1\<lparr>kernel := \<kappa>2, calls := ?c2\<rparr>"
  have s2: "I (kernel s2)" "calls s2 = ?c2" "supports (kernel s2) = supports (kernel s)" "m = Suc (length (calls s2))"
    "user_mem s2 = user_mem s" using p line(1) by (simp_all add: s2_def s1_def)
  have A: "support_at a s1 = Some S" using a(3,4) s1(3) by (simp add: support_at_def)
  have n: "(buf < KUSEG) = False" using arg(2) by auto
  have step: "sys_read_terminal W s = sbind (reader_loop W base sem buf 0 s2) (\<lambda>r s. case r of
         Inl e \<Rightarrow> Some (SRet e s)
       | Inr read \<Rightarrow> sbind (SYSCALL W VERHOGEN sem 0 0 s) (\<lambda>_ s.
           Some (SRet read (s\<lparr>user_mem := (user_mem s)(buf + read := 0)\<rparr>))))"
    by (simp only: sys_read_terminal_def g(1) s1_def[symmetric] sbind_simps A Option.bind.bind_lunit Let_def
        arg(1)[symmetric] n if_False dv[symmetric] p(1) s2_def[symmetric])
  let ?c3 = "?c2 @ replicate (Suc n) (DOIO, base + RECV_COMMAND, RECEIVE_CHAR, 0)"
  note L = reader_loop_result[OF T PV(2) s2(1,4), where n = n and r = 0 and buf = buf, unfolded s2(2,3,5) line_chars_def[symmetric] add_0_left add_0_right]
  show ?thesis
  proof (cases "is_char (stat (m + n))")
    case True
    obtain \<kappa>3 where r: "reader_loop W base sem buf 0 s2 = Some (SRet (Inr (of_nat (Suc n))) (s2\<lparr>kernel := \<kappa>3,
        user_mem := store_chars (user_mem s) buf (line_chars stat m (Suc n)), calls := ?c3\<rparr>))" "I \<kappa>3"
      "supports \<kappa>3 = supports (kernel s)"
      using L line(2) True unfolding input_line_def by (auto simp del: of_nat_Suc replicate.simps)
    define s3 where "s3 = s2\<lparr>kernel := \<kappa>3, user_mem := store_chars (user_mem s) buf (line_chars stat m (Suc n)), calls := ?c3\<rparr>"
    have s3: "I (kernel s3)" "calls s3 = ?c3" "supports (kernel s3) = supports (kernel s)"
      "user_mem s3 = store_chars (user_mem s) buf (line_chars stat m (Suc n))" using r by (simp_all add: s3_def)
    obtain \<kappa> where v: "SYSCALL W VERHOGEN sem 0 0 s3 = Some (SRet q' (s3\<lparr>kernel := \<kappa>, calls := ?c3 @ [(VERHOGEN, sem, 0, 0)]\<rparr>))"
      "I \<kappa>" "supports \<kappa> = supports (kernel s)" using SYSCALL_gives[OF PV(2) s3(1), unfolded s3(2,3)] by blast
    have "sys_read_terminal W s = Some (SRet (of_nat (Suc n)) (s3\<lparr>kernel := \<kappa>, calls := ?c3 @ [(VERHOGEN, sem, 0, 0)],
        user_mem := (store_chars (user_mem s) buf (line_chars stat m (Suc n)))(buf + of_nat (Suc n) := 0)\<rparr>))"
      by (simp add: step r(1)[folded s3_def] v(1) s3(4) del: of_nat_Suc fun_upd_apply)
    moreover have "s3\<lparr>kernel := \<kappa>, calls := X, user_mem := Y\<rparr> = s\<lparr>kernel := \<kappa>, user_mem := Y, calls := X\<rparr>" for X Y
      by (simp add: s3_def s2_def s1_def)
    ultimately show ?thesis using v(2,3) True
      by (intro exI[of _ \<kappa>]) (simp only: append_assoc append_Cons append_Nil simp_thms if_True)
  next
    case False
    obtain \<kappa>3 where r: "reader_loop W base sem buf 0 s2 = Some (SRet (Inl (- RECEIVE_STATUS (stat (m + n)))) (s2\<lparr>kernel := \<kappa>3,
        user_mem := store_chars (user_mem s) buf (line_chars stat m n), calls := ?c3 @ [(VERHOGEN, sem, 0, 0)]\<rparr>))" "I \<kappa>3"
      "supports \<kappa>3 = supports (kernel s)"
      using L line(2) False unfolding input_line_def by (auto simp del: of_nat_Suc replicate.simps)
    have "sys_read_terminal W s = Some (SRet (- RECEIVE_STATUS (stat (m + n))) (s2\<lparr>kernel := \<kappa>3,
        user_mem := store_chars (user_mem s) buf (line_chars stat m n), calls := ?c3 @ [(VERHOGEN, sem, 0, 0)]\<rparr>))"
      by (simp only: step r(1) sbind_simps sum.case)
    moreover have "s2\<lparr>kernel := \<kappa>3, user_mem := Y, calls := X\<rparr> = s\<lparr>kernel := \<kappa>3, user_mem := Y, calls := X\<rparr>" for X Y
      by (simp add: s2_def s1_def)
    ultimately show ?thesis using r(2,3) False
      by (intro exI[of _ \<kappa>3]) (simp only: append_assoc append_Cons append_Nil simp_thms if_False)
  qed
qed

section \<open>The instantiator\<close>

text \<open>A support structure that is ready for the process with a given address space.\<close>

definition uproc_ready :: "world \<Rightarrow> u32 \<Rightarrow> u32 \<Rightarrow> u32 \<Rightarrow> support_t \<Rightarrow> bool" where
  "uproc_ready W ramtop st asid S \<longleftrightarrow> sup_asid S = asid
   \<and> sup_except_context S PGFAULTEXCEPT = \<lparr>c_stack_ptr = ramtop - 2 * asid * PAGESIZE, c_status = st, c_pc = support_tlb_addr W\<rparr>
   \<and> sup_except_context S GENERALEXCEPT = \<lparr>c_stack_ptr = ramtop - 2 * asid * PAGESIZE + PAGESIZE, c_status = st,
        c_pc = support_generic_addr W\<rparr>
   \<and> (\<forall>j<MAXPAGES. page_of (pte_entry_hi (sup_private_page_table S j)) = Some j
        \<and> pte_entry_lo (sup_private_page_table S j) AND VALIDON = 0)"

definition own_memory :: "(kstate \<Rightarrow> bool) \<Rightarrow> bool" where
  "own_memory I \<longleftrightarrow> (\<forall>k. I k \<longrightarrow> (\<forall>f. I (k\<lparr>mem := f\<rparr>)) \<and> (\<forall>f. I (k\<lparr>states := f\<rparr>)))"

lemma new_table_ready:
  assumes "is_valid_asid asid" "t = (new_table asid n (MAXPAGES - 1) t0)(MAXPAGES - 1 := stack_entry asid)" "j < MAXPAGES"
  shows "page_of (pte_entry_hi (t j)) = Some j" "pte_entry_lo (t j) AND VALIDON = 0"
proof -
  have a: "1 \<le> sint asid" "sint asid \<le> int UPROCMAX" using assms(1) by (auto simp: is_valid_asid_def)
  show "page_of (pte_entry_hi (t j)) = Some j" "pte_entry_lo (t j) AND VALIDON = 0"
    using assms(2,3) page_of_entry(1)[where i = j and n = n, OF _ a] page_of_entry(2)[where i = 0, OF _ a]
    by (auto simp: new_table_def page_entry_def stack_entry_def less_Suc_eq)
qed

abbreviation (input) start_calls :: "world \<Rightarrow> nat \<Rightarrow> u32 \<Rightarrow> (int \<times> u32 \<times> u32 \<times> u32) list" where
  "start_calls W i a \<equiv> [read_call W (of_nat i + 1) 0, (CREATEPROCESS, pstate_addr W, PROCESS_PRIO_LOW, a)]"

lemma start_uproc_ok:
  assumes env: "undisturbed W I" "flash_gives W I (\<lambda>_ _. DEV_STATUS_READY)" "own_memory I" "I (kernel s)"
    and C: "gives W I CREATEPROCESS (pstate_addr W) PROCESS_PRIO_LOW a q"
    and s: "free_supports s (a # xs)" "logs_ok s" "a \<noteq> 0" "is_valid_asid (of_nat i + 1)"
    and h: "header_data W + 20 \<noteq> 0" "word_aligned (header_data W + 20)"
  shows "\<exists>s'. start_uproc W ramtop st i s = Some (SRet () s') \<and> I (kernel s') \<and> free_supports s' xs \<and> logs_ok s'
    \<and> calls s' = calls s @ start_calls W i a \<and> uproc_ready W ramtop st (of_nat i + 1) (supports (kernel s') a)
    \<and> (\<forall>b. b \<noteq> a \<longrightarrow> supports (kernel s') b = supports (kernel s) b) \<and> swap_pool_table s' = swap_pool_table s"
proof -
  let ?asid = "of_nat i + 1 :: u32"
  define s1 where "s1 = upd_state (pstate_addr W) (\<lambda>p. p\<lparr>entry_hi := push_bit ASIDSHIFT ?asid\<rparr>) s"
  have s1: "I (kernel s1)" "free_supports s1 (a # xs)" "logs_ok s1" "supports (kernel s1) = supports (kernel s)"
    "calls s1 = calls s" "swap_pool_table s1 = swap_pool_table s"
    using env(3,4) s by (simp_all add: s1_def upd_state_def own_memory_def free_supports_def logs_ok_def)
  obtain h' d where al: "allocate W s1 = Some (SRet a (s1\<lparr>supp_lh := h', kdebug := d\<rparr>))" "log_ok d"
    "free_supports (s1\<lparr>supp_lh := h', kdebug := d\<rparr>) xs" using allocate_free[OF s1(2,3)] by blast
  let ?S1 = "(supports (kernel s))(a := (supports (kernel s) a)\<lparr>sup_asid := ?asid\<rparr>)"
  define s2 where "s2 = s1\<lparr>supp_lh := h', kdebug := d, kernel := (kernel s1)\<lparr>supports := ?S1\<rparr>\<rparr>"
  have s2: "I (kernel s2)" "free_supports s2 xs" "logs_ok s2" "supports (kernel s2) = ?S1" "calls s2 = calls s"
    "swap_pool_table s2 = swap_pool_table s" "upd_support a (\<lambda>sup. sup\<lparr>sup_asid := ?asid\<rparr>) (s1\<lparr>supp_lh := h', kdebug := d\<rparr>) = Some s2"
    using undisturbedD(2)[OF env(1) s1(1)] al(2,3) s1 s(3)
    by (simp_all add: s2_def free_supports_def logs_ok_def upd_support_def)
  obtain \<kappa> n where ipt: "init_page_table W (Some a) ?asid s2 = Some (SRet True (s2\<lparr>kernel := \<kappa>,
      swap_pool_batons := (swap_pool_batons s2)(unat (?asid - 1) := False), calls := calls s2 @ [read_call W ?asid 0]\<rparr>))"
    "I \<kappa>" "supports \<kappa> = (supports (kernel s2))(a := (supports (kernel s2) a)\<lparr>sup_private_page_table :=
        (new_table ?asid n (MAXPAGES - 1) (sup_private_page_table (supports (kernel s2) a)))(MAXPAGES - 1 := stack_entry ?asid)\<rparr>)"
    using init_page_table_ready[OF env(1,2) s2(1) s(3,4) h] by blast
  let ?S3 = "(supports \<kappa>)(a := init_contexts W ramtop ?asid st (supports \<kappa> a))"
  define s3 where "s3 = s2\<lparr>kernel := \<kappa>\<lparr>supports := ?S3\<rparr>,
      swap_pool_batons := (swap_pool_batons s2)(unat (?asid - 1) := False), calls := calls s @ [read_call W ?asid 0]\<rparr>"
  have s3: "I (kernel s3)" "supports (kernel s3) = ?S3" "calls s3 = calls s @ [read_call W ?asid 0]"
    using undisturbedD(2)[OF env(1) ipt(2)] by (simp_all add: s3_def)
  obtain \<kappa>' where c: "SYSCALL W CREATEPROCESS (pstate_addr W) PROCESS_PRIO_LOW a s3
      = Some (SRet q (s3\<lparr>kernel := \<kappa>', calls := calls s @ start_calls W i a\<rparr>))" "I \<kappa>'" "supports \<kappa>' = ?S3"
    using SYSCALL_gives[OF C s3(1), unfolded s3(2,3)] by auto
  let ?s' = "s3\<lparr>kernel := \<kappa>', calls := calls s @ start_calls W i a\<rparr>"
  have u: "upd_support a (init_contexts W ramtop ?asid st) (s2\<lparr>kernel := \<kappa>,
      swap_pool_batons := (swap_pool_batons s2)(unat (?asid - 1) := False), calls := calls s @ [read_call W ?asid 0]\<rparr>) = Some s3"
    using s(3) by (simp add: upd_support_def s3_def)
  have "start_uproc W ramtop st i s = Some (SRet () ?s')"
    by (simp only: start_uproc_def Let_def s1_def[symmetric] al(1) sbind_simps s2(7) Option.bind.bind_lunit
        ipt(1)[unfolded s2(5)] u c(1) simp_thms if_False)
  moreover have "uproc_ready W ramtop st ?asid (?S3 a)"
    using new_table_ready[OF s(4), of "sup_private_page_table (supports \<kappa> a)"] ipt(3) s2(4)
    by (simp add: uproc_ready_def init_contexts_def del: One_nat_def)
  moreover have "free_supports ?s' xs" "logs_ok ?s'" "swap_pool_table ?s' = swap_pool_table s"
    using s2(2,3,6) by (simp_all add: s3_def free_supports_def logs_ok_def)
  moreover have "\<forall>b. b \<noteq> a \<longrightarrow> ?S3 b = supports (kernel s) b" using ipt(3) s2(4) by simp
  ultimately show ?thesis using c(2,3) by (intro exI[of _ ?s']) (simp del: fun_upd_apply)
qed

lemma start_uprocs_ok:
  assumes env: "undisturbed W I" "flash_gives W I (\<lambda>_ _. DEV_STATUS_READY)" "own_memory I"
    and C: "\<And>a. \<exists>q. gives W I CREATEPROCESS (pstate_addr W) PROCESS_PRIO_LOW a q"
    and h: "header_data W + 20 \<noteq> 0" "word_aligned (header_data W + 20)"
    and s: "I (kernel s)" "free_supports s xs" "logs_ok s" "0 \<notin> set xs" "distinct xs" "length is = length xs"
      "\<And>i. i \<in> set is \<Longrightarrow> is_valid_asid (of_nat i + 1)"
  shows "\<exists>s'. start_uprocs W ramtop st is s = Some (SRet () s') \<and> I (kernel s') \<and> free_supports s' [] \<and> logs_ok s'
    \<and> calls s' = calls s @ concat (map2 (start_calls W) is xs)
    \<and> list_all2 (\<lambda>i a. uproc_ready W ramtop st (of_nat i + 1) (supports (kernel s') a)) is xs
    \<and> (\<forall>b. b \<notin> set xs \<longrightarrow> supports (kernel s') b = supports (kernel s) b) \<and> swap_pool_table s' = swap_pool_table s"
  using s
proof (induction "is" arbitrary: s xs)
  case Nil
  then show ?case by simp
next
  case (Cons i "is")
  then obtain a ys where xs: "xs = a # ys" by (cases xs) auto
  have a: "a \<noteq> 0" "is_valid_asid (of_nat i + 1)" "a \<notin> set ys" using Cons.prems(4,5,7) xs by auto
  obtain q where q: "gives W I CREATEPROCESS (pstate_addr W) PROCESS_PRIO_LOW a q" using C by blast
  from start_uproc_ok[OF env Cons.prems(1) q Cons.prems(2)[unfolded xs] Cons.prems(3) a(1,2) h, of ramtop st] obtain s1 where
    s1: "start_uproc W ramtop st i s = Some (SRet () s1)" "I (kernel s1)" "free_supports s1 ys" "logs_ok s1"
      "calls s1 = calls s @ start_calls W i a" "uproc_ready W ramtop st (of_nat i + 1) (supports (kernel s1) a)"
      "\<forall>b. b \<noteq> a \<longrightarrow> supports (kernel s1) b = supports (kernel s) b" "swap_pool_table s1 = swap_pool_table s" by blast
  have "0 \<notin> set ys" "distinct ys" "length is = length ys" "\<And>j. j \<in> set is \<Longrightarrow> is_valid_asid (of_nat j + 1)"
    using Cons.prems(4-7) xs by auto
  from Cons.IH[OF s1(2,3,4) this] obtain s2 where
    s2: "start_uprocs W ramtop st is s1 = Some (SRet () s2)" "I (kernel s2)" "free_supports s2 []" "logs_ok s2"
      "calls s2 = calls s1 @ concat (map2 (start_calls W) is ys)"
      "list_all2 (\<lambda>i a. uproc_ready W ramtop st (of_nat i + 1) (supports (kernel s2) a)) is ys"
      "\<forall>b. b \<notin> set ys \<longrightarrow> supports (kernel s2) b = supports (kernel s1) b" "swap_pool_table s2 = swap_pool_table s1" by blast
  have "calls s2 = calls s @ concat (map2 (start_calls W) (i # is) xs)" using s1(5) s2(5) xs by simp
  moreover have "list_all2 (\<lambda>i a. uproc_ready W ramtop st (of_nat i + 1) (supports (kernel s2) a)) (i # is) xs"
    using s1(6) s2(6,7) a(3) xs by simp
  ultimately show ?case using s1(1,7,8) s2(1-4,7,8) xs by (intro exI[of _ s2]) (simp only: start_uprocs.simps sbind_simps, simp)
qed

text \<open>The memory words the instantiator sets and reads are its own, and words.\<close>

definition sems_aligned :: "world \<Rightarrow> bool" where
  "sems_aligned W \<longleftrightarrow> (\<forall>b\<in>{sys3_semaphores W, sys4_semaphores W, sys5_semaphores W}. \<forall>i<UPROCMAX.
     sem_elem b (of_nat i) \<noteq> 0 \<and> word_aligned (sem_elem b (of_nat i)))"

lemma init_sys_semaphores_ok:
  assumes "sems_aligned W" "own_memory I" "I (kernel s)"
  shows "\<exists>m. init_sys_semaphores W s = Some (s\<lparr>kernel := (kernel s)\<lparr>mem := m\<rparr>\<rparr>) \<and> I ((kernel s)\<lparr>mem := m\<rparr>)"
proof -
  let ?J = "\<lambda>_ t. \<exists>m. t = s\<lparr>kernel := (kernel s)\<lparr>mem := m\<rparr>\<rparr>"
  have st: "kstore a v (s\<lparr>kernel := (kernel s)\<lparr>mem := m\<rparr>\<rparr>) = Some (s\<lparr>kernel := (kernel s)\<lparr>mem := m(a := v)\<rparr>\<rparr>)"
    if "a \<noteq> 0" "word_aligned a" for a v m using that by (simp add: kstore_def store_word_def)
  have "\<exists>t. init_sys_semaphores W s = Some t \<and> ?J [0..<UPROCMAX] t"
    unfolding init_sys_semaphores_def
  proof (rule for_each_invariant)
    show "?J [] s" by (rule exI[of _ "mem (kernel s)"]) simp
  next
    fix pre i rest t assume "[0..<UPROCMAX] = pre @ i # rest" and t: "?J pre t"
    then have "i \<in> set [0..<UPROCMAX]" by (metis in_set_conv_decomp)
    then have "i < UPROCMAX" by (simp only: set_upt atLeastLessThan_iff)
    then show "\<exists>t'. Option.bind (kstore (sem_elem (sys5_semaphores W) (of_nat i)) 1 t)
        (\<lambda>s. Option.bind (kstore (sem_elem (sys4_semaphores W) (of_nat i)) 1 s)
          (kstore (sem_elem (sys3_semaphores W) (of_nat i)) 1)) = Some t' \<and> ?J (pre @ [i]) t'"
      using t assms(1) unfolding sems_aligned_def by (elim exE) (simp add: st del: fun_upd_apply, blast)
  qed
  then obtain m where m: "init_sys_semaphores W s = Some (s\<lparr>kernel := (kernel s)\<lparr>mem := m\<rparr>\<rparr>)" by blast
  have "I ((kernel s)\<lparr>mem := m\<rparr>)" using assms(2,3) by (simp add: own_memory_def)
  with m show ?thesis by blast
qed

lemma wait_uprocs_ok:
  assumes "gives W I PASSEREN (master_semaphore W) 0 0 q" "I (kernel s)"
  shows "\<exists>k. wait_uprocs W is s = Some (SRet () (s\<lparr>kernel := k, calls := calls s @
      replicate (length is) (PASSEREN, master_semaphore W, 0, 0)\<rparr>)) \<and> I k \<and> supports k = supports (kernel s)"
  using assms(2)
proof (induction "is" arbitrary: s)
  case Nil
  then show ?case by (intro exI[of _ "kernel s"]) simp
next
  case (Cons i "is")
  obtain k where k: "SYSCALL W PASSEREN (master_semaphore W) 0 0 s
      = Some (SRet q (s\<lparr>kernel := k, calls := calls s @ [(PASSEREN, master_semaphore W, 0, 0)]\<rparr>))" "I k"
    "supports k = supports (kernel s)" using SYSCALL_gives[OF assms(1) Cons.prems] by blast
  let ?s = "s\<lparr>kernel := k, calls := calls s @ [(PASSEREN, master_semaphore W, 0, 0)]\<rparr>"
  have "I (kernel ?s)" using k(2) by simp
  from Cons.IH[OF this] k(3) obtain k' where
    "wait_uprocs W is ?s = Some (SRet () (s\<lparr>kernel := k', calls := calls s @
      replicate (length (i # is)) (PASSEREN, master_semaphore W, 0, 0)\<rparr>))" "I k'" "supports k' = supports (kernel s)" by auto
  then show ?case using k(1) by (intro exI[of _ k']) (simp only: wait_uprocs.simps master_semaphore_p_def sbind_simps simp_thms)
qed

lemma init_swap_pool_table_free:
  "init_swap_pool_table s = s\<lparr>swap_pool_table := swap_pool_table (init_swap_pool_table s)\<rparr>"
  "f < POOLSIZE \<Longrightarrow> \<not> check_frame_occupied (swap_pool_table (init_swap_pool_table s) f)"
proof -
  have *: "\<exists>T. fold (\<lambda>i. upd_swap i (\<lambda>e. e\<lparr>sw_asid := - 1\<rparr>)) fs s = s\<lparr>swap_pool_table := T\<rparr>
      \<and> (\<forall>f. f \<in> set fs \<longrightarrow> sw_asid (T f) = - 1)" for fs
  proof (induction fs rule: rev_induct)
    case Nil
    show ?case by (rule exI[of _ "swap_pool_table s"]) simp
  next
    case (snoc g fs)
    then obtain T where T: "fold (\<lambda>i. upd_swap i (\<lambda>e. e\<lparr>sw_asid := - 1\<rparr>)) fs s = s\<lparr>swap_pool_table := T\<rparr>"
      "\<forall>f. f \<in> set fs \<longrightarrow> sw_asid (T f) = - 1" by blast
    then show ?case by (intro exI[of _ "T(g := (T g)\<lparr>sw_asid := - 1\<rparr>)"]) (simp, simp add: upd_swap_def fun_upd_def)
  qed
  obtain T where T: "init_swap_pool_table s = s\<lparr>swap_pool_table := T\<rparr>" "\<forall>f. f \<in> set [0..<POOLSIZE] \<longrightarrow> sw_asid (T f) = - 1"
    using * unfolding init_swap_pool_table_def by blast
  show "init_swap_pool_table s = s\<lparr>swap_pool_table := swap_pool_table (init_swap_pool_table s)\<rparr>"
    using T(1) by simp
  show "f < POOLSIZE \<Longrightarrow> \<not> check_frame_occupied (swap_pool_table (init_swap_pool_table s) f)"
    using T by (simp add: check_frame_occupied_def del: upt_rec_numeral)
qed

lemma init_pager_ok:
  "\<exists>a T. init_pager s = Some (s\<lparr>swap_pool_table := T, swap_pool_addr := a\<rparr>) \<and> (\<forall>f<POOLSIZE. \<not> check_frame_occupied (T f))"
proof -
  have "\<exists>a. SWAP_POOL_ADDR t = Some a" for t
    by (simp add: SWAP_POOL_ADDR_def kload_def load_word_def word_aligned_def)
  then obtain a where "SWAP_POOL_ADDR (init_swap_pool_table s) = Some a" by blast
  then show ?thesis using init_swap_pool_table_free(2)[of _ s]
    by (intro exI[of _ a] exI[of _ "swap_pool_table (init_swap_pool_table s)"])
      (simp add: init_pager_def, subst init_swap_pool_table_free(1), simp)
qed

abbreviation (input) slots :: "world \<Rightarrow> u32 list" where
  "slots W \<equiv> rev (map (support_slot W) [0..<UPROCMAX])"

lemma slots_list: "slots_ok W \<Longrightarrow> 0 \<notin> set (slots W) \<and> distinct (slots W) \<and> length [0..<UPROCMAX] = length (slots W)"
  by (auto simp: slots_ok_def distinct_map lessThan_atLeast0 simp del: upt_rec_numeral)

lemma asids_valid: "i \<in> set [0..<UPROCMAX] \<Longrightarrow> is_valid_asid (of_nat i + 1)"
proof -
  assume "i \<in> set [0..<UPROCMAX]"
  then have i: "i < 8" by (simp only: set_upt atLeastLessThan_iff)
  then have "unat (of_nat i + 1 :: u32) = i + 1" by (simp add: unat_word_ariths unat_of_nat)
  then show ?thesis using i by (simp add: is_valid_asid_def sint_uint signed_take_bit_eq_if_positive bit_iff_odd uint_nat take_bit_int_eq_self)
qed

lemma test_runs:
  assumes env: "undisturbed W I" "flash_gives W I (\<lambda>_ _. DEV_STATUS_READY)" "own_memory I"
    and C: "\<And>a. \<exists>q. gives W I CREATEPROCESS (pstate_addr W) PROCESS_PRIO_LOW a q"
    and P: "gives W I PASSEREN (master_semaphore W) 0 0 q" and T: "\<And>s. sys W TERMPROCESS 0 0 0 s = Some (SExit SGONE s)"
    and W: "slots_ok W" "sems_aligned W" "header_data W + 20 \<noteq> 0" "word_aligned (header_data W + 20)"
    and s: "I (kernel s)" "logs_ok s"
  shows "\<exists>s' ramtop st. test W s = Some (SExit SGONE s') \<and> free_supports s' []
    \<and> list_all2 (\<lambda>i a. uproc_ready W ramtop st (of_nat i + 1) (supports (kernel s') a)) [0..<UPROCMAX] (slots W)
    \<and> (\<forall>f<POOLSIZE. \<not> check_frame_occupied (swap_pool_table s' f))
    \<and> calls s' = calls s @ concat (map2 (start_calls W) [0..<UPROCMAX] (slots W))
        @ replicate UPROCMAX (PASSEREN, master_semaphore W, 0, 0) @ [(TERMPROCESS, 0, 0, 0)]"
proof -
  obtain m where m: "init_sys_semaphores W s = Some (s\<lparr>kernel := (kernel s)\<lparr>mem := m\<rparr>\<rparr>)" "I ((kernel s)\<lparr>mem := m\<rparr>)"
    using init_sys_semaphores_ok[OF W(2) env(3) s(1)] by blast
  define s1 where "s1 = s\<lparr>kernel := (kernel s)\<lparr>mem := m\<rparr>\<rparr>"
  obtain a T where pg: "init_pager s1 = Some (s1\<lparr>swap_pool_table := T, swap_pool_addr := a\<rparr>)" "\<forall>f<POOLSIZE. \<not> check_frame_occupied (T f)"
    using init_pager_ok[of s1] by blast
  define s2 where "s2 = s1\<lparr>swap_pool_table := T, swap_pool_addr := a\<rparr>"
  have "logs_ok s2" using s(2) by (simp add: s2_def s1_def logs_ok_def)
  from init_supports_ok[OF W(1) this] obtain h d where
    su: "init_supports W s2 = Some (SRet () (s2\<lparr>supp_lh := h, kdebug := d\<rparr>))" "log_ok d"
      "free_supports (s2\<lparr>supp_lh := h, kdebug := d\<rparr>) (slots W)" by blast
  define s3 where "s3 = init_pstate W (s2\<lparr>supp_lh := h, kdebug := d\<rparr>)"
  define st where "st = handler_status (emu W) (state_t.status (states (kernel s3) (pstate_addr W)))"
  define top where "top = mem (kernel s3) RAMBASEADDR + mem (kernel s3) RAMBASESIZE"
  have ld: "kload RAMBASEADDR s3 = Some (mem (kernel s3) RAMBASEADDR)" "kload RAMBASESIZE s3 = Some (mem (kernel s3) RAMBASESIZE)"
    by (simp_all add: kload_def load_word_def word_aligned_def)
  have s3: "I (kernel s3)" "free_supports s3 (slots W)" "logs_ok s3" "calls s3 = calls s" "swap_pool_table s3 = T"
    using m(2) env(3) su(2,3) s(2)
    by (simp_all add: s3_def s2_def s1_def init_pstate_def upd_state_def own_memory_def free_supports_def logs_ok_def)
  from start_uprocs_ok[OF env C W(3,4) s3(1-3), of "[0..<UPROCMAX]" top st] slots_list[OF W(1)] asids_valid
  obtain s4 where s4: "start_uprocs W top st [0..<UPROCMAX] s3 = Some (SRet () s4)" "I (kernel s4)" "free_supports s4 []"
    "calls s4 = calls s @ concat (map2 (start_calls W) [0..<UPROCMAX] (slots W))" "swap_pool_table s4 = T"
    "list_all2 (\<lambda>i a. uproc_ready W top st (of_nat i + 1) (supports (kernel s4) a)) [0..<UPROCMAX] (slots W)"
    unfolding s3(4,5) by blast
  obtain k where wt: "wait_uprocs W [0..<UPROCMAX] s4 = Some (SRet () (s4\<lparr>kernel := k, calls := calls s4 @
      replicate (length [0..<UPROCMAX]) (PASSEREN, master_semaphore W, 0, 0)\<rparr>))" "supports k = supports (kernel s4)"
    using wait_uprocs_ok[OF P s4(2)] by blast
  define s5 where "s5 = s4\<lparr>kernel := k, calls := calls s4 @ replicate UPROCMAX (PASSEREN, master_semaphore W, 0, 0)\<rparr>"
  have wt': "wait_uprocs W [0..<UPROCMAX] s4 = Some (SRet () s5)" using wt(1) by (simp only: s5_def length_upt diff_zero)
  define s6 where "s6 = s5\<lparr>calls := calls s5 @ [(TERMPROCESS, 0, 0, 0)]\<rparr>"
  have "test W s = Some (SExit SGONE s6)"
    by (simp only: test_def m(1)[folded s1_def] Option.bind.bind_lunit pg(1)[folded s2_def] su(1) sbind_simps Let_def
        s3_def[symmetric] ld st_def[symmetric] top_def[symmetric] s4(1) wt' SYSCALL_def T s6_def)
  moreover have "kernel s6 = k" "supp_lh s6 = supp_lh s4" "swap_pool_table s6 = swap_pool_table s4"
    by (simp_all add: s6_def s5_def)
  moreover have "calls s6 = (calls s4 @ replicate UPROCMAX (PASSEREN, master_semaphore W, 0, 0)) @ [(TERMPROCESS, 0, 0, 0)]"
    by (simp add: s6_def s5_def)
  ultimately show ?thesis using s4(3-6) wt(2) pg(2)
    by (intro exI[of _ s6] exI[of _ top] exI[of _ st]) (simp only: free_supports_def append_assoc simp_thms)
qed

end
