(* ===== verification/Services.thy ===== *)
theory Services
  imports Behaviour
begin

text \<open>
  The services of the nucleus as the process that asks for them sees them. A SYSCALL instruction
  enters \<^verbatim>\<open>exception_handler\<close> with the registers of the process; what the process gets is the value
  in v0 and the kernel at the moment it runs again. The lemmas follow a call through the whole
  nucleus, from the exception to the state the processor loads, for a process that runs while
  nobody else is ready: P and V on a free semaphore, GETSUPPORTPTR, and DOIO, where the
  nucleus waits and the interrupt of the device lets the process run on.
\<close>

section \<open>A call, from the instruction to its return\<close>

definition call_regs :: "state_t \<Rightarrow> int \<Rightarrow> u32 \<Rightarrow> u32 \<Rightarrow> u32 \<Rightarrow> state_t" where
  "call_regs st n a1 a2 a3 = st\<lparr>gpr := (gpr st)(reg_a0 := word_of_int n, reg_a1 := a1, reg_a2 := a2, reg_a3 := a3)\<rparr>"

text \<open>
  The processor saves its state in the BIOS data page. The state \<open>st\<close> is that of the process at the
  instruction, but for the registers that hold the arguments of the call.
\<close>

definition trap :: "state_t \<Rightarrow> int \<Rightarrow> u32 \<Rightarrow> u32 \<Rightarrow> u32 \<Rightarrow> kstate \<Rightarrow> kstate" where
  "trap st n a1 a2 a3 k = k\<lparr>cp0_cause := cause st, states := (states k)(BIOSDATAPAGE := call_regs st n a1 a2 a3)\<rparr>"

definition resumed :: "nat option \<Rightarrow> state_t \<Rightarrow> kstate \<Rightarrow> (u32 \<times> kstate) option" where
  "resumed p st k = (if active_process k = p then Some (gpr st reg_v0, k) else None)"

text \<open>
  The call returns when the nucleus loads the state of the process again, at once or, if it waits,
  after one interrupt. The interrupt is the environment's: \<open>irq\<close> gives the state of the machine when
  it comes, from the address of the command and the state the nucleus waits in.
\<close>

definition nucleus_call ::
  "umps \<Rightarrow> (u32 \<Rightarrow> kstate \<Rightarrow> kstate) \<Rightarrow> state_t \<Rightarrow> int \<Rightarrow> u32 \<Rightarrow> u32 \<Rightarrow> u32 \<Rightarrow> kstate \<Rightarrow> (u32 \<times> kstate) option" where
  "nucleus_call U irq st n a1 a2 a3 k = (case exception_handler U (trap st n a1 a2 a3 k) of
     Some (Exit (LDST st') k') \<Rightarrow> resumed (active_process k) st' k'
   | Some (Exit WAIT k') \<Rightarrow> (case exception_handler U (irq a1 k') of
         Some (Exit (LDST st') k') \<Rightarrow> resumed (active_process k) st' k'
       | _ \<Rightarrow> None)
   | _ \<Rightarrow> None)"

section \<open>A process that runs while nobody else is ready\<close>

definition runs_alone :: "nat \<Rightarrow> kstate \<Rightarrow> view \<Rightarrow> bool" where
  "runs_alone p k v \<longleftrightarrow> kernel_ok k v \<and> active_process k = Some p \<and> v_lo v = [] \<and> v_hi v = []"

text \<open>A SYSCALL made in kernel mode: the exception code, and the mode bit that the nucleus tests.\<close>

definition syscall_regs :: "umps \<Rightarrow> state_t \<Rightarrow> bool" where
  "syscall_regs U st \<longleftrightarrow> CAUSE_GET_EXCCODE U (cause st) = 8 \<and> drop_bit 31 (push_bit 28 (status st)) = 0"

definition syscall_exit :: "umps \<Rightarrow> scheduler_control_t \<Rightarrow> kstate \<Rightarrow> unit kres option" where
  "syscall_exit U ctrl s = (case active_process s of None \<Rightarrow> None
     | Some a \<Rightarrow> schedule U (ctrl_pcb ctrl) (ctrl_enqueue ctrl) (after_syscall U a s))"

lemma kbind_assoc: "kbind (kbind m f) g = kbind m (\<lambda>x s. kbind (f x s) g)"
  by (simp add: kbind_def split: option.split kres.split)

lemma call_regs_simps [simp]:
  "gpr (call_regs st n a1 a2 a3) reg_a0 = word_of_int n" "gpr (call_regs st n a1 a2 a3) reg_a1 = a1"
  "gpr (call_regs st n a1 a2 a3) reg_a2 = a2" "gpr (call_regs st n a1 a2 a3) reg_a3 = a3"
  "gpr (call_regs st n a1 a2 a3) reg_v0 = gpr st reg_v0" "status (call_regs st n a1 a2 a3) = status st"
  by (simp_all add: call_regs_def)

lemma syscall_entry:
  assumes "kernel_ok k v" "active_process k = Some p" "syscall_regs U st"
  obtains k1 where "kernel_ok k1 v" "waiting k1 v = waiting k v" "active_process k1 = Some p" "mem k1 = mem k"
    "same_supports k k1" "p_s (pcb_table k1 p) = call_regs st n a1 a2 a3" "is_user_mode k1 = Some 0"
    "exception_handler U (trap st n a1 a2 a3 k) = kbind (syscall_handler U k1) (syscall_exit U)"
proof -
  let ?t = "charge p (trap st n a1 a2 a3 k)"
  let ?s = "upd_pcb p (\<lambda>q. q\<lparr>p_s := call_regs st n a1 a2 a3\<rparr>) ?t"
  define k1 where "k1 = snd (store_tod ?s)\<lparr>start_tod := fst (store_tod ?s)\<rparr>"
  have same: "same_kernel k k1" "active_process k1 = active_process k" "yield_process k1 = yield_process k"
    by (simp_all add: k1_def store_tod_def charge_def trap_def same_kernel_def Let_def)
  have "active_process ?s = Some p" "active_process ?t = Some p" "active_process (trap st n a1 a2 a3 k) = Some p"
    "states ?t BIOSDATAPAGE = call_regs st n a1 a2 a3" "CAUSE_GET_EXCCODE U (cp0_cause ?s) = 8"
    using assms(2,3) by (simp_all add: charge_def store_tod_def trap_def syscall_regs_def Let_def upd_pcb_def)
  then have "exception_handler U (trap st n a1 a2 a3 k) = kbind (kbind (syscall_handler U k1) (\<lambda>ctrl s.
       case active_process s of None \<Rightarrow> None | Some a \<Rightarrow> Some (Ret ctrl (after_syscall U a s))))
       (\<lambda>ctrl s. schedule U (ctrl_pcb ctrl) (ctrl_enqueue ctrl) s)"
    by (simp add: exception_handler_def handle_exception_def k1_def Let_def split: prod.split)
  also have "\<dots> = kbind (syscall_handler U k1) (syscall_exit U)"
    unfolding kbind_assoc by (rule arg_cong[where f = "kbind _"]) (auto simp: syscall_exit_def fun_eq_iff split: option.split)
  finally have e: "exception_handler U (trap st n a1 a2 a3 k) = kbind (syscall_handler U k1) (syscall_exit U)" .
  have ps: "p_s (pcb_table k1 p) = call_regs st n a1 a2 a3" by (simp add: k1_def store_tod_def)
  have "is_user_mode k1 = Some 0" using assms(2,3) same(2) ps by (simp add: is_user_mode_def syscall_regs_def)
  moreover have "mem k1 = mem k" "same_supports k k1"
    by (auto simp: k1_def store_tod_def charge_def trap_def Let_def same_supports_def)
  ultimately show thesis
    using that[OF kernel_ok_same[OF assms(1) same] same_kernel_inv(2)[OF same(1)] _ _ _ ps _ e] same(2) assms(2) by simp
qed

text \<open>The process picked runs with its registers and, if nobody else was ready, alone.\<close>

lemma dispatched_alone:
  assumes "sched_inv s v" "handover pcb s v" "no_lost pcb s v"
    and "pick pcb enqueue (yield_process s) (requeue (caller_queue pcb enqueue) s v) = Some (p, w, None)"
    and "v_lo w = []" "v_hi w = []"
  shows "\<exists>s'. schedule U pcb enqueue s = Some (Exit (LDST (p_s (pcb_table s' p))) s') \<and> runs_alone p s' w
    \<and> waiting s' w = waiting s v \<and> mem s' = mem s \<and> same_supports s s' \<and> get_reg p reg_v0 s' = get_reg p reg_v0 s"
proof -
  from schedule_dispatch[OF assms(1,2,4), of U] obtain s' where
    s': "schedule U pcb enqueue s = Some (Exit (LDST (p_s (pcb_table s' p))) s')" "active_process s' = Some p"
      "yield_process s' = None" "sched_inv s' w" "waiting s' w = waiting s v" "off_lists w p" "live w = live v"
      "\<forall>k. queued w k \<longleftrightarrow> (queued v k \<or> pcb = Some k \<or> yield_process s = Some k) \<and> k \<noteq> p"
      "\<forall>k. k \<noteq> p \<longrightarrow> pcb_table s' k = pcb_table s k" "mem s' = mem s"
      "(pcb_table s' p)\<lparr>p_s := (p_s (pcb_table s' p))\<lparr>status := 0\<rparr>\<rparr> = (pcb_table s p)\<lparr>p_s := (p_s (pcb_table s p))\<lparr>status := 0\<rparr>\<rparr>"
      "supports s' = supports s"
    by (auto simp: requeue_def)
  have "runs_alone p s' w"
    using s'(2-4,6-8) assms(3,5,6) by (auto simp: runs_alone_def kernel_ok_def no_lost_def)
  moreover have "p_support (pcb_table s' p) = p_support (pcb_table s p)" "p_prio (pcb_table s' p) = p_prio (pcb_table s p)"
    "gpr (p_s (pcb_table s' p)) = gpr (p_s (pcb_table s p))"
    using arg_cong[OF s'(11), of p_support] arg_cong[OF s'(11), of p_prio] arg_cong[OF s'(11), of "\<lambda>q. gpr (p_s q)"] by simp_all
  then have "same_supports s s'" "get_reg p reg_v0 s' = get_reg p reg_v0 s"
    using s'(9,12) by (auto simp: same_supports_def get_reg_def)
  ultimately show ?thesis using s'(1,5,10) by blast
qed

lemma after_syscall_same:
  "same_kernel s (after_syscall U p s)" "active_process (after_syscall U p s) = active_process s"
  "yield_process (after_syscall U p s) = yield_process s" "mem (after_syscall U p s) = mem s"
  "same_supports s (after_syscall U p s)" "get_reg p reg_v0 (after_syscall U p s) = get_reg p reg_v0 s"
  by (auto simp: after_syscall_def charge_def store_tod_def same_kernel_def same_supports_def get_reg_def Let_def)

text \<open>A process that nobody competes with is picked again, with its registers.\<close>

lemma resumes_alone:
  assumes "runs_alone p s v"
  shows "\<exists>s' v'. syscall_exit U (CONTROL_RESCHEDULE s) s = Some (Exit (LDST (p_s (pcb_table s' p))) s')
    \<and> runs_alone p s' v' \<and> waiting s' v' = waiting s v \<and> mem s' = mem s \<and> same_supports s s'
    \<and> get_reg p reg_v0 s' = get_reg p reg_v0 s"
proof -
  let ?s = "after_syscall U p s"
  have A: "kernel_ok s v" "active_process s = Some p" "v_lo v = []" "v_hi v = []"
    using assms by (simp_all add: runs_alone_def)
  note same = after_syscall_same[where U = U and p = p and s = s]
  note K = kernel_okD[OF kernel_ok_same[OF A(1) same(1-3)]]
  have p: "off_lists v p" using kernel_okD(3)[OF A(1,2)] .
  let ?v = "enqueue_view p ?s v"
  define w where "w = (if p_prio (pcb_table ?s p) = 0 then ?v\<lparr>v_lo := []\<rparr> else ?v\<lparr>v_hi := []\<rparr>)"
  have w: "pick (Some p) True (yield_process ?s) (requeue (caller_queue (Some p) True) ?s v) = Some (p, w, None)"
    "v_lo w = []" "v_hi w = []"
    using A(3,4) K(2) by (simp_all add: w_def pick_def requeue_def caller_queue_def enqueue_view_queues)
  have "handover (Some p) ?s v" using p K(2) by (simp add: handover_def)
  moreover have "no_lost (Some p) ?s v" using K(4) same(2) A(2) by simp
  ultimately obtain s' where s': "schedule U (Some p) True ?s = Some (Exit (LDST (p_s (pcb_table s' p))) s')" "runs_alone p s' w"
    "waiting s' w = waiting ?s v" "mem s' = mem ?s" "same_supports ?s s'" "get_reg p reg_v0 s' = get_reg p reg_v0 ?s"
    using dispatched_alone[OF K(1) _ _ w, of U] by blast
  have "syscall_exit U (CONTROL_RESCHEDULE s) s = Some (Exit (LDST (p_s (pcb_table s' p))) s')"
    using s'(1) A(2) by (simp add: syscall_exit_def CONTROL_RESCHEDULE_def)
  moreover have "waiting s' w = waiting s v" using s'(3) same_kernel_inv(2)[OF same(1)] by simp
  moreover have "mem s' = mem s" using s'(4) same(4) by simp
  moreover have "get_reg p reg_v0 s' = get_reg p reg_v0 s" using s'(6) same(6) by simp
  ultimately show ?thesis using s'(2) same_supports_trans[OF same(5) s'(5)] by blast
qed

text \<open>A call that neither blocks nor leaves: the process gets the processor back with the v0 the handler set.\<close>

lemma call_returns:
  assumes "active_process k = Some p" "syscall_handler U k1 = Some (Ret (CONTROL_RESCHEDULE k2) k2)" "runs_alone p k2 v2"
    and "exception_handler U (trap st n a1 a2 a3 k) = kbind (syscall_handler U k1) (syscall_exit U)"
  shows "\<exists>k' v'. nucleus_call U irq st n a1 a2 a3 k = Some (get_reg p reg_v0 k2, k') \<and> runs_alone p k' v'
    \<and> exception_handler U (trap st n a1 a2 a3 k) = Some (Exit (LDST (p_s (pcb_table k' p))) k')
    \<and> waiting k' v' = waiting k2 v2 \<and> mem k' = mem k2 \<and> same_supports k2 k'"
proof -
  obtain k' v' where k': "syscall_exit U (CONTROL_RESCHEDULE k2) k2 = Some (Exit (LDST (p_s (pcb_table k' p))) k')"
    "runs_alone p k' v'" "waiting k' v' = waiting k2 v2" "mem k' = mem k2" "same_supports k2 k'"
    "get_reg p reg_v0 k' = get_reg p reg_v0 k2" using resumes_alone[OF assms(3)] by blast
  have "active_process k' = Some p" using k'(2) by (simp add: runs_alone_def)
  then have "nucleus_call U irq st n a1 a2 a3 k = Some (get_reg p reg_v0 k2, k')"
    using assms(1,2,4) k'(1,6) by (simp add: nucleus_call_def resumed_def get_reg_def)
  moreover have "exception_handler U (trap st n a1 a2 a3 k) = Some (Exit (LDST (p_s (pcb_table k' p))) k')"
    using assms(2,4) k'(1) by simp
  ultimately show ?thesis using k'(2-5) by blast
qed

section \<open>The calls\<close>

lemma sem_passes_alone:
  assumes "sem_effect a (x, []) Passes s v s' v'" "runs_alone p s v" "waiting s v a = []"
  shows "runs_alone p s' v'" "waiting s' v' = waiting s v" "mem s' = (mem s)(a := x)" "same_supports s s'"
    "CONTROL_RESCHEDULE s' = CONTROL_RESCHEDULE s" "get_reg i r s' = get_reg i r s"
proof -
  have "kernel_ok s' v'"
    by (rule sem_effect_kernel_ok[OF assms(1)]) (use assms(2,3) in \<open>auto simp: sem_step_def runs_alone_def\<close>)
  then show "runs_alone p s' v'"
    using assms(1,2) by (simp add: runs_alone_def sem_effect_def woken_def requeue_def)
  show "waiting s' v' = waiting s v" "mem s' = (mem s)(a := x)" "same_supports s s'"
    "CONTROL_RESCHEDULE s' = CONTROL_RESCHEDULE s" "get_reg i r s' = get_reg i r s"
    using assms(1,3) sem_effect_pcb(3)[OF assms(1)] sem_effect_same_supports[OF assms(1)]
    by (auto simp: sem_effect_def CONTROL_RESCHEDULE_def get_reg_def)
qed

lemma nucleus_passeren:
  assumes "runs_alone p k v" "syscall_regs U st" "a \<noteq> 0" "word_aligned a" "waiting k v a = []" "mem k a \<noteq> 0"
  shows "\<exists>k' v'. nucleus_call U irq st PASSEREN a b c k = Some (gpr st reg_v0, k') \<and> runs_alone p k' v'
    \<and> exception_handler U (trap st PASSEREN a b c k) = Some (Exit (LDST (p_s (pcb_table k' p))) k')
    \<and> waiting k' v' = waiting k v \<and> mem k' = (mem k)(a := mem k a - 1) \<and> same_supports k k'"
proof -
  have A: "kernel_ok k v" "active_process k = Some p" "v_lo v = []" "v_hi v = []"
    using assms(1) by (simp_all add: runs_alone_def)
  from syscall_entry[OF A(1,2) assms(2), of PASSEREN a b c] obtain k1 where k1:
    "kernel_ok k1 v" "waiting k1 v = waiting k v" "active_process k1 = Some p" "mem k1 = mem k"
    "same_supports k k1" "p_s (pcb_table k1 p) = call_regs st PASSEREN a b c" "is_user_mode k1 = Some 0"
    "exception_handler U (trap st PASSEREN a b c k) = kbind (syscall_handler U k1) (syscall_exit U)" .
  have "sem_P p (mem k1 a, waiting k1 v a) = ((mem k a - 1, []), Passes)"
    using assms(5,6) k1(2,4) by (simp add: sem_P_def)
  from P_refines[OF kernel_okD(1)[OF k1(1)] kernel_okD(3)[OF k1(1,3)] assms(3,4) this]
  obtain k2 v2 where P: "P a (Some p) k1 = Some (Ret (CONTROL_RESCHEDULE k1) k2)"
    "sem_effect a (mem k a - 1, []) Passes k1 v k2 v2" by auto
  have "runs_alone p k1 v" "waiting k1 v a = []" using k1(1-3) A(3,4) assms(5) by (simp_all add: runs_alone_def)
  note E = sem_passes_alone[OF P(2) this]
  have "syscall_handler U k1 = Some (Ret (CONTROL_RESCHEDULE k2) k2)"
    using k1(3,6,7) P(1) E(5) assms(3) by (simp add: syscall_handler_def get_reg_def syscall_passeren_def)
  moreover have "get_reg p reg_v0 k2 = gpr st reg_v0" using E(6)[of p reg_v0] k1(6) by (simp add: get_reg_def)
  moreover have "same_supports k k2" by (rule same_supports_trans[OF k1(5) E(4)])
  ultimately show ?thesis
    using call_returns[OF A(2) _ E(1) k1(8), of irq] E(2,3) k1(2,4) same_supports_trans[of k k2] by auto
qed

lemma nucleus_verhogen:
  assumes "runs_alone p k v" "syscall_regs U st" "a \<noteq> 0" "word_aligned a" "waiting k v a = []" "mem k a \<noteq> 1"
  shows "\<exists>k' v'. nucleus_call U irq st VERHOGEN a b c k = Some (gpr st reg_v0, k') \<and> runs_alone p k' v'
    \<and> waiting k' v' = waiting k v \<and> mem k' = (mem k)(a := mem k a + 1) \<and> same_supports k k'"
proof -
  have A: "kernel_ok k v" "active_process k = Some p" "v_lo v = []" "v_hi v = []"
    using assms(1) by (simp_all add: runs_alone_def)
  from syscall_entry[OF A(1,2) assms(2), of VERHOGEN a b c] obtain k1 where k1:
    "kernel_ok k1 v" "waiting k1 v = waiting k v" "active_process k1 = Some p" "mem k1 = mem k"
    "same_supports k k1" "p_s (pcb_table k1 p) = call_regs st VERHOGEN a b c" "is_user_mode k1 = Some 0"
    "exception_handler U (trap st VERHOGEN a b c k) = kbind (syscall_handler U k1) (syscall_exit U)" .
  have "mem k1 a \<noteq> 1" "waiting k1 v a = []" using assms(5,6) k1(2,4) by simp_all
  from V_pass[OF kernel_okD(1)[OF k1(1)] this assms(3,4)]
  obtain k2 where V: "V a k1 = Some (Ret (Some p) k2)" "sem_effect a (mem k a + 1, []) Passes k1 v k2 v"
    using k1(3,4) by auto
  have "runs_alone p k1 v" "waiting k1 v a = []" using k1(1-3) A(3,4) assms(5) by (simp_all add: runs_alone_def)
  note E = sem_passes_alone[OF V(2) this]
  have "syscall_handler U k1 = Some (Ret (CONTROL_RESCHEDULE k2) k2)"
    using k1(3,6,7) V(1) assms(3) by (simp add: syscall_handler_def get_reg_def syscall_verhogen_def)
  moreover have "get_reg p reg_v0 k2 = gpr st reg_v0" using E(6)[of p reg_v0] k1(6) by (simp add: get_reg_def)
  moreover have "same_supports k k2" by (rule same_supports_trans[OF k1(5) E(4)])
  ultimately show ?thesis
    using call_returns[OF A(2) _ E(1) k1(8), of irq] E(2,3) k1(2,4) same_supports_trans[of k k2] by auto
qed

lemma nucleus_get_support:
  assumes "runs_alone p k v" "syscall_regs U st"
  shows "\<exists>k' v'. nucleus_call U irq st GETSUPPORTPTR a b c k = Some (p_support (pcb_table k p), k') \<and> runs_alone p k' v'
    \<and> waiting k' v' = waiting k v \<and> mem k' = mem k \<and> same_supports k k'"
proof -
  have A: "kernel_ok k v" "active_process k = Some p" "v_lo v = []" "v_hi v = []"
    using assms(1) by (simp_all add: runs_alone_def)
  from syscall_entry[OF A(1,2) assms(2), of GETSUPPORTPTR a b c] obtain k1 where k1:
    "kernel_ok k1 v" "waiting k1 v = waiting k v" "active_process k1 = Some p" "mem k1 = mem k"
    "same_supports k k1" "p_s (pcb_table k1 p) = call_regs st GETSUPPORTPTR a b c" "is_user_mode k1 = Some 0"
    "exception_handler U (trap st GETSUPPORTPTR a b c k) = kbind (syscall_handler U k1) (syscall_exit U)" .
  let ?k2 = "set_reg p reg_v0 (p_support (pcb_table k1 p)) k1"
  have "syscall_handler U k1 = Some (Ret (CONTROL_RESCHEDULE ?k2) ?k2)"
    using k1(3,6,7) by (simp add: syscall_handler_def get_reg_def syscall_get_support_data_def)
  moreover have "runs_alone p ?k2 v" using kernel_ok_set_reg[OF k1(1)] k1(3) A(3,4) by (simp add: runs_alone_def)
  moreover have "waiting ?k2 v = waiting k v" using same_kernel_inv(2)[OF same_kernel_set_reg] k1(2) by simp
  moreover have "get_reg p reg_v0 ?k2 = p_support (pcb_table k p)" using k1(5)
    by (simp add: get_reg_def set_reg_def same_supports_def)
  moreover have "same_supports k ?k2" "mem ?k2 = mem k" using k1(4,5) by simp_all
  ultimately show ?thesis using call_returns[OF A(2) _ _ k1(8), of ?k2 v irq] same_supports_trans by metis
qed

section \<open>A request to a device\<close>

text \<open>
  What the environment does while the processor waits: the device \<open>n\<close> of the line \<open>il\<close> finishes with
  the status \<open>stat\<close> and raises the only interrupt, and the words in \<open>S\<close> stay as they are.
\<close>

definition only_line :: "umps \<Rightarrow> nat \<Rightarrow> u32 \<Rightarrow> bool" where
  "only_line U il cau \<longleftrightarrow> CAUSE_GET_EXCCODE U cau = 0 \<and> cau AND CAUSE_IP U (IL_IPI U) = 0
     \<and> cau AND CAUSE_IP U (IL_CPUTIMER U) = 0 \<and> cau AND CAUSE_IP U (IL_TIMER U) = 0
     \<and> cau AND (CAUSE_IP U (IL_DISK U) OR CAUSE_IP U (IL_FLASH U) OR CAUSE_IP U (IL_ETHERNET U) OR CAUSE_IP U (IL_PRINTER U)) \<noteq> 0
     \<and> pending_line U cau = il"

definition device_done :: "umps \<Rightarrow> u32 set \<Rightarrow> nat \<Rightarrow> nat \<Rightarrow> u32 \<Rightarrow> (kstate \<Rightarrow> kstate) \<Rightarrow> bool" where
  "device_done U S il n stat d \<longleftrightarrow> (\<forall>k. outside k (d k) \<and> supports (d k) = supports k \<and> only_line U il (cp0_cause (d k))
     \<and> (\<forall>j. IL_DISK U \<le> j \<and> j \<le> IL_TERMINAL U \<longrightarrow> unat (mem (d k) (CDEV_BITMAP_ADDR U j)) < 2 ^ N_DEV_PER_IL U)
     \<and> find_device_number U (CDEV_BITMAP_ADDR U il) (d k) = Some n
     \<and> mem (d k) (devreg U (il - IL_DISK U) n + RECV_STATUS) = stat \<and> (\<forall>x\<in>S. mem (d k) x = mem k x))"

definition device_sems :: "umps \<Rightarrow> u32 set" where
  "device_sems U = (\<lambda>j. sem_addr_of U (int j)) ` {..<SEMAPHORES_NUM U - 1}"

text \<open>The nucleus waits: the caller is blocked and nobody is ready.\<close>

lemma waits:
  assumes "sched_inv s v" "no_lost None s v" "yield_process s = None" "active_process s = Some p"
    and "waiting s v k = [p]" "v_lo v = []" "v_hi v = []"
  shows "\<exists>s'. syscall_exit U CONTROL_BLOCK s = Some (Exit WAIT s') \<and> kernel_ok s' v \<and> active_process s' = None
    \<and> waiting s' v = waiting s v \<and> mem s' = mem s \<and> same_supports s s'"
proof -
  let ?s = "after_syscall U p s"
  note same = after_syscall_same[where U = U and p = p and s = s]
  have inv: "sched_inv ?s v" "waiting ?s v = waiting s v" using assms(1) same_kernel_inv[OF same(1)] by simp_all
  have b: "blocked v p" using waiting_sem_add(1)[OF sched_invD(1)[OF assms(1)], of p k] assms(5) by simp
  then have n: "{i. live v i} \<noteq> {}" "{i. blocked v i} \<noteq> {}"
    using blocked_live(1)[OF sched_invD(1)[OF assms(1)] b] by blast+
  have "pick None False (yield_process ?s) (requeue (caller_queue None False) ?s v) = None" "handover None ?s v"
    using assms(3,6,7) same(3) by (simp_all add: pick_def requeue_def caller_queue_def handover_def)
  from schedule_idle[OF inv(1) this(2,1), of U] n have e: "schedule U None False ?s = scheduler_wait U ?s"
    by (simp only: not_False_eq_True if_True if_False)
  obtain s' where w: "scheduler_wait U ?s = Some (Exit WAIT s')" "same_kernel ?s s'" "active_process s' = None"
    "yield_process s' = None" "mem s' = mem ?s" "same_supports ?s s'"
    using assms(3) same(3)
    by (auto simp: scheduler_wait_def Let_def same_kernel_def same_supports_def reset_timer_def load_interval_timer_def)
  have "kernel_ok s' v" using inv(1) same_kernel_inv(3)[OF w(2)] assms(2,3) w(3,4) by (simp add: kernel_ok_def no_lost_def)
  moreover have "syscall_exit U CONTROL_BLOCK s = Some (Exit WAIT s')"
    using e w(1) assms(4) by (simp add: syscall_exit_def CONTROL_BLOCK_def)
  moreover have "waiting s' v = waiting s v" using same_kernel_inv(2)[OF w(2)] inv(2) by simp
  ultimately show ?thesis using w(3,5) same(4) same_supports_trans[OF same(5) w(6)] by auto
qed

lemma nucleus_do_io:
  assumes "runs_alone p k v" "syscall_regs U st" "machine_ok U" "devices_ok U" "registers_ok U"
    and dev: "IL_DISK U \<le> il" "il \<le> IL_PRINTER U" "n < N_DEV_PER_IL U"
      "cmd = command_addr U il n False" "cmd = devreg U (il - IL_DISK U) n + RECV_COMMAND"
      "sem = sem_addr_of U (int (sem_index U il n False))"
    and idle: "waiting k v sem = []" "\<forall>x\<in>device_sems U. mem k x = 0"
    and env: "device_done U S il n stat (irq cmd)" "stat AND TERMSTATMASK \<noteq> DEV_STATUS_NOTINSTALLED"
      "device_sems U \<subseteq> S" "cmd \<notin> S"
  shows "\<exists>k' v'. nucleus_call U irq st DOIO cmd val c k = Some (stat, k') \<and> runs_alone p k' v'
    \<and> waiting k' v' = waiting k v \<and> (\<forall>x\<in>S. mem k' x = mem k x) \<and> same_supports k k'"
proof -
  have A: "kernel_ok k v" "active_process k = Some p" "v_lo v = []" "v_hi v = []"
    using assms(1) by (simp_all add: runs_alone_def)
  have D: "il \<le> IL_TERMINAL U" "n < DEVPERINT U" "lines_ok U" "sems_ok U" "cmd \<noteq> 0" "word_aligned cmd"
    using dev(1-3,5) assms(3,4) by (auto simp: devices_ok_def machine_ok_def)
  have j: "sem_index U il n False < SEMAPHORES_NUM U - 1" by (rule sem_index_bound[OF D(3) dev(1) D(1,2)])
  then have sem: "sem \<in> device_sems U" "sem \<noteq> 0" "word_aligned sem"
    using sem_addr_facts(1,2)[OF D(4), of "sem_index U il n False"] dev(6) by (auto simp: device_sems_def)
  from syscall_entry[OF A(1,2) assms(2), of DOIO cmd val c] obtain k1 where k1:
    "kernel_ok k1 v" "waiting k1 v = waiting k v" "active_process k1 = Some p" "mem k1 = mem k"
    "same_supports k k1" "p_s (pcb_table k1 p) = call_regs st DOIO cmd val c" "is_user_mode k1 = Some 0"
    "exception_handler U (trap st DOIO cmd val c k) = kbind (syscall_handler U k1) (syscall_exit U)" .
  have a1: "get_reg p reg_a1 k1 = cmd" "get_reg p reg_a2 k1 = val" using k1(6) by (simp_all add: get_reg_def)
  have io: "get_iodev U (get_reg p reg_a1 k1) k1 = Some (Ret \<lparr>semaphore = sem, interrupt_line = int il\<rparr> k1)"
    using get_iodev_command[OF D(3) assms(5) dev(1) D(1,2), of False k1] a1(1) dev(4,6) by simp
  obtain k2 v2 where k2: "syscall_do_io U p k1 = Some (Ret CONTROL_BLOCK k2)" "sched_inv k2 v2"
    "waiting k2 v2 = (waiting k1 v)(sem := [p])" "mem k2 = (mem k1)(cmd := val)" "v_lo v2 = v_lo v" "v_hi v2 = v_hi v"
    "same_supports k1 k2" "active_process k2 = Some p" "yield_process k2 = None" "no_lost None k2 v2"
    using do_io_blocks[OF k1(1,3) _ _ io] D(5,6) sem idle k1(2,4) a1 by auto
  have "waiting k2 v2 sem = [p]" using k2(3) by simp
  from waits[OF k2(2,10,9,8) this] k2(5,6) A(3,4) obtain k3 where
    k3: "syscall_exit U CONTROL_BLOCK k2 = Some (Exit WAIT k3)" "kernel_ok k3 v2" "active_process k3 = None"
      "waiting k3 v2 = waiting k2 v2" "mem k3 = mem k2" "same_supports k2 k3" by auto
  have trapped: "exception_handler U (trap st DOIO cmd val c k) = Some (Exit WAIT k3)"
    using k1(3,6,7,8) k2(1) k3(1) by (simp add: syscall_handler_def get_reg_def)
  let ?k4 = "irq cmd k3"
  have d: "outside k3 ?k4" "supports ?k4 = supports k3" "only_line U il (cp0_cause ?k4)"
    "find_device_number U (CDEV_BITMAP_ADDR U il) ?k4 = Some n" "mem ?k4 (devreg U (il - IL_DISK U) n + RECV_STATUS) = stat"
    "\<forall>x\<in>S. mem ?k4 x = mem k3 x"
    "\<forall>j. IL_DISK U \<le> j \<and> j \<le> IL_TERMINAL U \<longrightarrow> unat (mem ?k4 (CDEV_BITMAP_ADDR U j)) < 2 ^ N_DEV_PER_IL U"
    using env(1) unfolding device_done_def by blast+
  have m3: "mem k3 x = mem k x" if "x \<in> S" for x using that k1(4) k2(4) k3(5) env(4) by auto
  have k4: "kernel_ok ?k4 v2" "active_process ?k4 = None" "same_supports k3 ?k4"
    using kernel_ok_outside[OF k3(2) d(1)] d(1,2) k3(3) by (simp_all add: outside_def same_supports_def)
  have w4: "waiting ?k4 v2 = waiting k2 v2"
    using same_kernel_inv(2)[of k3 ?k4] d(1) k3(4) by (simp add: outside_def same_kernel_def)
  have "mem ?k4 x = 0" if "x \<in> device_sems U" for x using that d(6) m3 env(3) idle(2) by auto
  then have "irq_ok U ?k4" using d(7) by (auto simp: irq_ok_def device_sems_def)
  from interrupt_generic_served[OF k4(1) assms(3,4) this _ d(4) dev(6) refl, where cau = "cp0_cause ?k4"]
  obtain k5 v5 where k5: "interrupt_generic U (cp0_cause ?k4) ?k4 = Some (Ret (CONTROL_PRESERVE None) k5)" "kernel_ok k5 v5"
    "waiting k5 v5 = (waiting ?k4 v2)(sem := [])"
    "v_lo v5 = (if p_prio (pcb_table ?k4 p) = 0 then v_lo v2 @ [p] else v_lo v2)"
    "v_hi v5 = (if p_prio (pcb_table ?k4 p) = 0 then v_hi v2 else v_hi v2 @ [p])"
    "get_reg p reg_v0 k5 = stat" "mem k5 = (mem ?k4)(cmd := DEV_C_ACK)" "active_process k5 = None" "same_supports ?k4 k5"
    using d(3,5) env(2) w4 k2(3) k4(2) dev(5) by (auto simp: only_line_def)
  define w where "w = (if p_prio (pcb_table ?k4 p) = 0 then v5\<lparr>v_lo := []\<rparr> else v5\<lparr>v_hi := []\<rparr>)"
  have w: "pick None False (yield_process k5) (requeue (caller_queue None False) k5 v5) = Some (p, w, None)"
    "v_lo w = []" "v_hi w = []"
    using k5(4,5) k2(5,6) A(3,4) kernel_okD(2)[OF k5(2)] by (simp_all add: w_def pick_def requeue_def caller_queue_def)
  have "handover None k5 v5" "no_lost None k5 v5" using kernel_okD(2,4)[OF k5(2)] k5(8) by (simp_all add: handover_def)
  from dispatched_alone[OF kernel_okD(1)[OF k5(2)] this w, of U] obtain k6 where
    k6: "schedule U None False k5 = Some (Exit (LDST (p_s (pcb_table k6 p))) k6)" "runs_alone p k6 w"
      "waiting k6 w = waiting k5 v5" "mem k6 = mem k5" "same_supports k5 k6" "get_reg p reg_v0 k6 = get_reg p reg_v0 k5" by blast
  have "exception_handler U ?k4 = Some (Exit (LDST (p_s (pcb_table k6 p))) k6)"
    using k4(2) d(3) k5(1) k6(1)
    by (simp add: exception_handler_def handle_exception_def interrupt_handler_def only_line_def CONTROL_PRESERVE_def)
  moreover have "active_process k6 = Some p" using k6(2) by (simp add: runs_alone_def)
  ultimately have "nucleus_call U irq st DOIO cmd val c k = Some (stat, k6)"
    using trapped k5(6) k6(6) A(2) by (simp add: nucleus_call_def resumed_def get_reg_def)
  moreover have "waiting k6 w = waiting k v" using k6(3) k5(3) w4 k2(3) k1(2) idle(1) by (simp add: fun_upd_idem)
  moreover have "\<forall>x\<in>S. mem k6 x = mem k x" using k6(4) k5(7) d(6) m3 env(4) by auto
  moreover have "same_supports k k6"
    using k1(5) k2(7) k3(6) k4(3) k5(9) k6(5) same_supports_trans by metis
  ultimately show ?thesis using k6(2) by blast
qed

end
