(* ===== verification/Contract.thy ===== *)
theory Contract
  imports Services Paging
begin

text \<open>
  The contract between the support level and the nucleus, for a process that uses the swap pool: what
  its system calls have to give, as the locale \<open>swap_pool_services\<close>. The handling of page faults, one and any number in
  turn, is proved from the contract alone; the nucleus of \<open>Exception\<close> and its parts keeps it.
\<close>

section \<open>A page fault\<close>

text \<open>The whole handler of a page fault, from its first system call to the state it loads.\<close>

lemma support_tlb_fault:
  assumes calls: "SYSCALL W GETSUPPORTPTR 0 0 0 s = Some (SRet a s1)" "SYSCALL W PASSEREN (sem_swap_pool_table W) 0 0 s1 = Some (SRet r s2)"
    and fault: "cause (sup_except_state (supports (kernel s1) a) PGFAULTEXCEPT) \<noteq> CAUSE_TLB_MOD"
      "st = sup_except_state (supports (kernel s2) a) PGFAULTEXCEPT" "page_of (entry_hi st) = Some i"
    and proc: "a \<noteq> 0" "is_valid_asid asid" "asid = sup_asid (supports (kernel s2) a)"
    and pool: "logs_ok s2" "pool_mapped s2" "pick_page s2 = (f, s3)" "e = swap_pool_table s2 f"
      "addr = swap_pool_addr s2 + of_nat f * PAGESIZE"
    and env: "undisturbed W I" "I (kernel s2)" "flash_gives W I (\<lambda>_ _. DEV_STATUS_READY)"
      "gives_to W I J VERHOGEN (sem_swap_pool_table W) 0 0 q"
  shows "\<exists>s'. support_tlb W s = Some (SExit (SLDST st) s') \<and> supports (kernel s') = faulted a i addr e (supports (kernel s2))
    \<and> swap_pool_table s' = (swap_pool_table s2)(f := \<lparr>sw_asid = asid, sw_page_no = drop_bit VPNSHIFT (entry_hi st),
          sw_pte = Some (a, of_nat i)\<rparr>)
    \<and> swap_pool_addr s' = swap_pool_addr s2 \<and> tlb s' = faulted_tlb W a i addr e (supports (kernel s2)) (tlb s2)
    \<and> calls s' = calls s2 @ fault_calls W asid i e \<and> \<not> swap_pool_batons s' (unat (asid - 1))
    \<and> J (kernel s') \<and> logs_ok s'"
proof -
  from page_fault_loads[OF proc fault(2,3) pool env] obtain \<kappa> m where
    p: "page_fault W a s2 = Some (SExit (SLDST st) (s3\<lparr>kernel := \<kappa>,
        swap_pool_table := (swap_pool_table s2)(f := \<lparr>sw_asid = asid, sw_page_no = drop_bit VPNSHIFT (entry_hi st),
          sw_pte = Some (a, of_nat i)\<rparr>),
        swap_pool_batons := (swap_pool_batons s2)(unat (asid - 1) := False),
        tlb := faulted_tlb W a i addr e (supports (kernel s2)) (tlb s2),
        kdebug := m, calls := calls s2 @ fault_calls W asid i e\<rparr>))" "supports \<kappa> = faulted a i addr e (supports (kernel s2))"
      "J \<kappa>" "log_ok m"
    by blast
  have "support_tlb W s = page_fault W a s2"
    using calls fault(1) proc(1) by (simp add: support_tlb_def support_at_def)
  moreover have "swap_pool_addr s3 = swap_pool_addr s2" "kstderr s3 = kstderr s2"
    using arg_cong[OF pick_page_same[OF pool(3)], of swap_pool_addr] arg_cong[OF pick_page_same[OF pool(3)], of kstderr] by simp_all
  ultimately show ?thesis using p by (intro exI[of _ "s3\<lparr>kernel := \<kappa>,
        swap_pool_table := (swap_pool_table s2)(f := \<lparr>sw_asid = asid, sw_page_no = drop_bit VPNSHIFT (entry_hi st),
          sw_pte = Some (a, of_nat i)\<rparr>),
        swap_pool_batons := (swap_pool_batons s2)(unat (asid - 1) := False),
        tlb := faulted_tlb W a i addr e (supports (kernel s2)) (tlb s2),
        kdebug := m, calls := calls s2 @ fault_calls W asid i e\<rparr>"]) (use pool(1) in \<open>simp add: logs_ok_def\<close>)
qed

section \<open>Accesses to memory\<close>

text \<open>
  A process accesses memory: \<open>st\<close> is its state at the instruction, with the address in \<open>entry_hi\<close>. If
  the page is mapped that is all; otherwise the nucleus saves \<open>st\<close> in the support structure and
  passes the fault up, and the access is done again when the handler loads \<open>st\<close>, and finds its page then.
\<close>

definition passed_up :: "u32 \<Rightarrow> state_t \<Rightarrow> sstate \<Rightarrow> sstate" where
  "passed_up a st s = s\<lparr>kernel := (kernel s)\<lparr>supports := (supports (kernel s))(a := (supports (kernel s) a)
     \<lparr>sup_except_state := (sup_except_state (supports (kernel s) a))(PGFAULTEXCEPT := st)\<rparr>)\<rparr>\<rparr>"

definition page_valid :: "u32 \<Rightarrow> nat \<Rightarrow> sstate \<Rightarrow> bool" where
  "page_valid a i s \<longleftrightarrow> pte_entry_lo (entry_at s a i) AND VALIDON \<noteq> 0"

definition access :: "world \<Rightarrow> u32 \<Rightarrow> state_t \<Rightarrow> sstate \<Rightarrow> sstate option" where
  "access W a st s = (case page_of (entry_hi st) of None \<Rightarrow> None | Some i \<Rightarrow>
     if page_valid a i s then Some s
     else case support_tlb W (passed_up a st s) of
         Some (SExit (SLDST st') s') \<Rightarrow> if st' = st \<and> page_valid a i s' then Some s' else None
       | _ \<Rightarrow> None)"

fun accesses :: "world \<Rightarrow> u32 \<Rightarrow> state_t list \<Rightarrow> sstate \<Rightarrow> sstate option" where
  "accesses W a [] s = Some s"
| "accesses W a (st # sts) s = do {
     s \<leftarrow> access W a st s;
     accesses W a sts s
   }"

text \<open>The state of a process that has the swap pool for itself, and of its TLB with \<open>n\<close> entries.\<close>

definition paging_ok :: "nat \<Rightarrow> u32 \<Rightarrow> sstate \<Rightarrow> bool" where
  "paging_ok n a s \<longleftrightarrow> pool_inv a s \<and> logs_ok s \<and> is_valid_asid (sup_asid (supports (kernel s) a))
     \<and> tlb_unique n (tlb s) \<and> tlb_coherent n a (supports (kernel s)) (tlb s)"

lemma passed_up_same:
  "paging_ok n a (passed_up a st s) = paging_ok n a s" "page_valid a i (passed_up a st s) = page_valid a i s"
  "sup_except_state (supports (kernel (passed_up a st s)) a) PGFAULTEXCEPT = st"
  by (simp_all add: paging_ok_def page_valid_def passed_up_def pool_inv_def occupied_def frame_entry_def logs_ok_def tlb_coherent_def)

section \<open>The contract\<close>

text \<open>
  While \<open>I\<close> holds the process may ask for its support structure, and for the swap pool table; having
  it, \<open>J\<close> holds, the flash devices answer, and giving it back leads to \<open>I\<close> again.
\<close>

locale swap_pool_services =
  fixes W :: world and I J :: "kstate \<Rightarrow> bool" and a r q :: u32
  assumes own_support: "gives_to W I I GETSUPPORTPTR 0 0 0 a"
    and lock: "gives_to W I J PASSEREN (sem_swap_pool_table W) 0 0 r"
    and unlock: "gives_to W J I VERHOGEN (sem_swap_pool_table W) 0 0 q"
    and flash: "flash_gives W J (\<lambda>_ _. DEV_STATUS_READY)"
    and mine: "undisturbed W J"
    and pass_up: "I k \<Longrightarrow> I (k\<lparr>supports := f\<rparr>)"
begin

lemma calls_answer:
  assumes "I (kernel s)"
  obtains s1 s2 where "SYSCALL W GETSUPPORTPTR 0 0 0 s = Some (SRet a s1)"
    "SYSCALL W PASSEREN (sem_swap_pool_table W) 0 0 s1 = Some (SRet r s2)"
    "J (kernel s2)" "supports (kernel s1) = supports (kernel s)" "s2 = s\<lparr>kernel := kernel s2, calls := calls s2\<rparr>"
    "supports (kernel s2) = supports (kernel s)"
proof -
  obtain k1 where k1: "SYSCALL W GETSUPPORTPTR 0 0 0 s = Some (SRet a (s\<lparr>kernel := k1, calls := calls s @ [(GETSUPPORTPTR, 0, 0, 0)]\<rparr>))"
    "I k1" "supports k1 = supports (kernel s)" using SYSCALL_gives[OF own_support assms] by blast
  let ?s1 = "s\<lparr>kernel := k1, calls := calls s @ [(GETSUPPORTPTR, 0, 0, 0)]\<rparr>"
  have "I (kernel ?s1)" using k1(2) by simp
  from SYSCALL_gives[OF lock this] obtain k2 where
    "SYSCALL W PASSEREN (sem_swap_pool_table W) 0 0 ?s1
      = Some (SRet r (?s1\<lparr>kernel := k2, calls := calls ?s1 @ [(PASSEREN, sem_swap_pool_table W, 0, 0)]\<rparr>))"
    "J k2" "supports k2 = supports (kernel ?s1)" by blast
  from that[OF k1(1) this(1)] this(2,3) k1(3) show thesis by simp
qed

text \<open>A fault on a page that is not mapped is served, and the process can go on.\<close>

lemma fault_served:
  assumes "I (kernel s)" "st = sup_except_state (supports (kernel s) a) PGFAULTEXCEPT"
    and "cause st \<noteq> CAUSE_TLB_MOD" "page_of (entry_hi st) = Some i"
    and "\<not> page_valid a i s" "tlb_ok W n" "paging_ok n a s"
  shows "\<exists>s'. support_tlb W s = Some (SExit (SLDST st) s') \<and> I (kernel s') \<and> paging_ok n a s' \<and> page_valid a i s'"
proof -
  have ok: "pool_inv a s" "logs_ok s" "is_valid_asid (sup_asid (supports (kernel s) a))"
    "tlb_unique n (tlb s)" "tlb_coherent n a (supports (kernel s)) (tlb s)"
    using assms(7) by (simp_all add: paging_ok_def)
  obtain s1 s2 where c: "SYSCALL W GETSUPPORTPTR 0 0 0 s = Some (SRet a s1)"
    "SYSCALL W PASSEREN (sem_swap_pool_table W) 0 0 s1 = Some (SRet r s2)"
    "J (kernel s2)" "supports (kernel s1) = supports (kernel s)" "s2 = s\<lparr>kernel := kernel s2, calls := calls s2\<rparr>"
    "supports (kernel s2) = supports (kernel s)" using calls_answer[OF assms(1)] by blast
  have eq: "swap_pool_table s2 = swap_pool_table s" "swap_pool_addr s2 = swap_pool_addr s" "tlb s2 = tlb s"
    "kstderr s2 = kstderr s" "kdebug s2 = kdebug s"
    using arg_cong[OF c(5), of swap_pool_table] arg_cong[OF c(5), of swap_pool_addr] arg_cong[OF c(5), of tlb]
      arg_cong[OF c(5), of kstderr] arg_cong[OF c(5), of kdebug] by simp_all
  have inv: "pool_inv a s2" "logs_ok s2"
    using ok(1,2) eq c(6) by (simp_all add: pool_inv_def occupied_def frame_entry_def logs_ok_def)
  note P = pool_invD[OF inv(1)]
  have tlb: "tlb_unique n (tlb s2)" "tlb_coherent n a (supports (kernel s2)) (tlb s2)"
    using ok(4,5) eq(3) c(6) by simp_all
  let ?asid = "sup_asid (supports (kernel s2) a)"
  have asid: "is_valid_asid ?asid" using ok(3) c(6) by simp
  obtain f s3 where pick: "pick_page s2 = (f, s3)" by (cases "pick_page s2")
  let ?e = "swap_pool_table s2 f" and ?addr = "swap_pool_addr s2 + of_nat f * PAGESIZE"
  have i: "i < MAXPAGES" by (rule page_of_less[OF assms(4)])
  have f: "f < POOLSIZE" by (rule pick_page_less[OF pick])
  have "cause (sup_except_state (supports (kernel s1) a) PGFAULTEXCEPT) \<noteq> CAUSE_TLB_MOD"
    "st = sup_except_state (supports (kernel s2) a) PGFAULTEXCEPT"
    using assms(2,3) c(4,6) by simp_all
  from support_tlb_fault[OF c(1,2) this assms(4) P(1) asid refl inv(2) pool_inv_mapped[OF inv(1)] pick refl refl mine c(3) flash unlock]
  obtain s' where s': "support_tlb W s = Some (SExit (SLDST st) s')" "supports (kernel s') = faulted a i ?addr ?e (supports (kernel s2))"
    "swap_pool_table s' = (swap_pool_table s2)(f := \<lparr>sw_asid = ?asid, sw_page_no = drop_bit VPNSHIFT (entry_hi st),
          sw_pte = Some (a, of_nat i)\<rparr>)"
    "swap_pool_addr s' = swap_pool_addr s2" "tlb s' = faulted_tlb W a i ?addr ?e (supports (kernel s2)) (tlb s2)"
    "I (kernel s')" "logs_ok s'" by blast
  have e: "check_frame_occupied ?e \<Longrightarrow> \<exists>j<MAXPAGES. sw_pte ?e = Some (a, of_nat j)"
    using P(3)[of f] f by (auto simp: occupied_def)
  have "pte_entry_lo (entry_at s2 a i) AND VALIDON = 0" using assms(5) c(6) by (simp add: page_valid_def)
  then have "pool_inv a s'" by (rule pool_inv_fault[OF inv(1) i _ f refl refl asid s'(3,4,2)])
  moreover have "pte_entry_lo (entry_at s' a i) = frame_entry s2 f"
    unfolding s'(2) by (simp add: faulted_def frame_entry_def)
  moreover have "sup_asid (supports (kernel s') a) = ?asid" unfolding s'(2) by (simp add: faulted_def evicted_def)
  moreover have "tlb_unique n (tlb s')" "tlb_coherent n a (supports (kernel s')) (tlb s')"
    unfolding s'(2,5) using faulted_coherent[OF assms(6) tlb i P(2) e] by blast+
  ultimately show ?thesis using s'(1,6,7) frame_entry_valid[of s2 f] asid
    by (intro exI[of _ s']) (simp add: paging_ok_def page_valid_def)
qed

lemma access_served:
  assumes "I (kernel s)" "paging_ok n a s" "tlb_ok W n" "cause st \<noteq> CAUSE_TLB_MOD" "page_of (entry_hi st) = Some i"
  shows "\<exists>s'. access W a st s = Some s' \<and> I (kernel s') \<and> paging_ok n a s' \<and> page_valid a i s'"
proof (cases "page_valid a i s")
  case True
  then show ?thesis using assms by (simp add: access_def)
next
  case False
  have "I (kernel (passed_up a st s))" using pass_up[OF assms(1)] by (simp add: passed_up_def)
  from fault_served[OF this passed_up_same(3)[symmetric] assms(4,5) _ assms(3)] False assms(2) obtain s' where
    "support_tlb W (passed_up a st s) = Some (SExit (SLDST st) s')" "I (kernel s')" "paging_ok n a s'" "page_valid a i s'"
    by (auto simp: passed_up_same)
  then show ?thesis using False assms(5) by (simp add: access_def)
qed

text \<open>Any number of accesses: each finds its page, or gets it from the pager.\<close>

lemma accesses_served:
  assumes "tlb_ok W n" "I (kernel s)" "paging_ok n a s"
    and "\<forall>st\<in>set sts. cause st \<noteq> CAUSE_TLB_MOD \<and> page_of (entry_hi st) \<noteq> None"
  shows "\<exists>s'. accesses W a sts s = Some s' \<and> I (kernel s') \<and> paging_ok n a s'"
  using assms(2-4)
proof (induction sts arbitrary: s)
  case Nil
  then show ?case by simp
next
  case (Cons st sts)
  then obtain i where "page_of (entry_hi st) = Some i" by auto
  moreover have "cause st \<noteq> CAUSE_TLB_MOD" using Cons.prems(3) by simp
  ultimately obtain s1 where "access W a st s = Some s1" "I (kernel s1)" "paging_ok n a s1"
    using access_served[OF Cons.prems(1,2) assms(1)] by blast
  with Cons.IH[of s1] Cons.prems(3) show ?case by auto
qed

end

end
