(* ===== verification/Provider.thy ===== *)
theory Provider
  imports Contract
begin

text \<open>
  The nucleus of phase 2 under the support level of phase 3: a world whose system calls go through
  \<open>exception_handler\<close>. For a process that runs while nobody else is ready, and whose flash device answers
  every request, this world keeps the contract of the swap pool.
\<close>

section \<open>The world of the nucleus\<close>

definition nucleus_sys ::
  "umps \<Rightarrow> (u32 \<Rightarrow> kstate \<Rightarrow> kstate) \<Rightarrow> state_t \<Rightarrow> int \<Rightarrow> u32 \<Rightarrow> u32 \<Rightarrow> u32 \<Rightarrow> sstate \<Rightarrow> u32 sres option" where
  "nucleus_sys U irq st n a1 a2 a3 s =
     map_option (\<lambda>(r, k). SRet r (s\<lparr>kernel := k\<rparr>)) (nucleus_call U irq st n a1 a2 a3 (kernel s))"

definition nucleus_world :: "umps \<Rightarrow> (u32 \<Rightarrow> kstate \<Rightarrow> kstate) \<Rightarrow> state_t \<Rightarrow> world \<Rightarrow> world" where
  "nucleus_world U irq st W = W\<lparr>sys := nucleus_sys U irq st\<rparr>"

text \<open>
  The flash device of each process is one of the machine, its registers are where the headers say,
  and not among the words \<open>S\<close> that hold semaphores; and it finishes every request, with the status
  ready, by an interrupt of its own.
\<close>

definition flash_ok :: "umps \<Rightarrow> world \<Rightarrow> (u32 \<Rightarrow> kstate \<Rightarrow> kstate) \<Rightarrow> u32 set \<Rightarrow> u32 \<Rightarrow> bool" where
  "flash_ok U W irq S asid \<longleftrightarrow> (let n = unat (asid - 1); cmd = flash_command W asid;
       data = DEV_REG_ADDR W (FLASHINT W) (asid - 1) + DTP_DATA0 W in
     n < N_DEV_PER_IL U \<and> cmd = command_addr U (IL_FLASH U) n False
     \<and> cmd = devreg U (IL_FLASH U - IL_DISK U) n + RECV_COMMAND \<and> cmd \<notin> S
     \<and> data \<noteq> 0 \<and> word_aligned data \<and> data \<notin> S
     \<and> device_done U S (IL_FLASH U) n DEV_STATUS_READY (irq cmd))"

definition level_env :: "umps \<Rightarrow> world \<Rightarrow> (u32 \<Rightarrow> kstate \<Rightarrow> kstate) \<Rightarrow> state_t \<Rightarrow> u32 set \<Rightarrow> bool" where
  "level_env U W irq st S \<longleftrightarrow> machine_ok U \<and> devices_ok U \<and> registers_ok U \<and> syscall_regs U st
     \<and> IL_DISK U \<le> IL_FLASH U \<and> IL_FLASH U \<le> IL_PRINTER U
     \<and> (\<forall>x\<in>S. x \<noteq> 0 \<and> word_aligned x) \<and> device_sems U \<subseteq> S
     \<and> sem_swap_pool_table W \<in> S \<and> sem_swap_pool_table W \<notin> device_sems U
     \<and> (\<forall>asid. is_valid_asid asid \<longrightarrow> flash_ok U W irq S asid)"

text \<open>
  The process \<open>p\<close> runs with the support structure \<open>a\<close>, nobody else is ready or waits on the
  semaphores in \<open>S\<close>, the devices have nothing to do, and the semaphore of the swap pool has the value \<open>x\<close>.
\<close>

definition quiet :: "umps \<Rightarrow> world \<Rightarrow> (u32 \<Rightarrow> kstate \<Rightarrow> kstate) \<Rightarrow> state_t \<Rightarrow> u32 set \<Rightarrow> nat \<Rightarrow> u32 \<Rightarrow> u32 \<Rightarrow> kstate \<Rightarrow> bool" where
  "quiet U W irq st S p a x k \<longleftrightarrow> level_env U W irq st S \<and> p_support (pcb_table k p) = a
     \<and> mem k (sem_swap_pool_table W) = x \<and> (\<forall>y\<in>device_sems U. mem k y = 0)
     \<and> (\<exists>v. runs_alone p k v \<and> (\<forall>y\<in>S. waiting k v y = []))"

lemma quiet_keeps:
  assumes "quiet U W irq st S p a x k" "runs_alone p k' v'" "\<forall>y\<in>S. waiting k' v' y = []" "same_supports k k'"
    and "\<forall>y\<in>device_sems U. mem k' y = mem k y"
  shows "quiet U W irq st S p a (mem k' (sem_swap_pool_table W)) k'"
  using assms unfolding quiet_def same_supports_def by auto

lemma quietD:
  assumes "quiet U W irq st S p a x k"
  shows "level_env U W irq st S" "p_support (pcb_table k p) = a" "mem k (sem_swap_pool_table W) = x"
    "\<forall>y\<in>device_sems U. mem k y = 0" "\<exists>v. runs_alone p k v \<and> (\<forall>y\<in>S. waiting k v y = [])"
  using assms by (simp_all add: quiet_def)

lemma level_envD:
  assumes "level_env U W irq st S"
  shows "machine_ok U" "devices_ok U" "registers_ok U" "syscall_regs U st" "IL_DISK U \<le> IL_FLASH U" "IL_FLASH U \<le> IL_PRINTER U"
    "x \<in> S \<Longrightarrow> x \<noteq> 0 \<and> word_aligned x" "device_sems U \<subseteq> S" "sem_swap_pool_table W \<in> S" "sem_swap_pool_table W \<notin> device_sems U"
    "is_valid_asid asid \<Longrightarrow> flash_ok U W irq S asid"
  using assms by (simp_all add: level_env_def)

lemma flash_okD:
  assumes "flash_ok U W irq S asid"
  shows "unat (asid - 1) < N_DEV_PER_IL U" "flash_command W asid = command_addr U (IL_FLASH U) (unat (asid - 1)) False"
    "flash_command W asid = devreg U (IL_FLASH U - IL_DISK U) (unat (asid - 1)) + RECV_COMMAND" "flash_command W asid \<notin> S"
    "device_done U S (IL_FLASH U) (unat (asid - 1)) DEV_STATUS_READY (irq (flash_command W asid))"
    "DEV_REG_ADDR W (FLASHINT W) (asid - 1) + DTP_DATA0 W \<noteq> 0"
    "word_aligned (DEV_REG_ADDR W (FLASHINT W) (asid - 1) + DTP_DATA0 W)"
    "DEV_REG_ADDR W (FLASHINT W) (asid - 1) + DTP_DATA0 W \<notin> S"
  using assms unfolding flash_ok_def Let_def by blast+

text \<open>The kernel's own data decides what \<open>runs_alone\<close> and \<open>waiting\<close> say.\<close>

lemma runs_alone_same:
  assumes "runs_alone p k v" "same_kernel k k'" "active_process k' = active_process k" "yield_process k' = yield_process k"
  shows "runs_alone p k' v" "waiting k' v = waiting k v"
  using assms kernel_ok_same[OF _ assms(2-4)] same_kernel_inv(2)[OF assms(2)] by (simp_all add: runs_alone_def)

lemma quiet_updates:
  assumes "quiet U W irq st S p a x k"
  shows "quiet U W irq st S p a x (k\<lparr>cp0_status := y\<rparr>)" "quiet U W irq st S p a x (k\<lparr>supports := f\<rparr>)"
    "z \<notin> S \<Longrightarrow> quiet U W irq st S p a x (k\<lparr>mem := (mem k)(z := y)\<rparr>)"
proof -
  obtain v where v: "runs_alone p k v" "\<forall>y\<in>S. waiting k v y = []" using quietD(5)[OF assms] by blast
  note E = level_envD[OF quietD(1)[OF assms]]
  have "same_kernel k (k\<lparr>cp0_status := y\<rparr>)" "same_kernel k (k\<lparr>supports := f\<rparr>)" "same_kernel k (k\<lparr>mem := m\<rparr>)" for m
    by (simp_all add: same_kernel_def)
  note same = this[THEN runs_alone_same(1)[OF v(1)]] this[THEN runs_alone_same(2)[OF v(1)]]
  show "quiet U W irq st S p a x (k\<lparr>cp0_status := y\<rparr>)" "quiet U W irq st S p a x (k\<lparr>supports := f\<rparr>)"
    using assms same v(2) unfolding quiet_def by auto
  assume "z \<notin> S"
  then have "z \<noteq> sem_swap_pool_table W" "\<forall>y\<in>device_sems U. y \<noteq> z" using E(8,9) by auto
  then show "quiet U W irq st S p a x (k\<lparr>mem := (mem k)(z := y)\<rparr>)"
    using quietD(1-4)[OF assms] same v(2) unfolding quiet_def by (intro conjI exI[of _ v]) simp_all
qed

section \<open>The nucleus keeps the contract\<close>

lemma gives_toI:
  assumes "\<And>k. I k \<Longrightarrow> \<exists>k'. nucleus_call U irq st n b c d k = Some (r, k') \<and> J k' \<and> supports k' = supports k"
  shows "gives_to (nucleus_world U irq st W) I J n b c d r"
  unfolding gives_to_def
proof (intro allI impI)
  fix s :: sstate assume "I (kernel s)"
  from assms[OF this] show "\<exists>k. sys (nucleus_world U irq st W) n b c d s = Some (SRet r (s\<lparr>kernel := k\<rparr>)) \<and> J k \<and> supports k = supports (kernel s)"
    by (auto simp: nucleus_world_def nucleus_sys_def)
qed

lemma nucleus_gives_support:
  "gives_to (nucleus_world U irq st W) (quiet U W irq st S p a x) (quiet U W irq st S p a x) GETSUPPORTPTR 0 0 0 a"
proof (rule gives_toI)
  fix k assume q: "quiet U W irq st S p a x k"
  note E = level_envD[OF quietD(1)[OF q]]
  obtain v where v: "runs_alone p k v" "\<forall>y\<in>S. waiting k v y = []" using quietD(5)[OF q] by blast
  from nucleus_get_support[OF v(1) E(4), of irq 0 0 0] obtain k' v' where
    k': "nucleus_call U irq st GETSUPPORTPTR 0 0 0 k = Some (p_support (pcb_table k p), k')" "runs_alone p k' v'"
      "waiting k' v' = waiting k v" "mem k' = mem k" "same_supports k k'" by blast
  have "quiet U W irq st S p a x k'"
    using quiet_keeps[OF q k'(2) _ k'(5)] v(2) k'(3,4) quietD(3)[OF q] by simp
  then show "\<exists>k'. nucleus_call U irq st GETSUPPORTPTR 0 0 0 k = Some (a, k') \<and> quiet U W irq st S p a x k' \<and> supports k' = supports k"
    using k'(1,5) quietD(2)[OF q] by (auto simp: same_supports_def)
qed

lemma nucleus_locks:
  "gives_to (nucleus_world U irq st W) (quiet U W irq st S p a 1) (quiet U W irq st S p a 0)
     PASSEREN (sem_swap_pool_table W) 0 0 (gpr st reg_v0)"
  "gives_to (nucleus_world U irq st W) (quiet U W irq st S p a 0) (quiet U W irq st S p a 1)
     VERHOGEN (sem_swap_pool_table W) 0 0 (gpr st reg_v0)"
proof -
  let ?m = "sem_swap_pool_table W"
  have step: "\<exists>k'. nucleus_call U irq st n ?m 0 0 k = Some (gpr st reg_v0, k') \<and> quiet U W irq st S p a y k' \<and> supports k' = supports k"
    if q: "quiet U W irq st S p a x k"
      and k': "nucleus_call U irq st n ?m 0 0 k = Some (gpr st reg_v0, k')" "runs_alone p k' v'"
        "waiting k' v' = waiting k v" "mem k' = (mem k)(?m := y)" "same_supports k k'"
      and v: "\<forall>y\<in>S. waiting k v y = []" for n x y k v k' v'
  proof -
    have "\<forall>z\<in>device_sems U. mem k' z = mem k z" using level_envD(10)[OF quietD(1)[OF q]] k'(4) by auto
    from quiet_keeps[OF q k'(2) _ k'(5) this] v k'(3,4) have "quiet U W irq st S p a y k'" by simp
    then show ?thesis using k'(1,5) by (auto simp: same_supports_def)
  qed
  show "gives_to (nucleus_world U irq st W) (quiet U W irq st S p a 1) (quiet U W irq st S p a 0) PASSEREN ?m 0 0 (gpr st reg_v0)"
  proof (rule gives_toI)
    fix k assume q: "quiet U W irq st S p a 1 k"
    note E = level_envD[OF quietD(1)[OF q]]
    obtain v where v: "runs_alone p k v" "\<forall>y\<in>S. waiting k v y = []" using quietD(5)[OF q] by blast
    from nucleus_passeren[OF v(1) E(4), of ?m irq 0 0] E(7)[OF E(9)] v(2) E(9) quietD(3)[OF q] obtain k' v' where
      "nucleus_call U irq st PASSEREN ?m 0 0 k = Some (gpr st reg_v0, k')" "runs_alone p k' v'"
      "waiting k' v' = waiting k v" "mem k' = (mem k)(?m := 0)" "same_supports k k'" by auto
    from step[OF q this v(2)]
    show "\<exists>k'. nucleus_call U irq st PASSEREN ?m 0 0 k = Some (gpr st reg_v0, k') \<and> quiet U W irq st S p a 0 k' \<and> supports k' = supports k" .
  qed
  show "gives_to (nucleus_world U irq st W) (quiet U W irq st S p a 0) (quiet U W irq st S p a 1) VERHOGEN ?m 0 0 (gpr st reg_v0)"
  proof (rule gives_toI)
    fix k assume q: "quiet U W irq st S p a 0 k"
    note E = level_envD[OF quietD(1)[OF q]]
    obtain v where v: "runs_alone p k v" "\<forall>y\<in>S. waiting k v y = []" using quietD(5)[OF q] by blast
    from nucleus_verhogen[OF v(1) E(4), of ?m irq 0 0] E(7)[OF E(9)] v(2) E(9) quietD(3)[OF q] obtain k' v' where
      "nucleus_call U irq st VERHOGEN ?m 0 0 k = Some (gpr st reg_v0, k')" "runs_alone p k' v'"
      "waiting k' v' = waiting k v" "mem k' = (mem k)(?m := 1)" "same_supports k k'" by auto
    from step[OF q this v(2)]
    show "\<exists>k'. nucleus_call U irq st VERHOGEN ?m 0 0 k = Some (gpr st reg_v0, k') \<and> quiet U W irq st S p a 1 k' \<and> supports k' = supports k" .
  qed
qed

lemma nucleus_serves_flash:
  "flash_gives (nucleus_world U irq st W) (quiet U W irq st S p a x) (\<lambda>_ _. DEV_STATUS_READY)"
  unfolding flash_gives_def
proof (intro allI impI gives_toI)
  fix asid cmd k assume asid: "is_valid_asid asid" and q: "quiet U W irq st S p a x k"
  let ?n = "unat (asid - 1)" and ?c = "flash_command (nucleus_world U irq st W) asid"
  note E = level_envD[OF quietD(1)[OF q]]
  have c: "?c = flash_command W asid" by (simp add: nucleus_world_def)
  have F: "?n < N_DEV_PER_IL U" "?c = command_addr U (IL_FLASH U) ?n False"
    "?c = devreg U (IL_FLASH U - IL_DISK U) ?n + RECV_COMMAND" "?c \<notin> S"
    "device_done U S (IL_FLASH U) ?n DEV_STATUS_READY (irq ?c)"
    using flash_okD(1-5)[OF E(11)[OF asid]] unfolding c by blast+
  obtain v where v: "runs_alone p k v" "\<forall>y\<in>S. waiting k v y = []" using quietD(5)[OF q] by blast
  let ?sem = "sem_addr_of U (int (sem_index U (IL_FLASH U) ?n False))"
  have "lines_ok U" "IL_FLASH U \<le> IL_TERMINAL U" "?n < DEVPERINT U"
    using E(1,2,6) F(1) by (auto simp: machine_ok_def devices_ok_def)
  then have "?sem \<in> device_sems U" using sem_index_bound[of U "IL_FLASH U" ?n False] E(5) by (auto simp: device_sems_def)
  then have idle: "waiting k v ?sem = []" using v(2) E(8) by auto
  have "(DEV_STATUS_READY :: u32) AND TERMSTATMASK \<noteq> DEV_STATUS_NOTINSTALLED" by simp
  from nucleus_do_io[where irq = irq and cmd = ?c and val = cmd and c = 0, OF v(1) E(4,1,2,3,5,6) F(1-3) refl idle quietD(4)[OF q] F(5) this E(8) F(4)]
  obtain k' v' where k': "nucleus_call U irq st DOIO ?c cmd 0 k = Some (DEV_STATUS_READY, k')" "runs_alone p k' v'"
    "waiting k' v' = waiting k v" "\<forall>x\<in>S. mem k' x = mem k x" "same_supports k k'" by blast
  have "quiet U W irq st S p a x k'"
    using quiet_keeps[OF q k'(2) _ k'(5)] v(2) k'(3,4) E(8,9) quietD(3)[OF q] by auto
  then show "\<exists>k'. nucleus_call U irq st DOIO ?c cmd 0 k = Some (DEV_STATUS_READY, k') \<and> quiet U W irq st S p a x k' \<and> supports k' = supports k"
    using k'(1,5) by (auto simp: same_supports_def)
qed

lemma nucleus_undisturbed: "undisturbed (nucleus_world U irq st W) (quiet U W irq st S p a x)"
  unfolding undisturbed_def
proof (intro allI impI conjI)
  fix k assume q: "quiet U W irq st S p a x k"
  show "quiet U W irq st S p a x (k\<lparr>cp0_status := y\<rparr>)" "quiet U W irq st S p a x (k\<lparr>supports := f\<rparr>)" for y f
    using quiet_updates(1,2)[OF q] by simp_all
  fix asid y assume "is_valid_asid asid"
  then show "\<exists>k'. store_word (DEV_REG_ADDR (nucleus_world U irq st W)
      (FLASHINT (nucleus_world U irq st W)) (asid - 1) + DTP_DATA0 (nucleus_world U irq st W)) y k = Some k' \<and> quiet U W irq st S p a x k'"
    using quiet_updates(3)[OF q] flash_okD(6-8)[OF level_envD(11)[OF quietD(1)[OF q]]]
    by (simp add: nucleus_world_def store_word_def)
qed

interpretation nucleus: swap_pool_services "nucleus_world U irq st W" "quiet U W irq st S p a 1" "quiet U W irq st S p a 0"
  a "gpr st reg_v0" "gpr st reg_v0" for U irq st W S p a
proof unfold_locales
  have m: "sem_swap_pool_table (nucleus_world U irq st W) = sem_swap_pool_table W" by (simp add: nucleus_world_def)
  show "gives_to (nucleus_world U irq st W) (quiet U W irq st S p a 1) (quiet U W irq st S p a 1) GETSUPPORTPTR 0 0 0 a"
    by (rule nucleus_gives_support)
  show "gives_to (nucleus_world U irq st W) (quiet U W irq st S p a 1) (quiet U W irq st S p a 0) PASSEREN
      (sem_swap_pool_table (nucleus_world U irq st W)) 0 0 (gpr st reg_v0)"
    unfolding m by (rule nucleus_locks(1))
  show "gives_to (nucleus_world U irq st W) (quiet U W irq st S p a 0) (quiet U W irq st S p a 1) VERHOGEN
      (sem_swap_pool_table (nucleus_world U irq st W)) 0 0 (gpr st reg_v0)"
    unfolding m by (rule nucleus_locks(2))
  show "flash_gives (nucleus_world U irq st W) (quiet U W irq st S p a 0) (\<lambda>_ _. DEV_STATUS_READY)"
    by (rule nucleus_serves_flash)
  show "undisturbed (nucleus_world U irq st W) (quiet U W irq st S p a 0)" by (rule nucleus_undisturbed)
  show "quiet U W irq st S p a 1 k \<Longrightarrow> quiet U W irq st S p a 1 (k\<lparr>supports := f\<rparr>)" for k f
    by (rule quiet_updates(2))
qed

end
