(* ===== verification/Mutex.thy ===== *)
theory Mutex
  imports Services
begin

text \<open>
  A word of memory as a lock. Processes that share a semaphore, as the user processes share the one
  of the swap pool table (\<^verbatim>\<open>phase3/src/pager.c\<close>), ask the nucleus for it with PASSEREN and give it back with
  VERHOGEN. The theory shows that at most one of them has it, whatever else the processor is asked
  to do in between: first that every other call and every interrupt leaves the word and the queue of
  those who wait for it alone (\<open>spares\<close>), then that the two calls keep the lock (\<open>lock_ok\<close>), and so
  every sequence of exceptions does (\<open>locking\<close>).
\<close>

section \<open>Who waits for a word\<close>

text \<open>As the process control blocks have it: a process is alive if it has an identifier.\<close>

definition alive :: "kstate \<Rightarrow> nat set" where
  "alive s = {i. i < MAX_PROC \<and> p_pid (pcb_table s i) \<noteq> NULL_PID}"

definition waits_for :: "u32 \<Rightarrow> kstate \<Rightarrow> nat set" where
  "waits_for k s = {i \<in> alive s. p_sem_add (pcb_table s i) = k}"

lemma alive_live:
  assumes "sched_inv s v"
  shows "alive s = {i. live v i}"
proof -
  have "i \<in> alive s \<longleftrightarrow> live v i" for i
  proof (cases "i < MAX_PROC")
    case True
    then have "if live v i then p_pid (pcb_table s i) \<noteq> NULL_PID else p_pid (pcb_table s i) = NULL_PID"
      using sched_invD(2)[OF assms] unfolding pids_ok_def by (metis (full_types))
    with True show ?thesis by (auto simp: alive_def split: if_splits)
  qed (simp add: alive_def live_def)
  then show ?thesis by auto
qed

lemma waits_for_waiting:
  assumes "sched_inv s v" "k \<noteq> 0"
  shows "waits_for k s = set (waiting s v k)"
proof -
  note A = sched_invD(1)[OF assms(1)]
  have "i \<in> waits_for k s \<longleftrightarrow> i \<in> set (waiting s v k)" for i
  proof
    assume "i \<in> waits_for k s"
    then have i: "live v i" "p_sem_add (pcb_table s i) = k" by (auto simp: waits_for_def alive_live[OF assms(1)])
    then have "blocked v i" using asl_relD(8)[OF A] assms(2) by simp
    then show "i \<in> set (waiting s v k)" using blocked_live(3)[OF A] i(2) by blast
  next
    assume i: "i \<in> set (waiting s v k)"
    then show "i \<in> waits_for k s"
      using waiting_sem_add(1,2)[OF A i] blocked_live(1)[OF A] by (simp add: waits_for_def alive_live[OF assms(1)])
  qed
  then show ?thesis by blast
qed

section \<open>What leaves a lock alone\<close>

text \<open>
  A step keeps a word if its value, those who wait for it and those who live are the same; it spares
  the word if some of the processes may have died and others come into being.
\<close>

definition keeps :: "u32 \<Rightarrow> kstate \<Rightarrow> kstate \<Rightarrow> bool" where
  "keeps k s s' \<longleftrightarrow> mem s' k = mem s k \<and> waits_for k s' = waits_for k s \<and> alive s' = alive s"

definition spares :: "u32 \<Rightarrow> kstate \<Rightarrow> kstate \<Rightarrow> bool" where
  "spares k s s' \<longleftrightarrow> mem s' k = mem s k \<and> waits_for k s' = waits_for k s \<inter> alive s'"

lemma keeps_refl [simp]: "keeps k s s"
  by (simp add: keeps_def)

lemma keeps_trans: "keeps k s t \<Longrightarrow> keeps k t u \<Longrightarrow> keeps k s u"
  by (simp add: keeps_def)

lemma keeps_spares: "keeps k s t \<Longrightarrow> spares k s t"
  by (auto simp: keeps_def spares_def waits_for_def)

lemma keeps_spares_trans: "keeps k s t \<Longrightarrow> spares k t u \<Longrightarrow> spares k s u"
  by (simp add: keeps_def spares_def)

lemma spares_keeps_trans: "spares k s t \<Longrightarrow> keeps k t u \<Longrightarrow> spares k s u"
  by (simp add: keeps_def spares_def)

lemma same_kernel_keeps:
  assumes "same_kernel s s'" "mem s' k = mem s k"
  shows "keeps k s s'"
  using assms by (simp add: keeps_def waits_for_def alive_def same_kernel_def)

lemma views_spare:
  assumes "sched_inv s v" "sched_inv s' v'" "k \<noteq> 0" "mem s' k = mem s k"
    and "set (waiting s' v' k) = set (waiting s v k) \<inter> {i. live v' i}"
  shows "spares k s s'"
  using assms by (simp add: spares_def waits_for_waiting alive_live)

lemma views_keep:
  assumes "sched_inv s v" "sched_inv s' v'" "k \<noteq> 0" "mem s' k = mem s k"
    and "waiting s' v' k = waiting s v k" "live v' = live v"
  shows "keeps k s s'"
  using assms by (simp add: keeps_def waits_for_waiting alive_live)

text \<open>The same of a result, whether it returns or lets a process run on.\<close>

definition result_all :: "(kstate \<Rightarrow> bool) \<Rightarrow> 'a kres option \<Rightarrow> bool" where
  "result_all Q m \<longleftrightarrow> (case m of None \<Rightarrow> True
   | Some (Ret _ s) \<Rightarrow> Q s | Some (Exit e s) \<Rightarrow> resumes e \<longrightarrow> Q s)"

lemma result_all_simps [simp]:
  "result_all Q None" "result_all Q (Some (Ret x s)) = Q s" "result_all Q (Some (Exit e s)) = (resumes e \<longrightarrow> Q s)"
  "result_all Q (scheduler_panic msg s)"
  by (simp_all add: result_all_def scheduler_panic_def)

lemma result_all_mono: "result_all Q m \<Longrightarrow> (\<And>s. Q s \<Longrightarrow> R s) \<Longrightarrow> result_all R m"
  by (auto simp: result_all_def split: option.splits kres.splits)

lemma result_all_bind:
  assumes "result_all Q m" "\<And>x s. m = Some (Ret x s) \<Longrightarrow> Q s \<Longrightarrow> result_all R (f x s)"
    and "\<And>s. Q s \<Longrightarrow> R s"
  shows "result_all R (kbind m f)"
  using assms by (auto simp: result_all_def kbind_def split: option.splits kres.splits)

lemma keeps_bind:
  assumes "result_all (keeps k s) m" "\<And>x s'. result_all (keeps k s') (f x s')"
  shows "result_all (keeps k s) (kbind m f)"
  using assms(1) by (rule result_all_bind) (use result_all_mono[OF assms(2)] keeps_trans in blast)+

section \<open>The handlers spare a lock\<close>

lemma killed_spares:
  assumes "killed D s v s' v'" "sched_inv s v" "k \<noteq> 0"
  shows "spares k s s'"
proof (rule views_spare[OF assms(2) _ assms(3)])
  show "sched_inv s' v'" "mem s' k = mem s k" using assms(1) by (simp_all add: killed_def same_rest_def)
  show "set (waiting s' v' k) = set (waiting s v k) \<inter> {i. live v' i}"
    using assms(1) blocked_live(1)[OF sched_invD(1)[OF assms(2)]] waiting_sem_add(1)[OF sched_invD(1)[OF assms(2)]]
    by (auto simp: killed_def)
qed

lemma pass_up_or_die_spares:
  assumes "kernel_ok s v" "k \<noteq> 0"
  shows "result_all (spares k s) (pass_up_or_die type s)"
proof (cases "active_process s")
  case None
  then show ?thesis by (simp add: pass_up_or_die_def keeps_spares)
next
  case (Some a)
  show ?thesis
  proof (cases "p_support (pcb_table s a) = 0")
    case True
    then show ?thesis using die_rel[OF assms(1) Some, of type] killed_spares[OF _ kernel_okD(1)[OF assms(1)] assms(2)] by auto
  next
    case False
    then have "keeps k s (s\<lparr>supports := S\<rparr>)" for S
      by (intro same_kernel_keeps) (simp_all add: same_kernel_def)
    then show ?thesis using False Some by (simp add: pass_up_or_die_def Let_def keeps_spares)
  qed
qed

text \<open>P and V on another semaphore.\<close>

lemma sem_effect_keeps:
  assumes "sem_effect l xq r s v s' v'" "sched_inv s v" "k \<noteq> 0" "k \<noteq> l"
  shows "keeps k s s'"
proof (rule views_keep[OF assms(2) _ assms(3)])
  show "sched_inv s' v'" "mem s' k = mem s k" "waiting s' v' k = waiting s v k" "live v' = live v"
    using assms by (auto simp: sem_effect_def live_def fun_eq_iff)
qed

lemma P_keeps:
  assumes "kernel_ok s v" "active_process s = Some a" "l \<noteq> 0" "word_aligned l" "k \<noteq> 0" "k \<noteq> l"
  shows "result_all (keeps k s) (P l (Some a) s)"
proof -
  note K = kernel_okD[OF assms(1)]
  obtain xq r where x: "sem_P a (mem s l, waiting s v l) = (xq, r)" by fastforce
  then show ?thesis
    using P_refines[OF K(1) K(3)[OF assms(2)] assms(3,4) x] sem_effect_keeps[OF _ K(1) assms(5,6)] by (cases xq) auto
qed

lemma V_keeps:
  assumes "kernel_ok s v" "active_process s = Some a" "l \<noteq> 0" "word_aligned l" "k \<noteq> 0" "k \<noteq> l"
  shows "result_all (keeps k s) (V l s)"
proof -
  note K = kernel_okD[OF assms(1)]
  obtain xq r where x: "sem_V a (mem s l, waiting s v l) = (xq, r)" by fastforce
  then show ?thesis
    using V_refines[OF K(1) assms(2) K(3)[OF assms(2)] assms(3,4) x] sem_effect_keeps[OF _ K(1) assms(5,6)] by (cases xq) auto
qed

lemma V_interrupt_keeps:
  assumes "kernel_ok s v" "mem s l \<noteq> 1" "l \<noteq> 0" "word_aligned l" "k \<noteq> 0" "k \<noteq> l"
  shows "result_all (keeps k s) (V l s)"
proof -
  note K = kernel_okD[OF assms(1)]
  show ?thesis
  proof (cases "waiting s v l")
    case Nil
    from V_pass[OF K(1) assms(2) this assms(3,4)] sem_effect_keeps[OF _ K(1) assms(5,6)] show ?thesis by auto
  next
    case (Cons t q)
    from V_wake[OF K(1) assms(2) this] sem_effect_keeps[OF _ K(1) assms(5,6)] show ?thesis by auto
  qed
qed

text \<open>
  A word that can serve as a lock: not one of the nucleus's own semaphores, and not a register
  through which the nucleus commands a device.
\<close>

definition lock_word :: "umps \<Rightarrow> u32 \<Rightarrow> bool" where
  "lock_word U k \<longleftrightarrow> k \<noteq> 0 \<and> word_aligned k
     \<and> (\<forall>j<SEMAPHORES_NUM U. sem_addr_of U (int j) \<noteq> k)
     \<and> (\<forall>il n. IL_DISK U \<le> il \<and> il \<le> IL_TERMINAL U \<and> n < N_DEV_PER_IL U \<longrightarrow>
          devreg U (il - IL_DISK U) n + RECV_COMMAND \<noteq> k \<and> devreg U (il - IL_DISK U) n + TRANSM_COMMAND \<noteq> k)"

lemma lock_wordD:
  assumes "lock_word U k"
  shows "k \<noteq> 0" "word_aligned k" "j < SEMAPHORES_NUM U - 1 \<Longrightarrow> k \<noteq> sem_addr_of U (int j)" "k \<noteq> get_timer_semaphore U"
    "IL_DISK U \<le> il \<Longrightarrow> il \<le> IL_TERMINAL U \<Longrightarrow> n < N_DEV_PER_IL U \<Longrightarrow> k \<noteq> devreg U (il - IL_DISK U) n + RECV_COMMAND"
    "IL_DISK U \<le> il \<Longrightarrow> il \<le> IL_TERMINAL U \<Longrightarrow> n < N_DEV_PER_IL U \<Longrightarrow> k \<noteq> devreg U (il - IL_DISK U) n + TRANSM_COMMAND"
proof -
  have e: "int (SEMAPHORES_NUM U) - 1 = int (SEMAPHORES_NUM U - 1)" "SEMAPHORES_NUM U - 1 < SEMAPHORES_NUM U"
    by (simp_all add: SEMAPHORES_NUM_def)
  show "k \<noteq> get_timer_semaphore U" using assms e(2) unfolding get_timer_semaphore_def e(1) lock_word_def by blast
  show "k \<noteq> sem_addr_of U (int j)" if "j < SEMAPHORES_NUM U - 1"
    using assms less_trans[OF that e(2)] unfolding lock_word_def by blast
qed (use assms in \<open>auto simp: lock_word_def\<close>)

lemma create_process_spares:
  assumes "kernel_ok s v" "active_process s = Some a" "k \<noteq> 0"
  shows "result_all (spares k s) (syscall_create_process U a s)"
proof -
  note K = kernel_okD[OF assms(1)]
  let ?prio = "get_reg a reg_a2 s" and ?ps = "get_reg a reg_a1 s"
  show ?thesis
  proof (cases "?prio \<notin> {0, 1} \<or> ?ps = 0")
    case True
    then show ?thesis using pass_up_or_die_spares[OF assms(1,3)] by (auto simp: syscall_create_process_def)
  next
    case False
    then have prio: "?prio \<in> {0, 1}" "?ps \<noteq> 0" by simp_all
    show ?thesis
    proof (cases "v_free v")
      case Nil
      have "keeps k s (set_reg a reg_v0 0 s)" by (simp add: same_kernel_keeps same_kernel_set_reg)
      then show ?thesis using prio spawn_process_full[OF sched_invD(8)[OF K(1)] Nil]
        by (auto simp: syscall_create_process_def intro: keeps_spares)
    next
      case (Cons c fs)
      obtain s' v' where c: "syscall_create_process U a s = Some (Ret (CONTROL_PRESERVE (Some a)) s')" "created s v a c s' v'"
        using create_process_child[OF assms(1,2) Cons prio] by blast
      have "spares k s s'"
      proof (rule views_spare[OF K(1) _ assms(3)])
        show "sched_inv s' v'" "mem s' k = mem s k" using c(2) by (simp_all add: created_def kernel_ok_def)
        show "set (waiting s' v' k) = set (waiting s v k) \<inter> {i. live v' i}"
          using c(2) waiting_sem_add(1)[OF sched_invD(1)[OF K(1)]] blocked_live(1)[OF sched_invD(1)[OF K(1)]]
          by (auto simp: created_def)
      qed
      then show ?thesis using c(1) by simp
    qed
  qed
qed

lemma terminate_process_spares:
  assumes "kernel_ok s v" "active_process s = Some a" "k \<noteq> 0"
  shows "result_all (spares k s) (syscall_terminate_process a s)"
proof (cases "get_reg a reg_a1 s = 0 \<or> find_process (get_reg a reg_a1 s) s = None")
  case True
  then show ?thesis using pass_up_or_die_spares[OF assms(1,3)] by (auto simp: syscall_terminate_process_def Let_def)
next
  case False
  then obtain i where "get_reg a reg_a1 s \<noteq> 0" "find_process (get_reg a reg_a1 s) s = Some i" by auto
  from terminate_process_rel[OF assms(1,2) this] killed_spares[OF _ kernel_okD(1)[OF assms(1)] assms(3)]
  show ?thesis by auto
qed

lemma passeren_spares:
  assumes "kernel_ok s v" "active_process s = Some a" "word_aligned (get_reg a reg_a1 s)" "k \<noteq> 0" "get_reg a reg_a1 s \<noteq> k"
  shows "result_all (spares k s) (syscall_passeren a s)"
proof (cases "get_reg a reg_a1 s = 0")
  case True
  then show ?thesis using pass_up_or_die_spares[OF assms(1,4)] by (simp add: syscall_passeren_def)
next
  case False
  from result_all_mono[OF P_keeps[OF assms(1,2) False assms(3,4)] keeps_spares] assms(5) show ?thesis
    using False assms(2) by (simp add: syscall_passeren_def)
qed

lemma verhogen_spares:
  assumes "kernel_ok s v" "active_process s = Some a" "word_aligned (get_reg a reg_a1 s)" "k \<noteq> 0" "get_reg a reg_a1 s \<noteq> k"
  shows "result_all (spares k s) (syscall_verhogen a s)"
proof (cases "get_reg a reg_a1 s = 0")
  case True
  then show ?thesis using pass_up_or_die_spares[OF assms(1,4)] by (simp add: syscall_verhogen_def)
next
  case False
  have "result_all (keeps k s) (V (get_reg a reg_a1 s) s)" using V_keeps[OF assms(1,2) False assms(3,4)] assms(5) by simp
  then show ?thesis
    using False by (auto simp: syscall_verhogen_def intro!: result_all_bind[where Q = "keeps k s"] keeps_spares)
qed

lemma do_io_spares:
  assumes "kernel_ok s v" "active_process s = Some a" "word_aligned (get_reg a reg_a1 s)" "machine_ok U"
    and "lock_word U k" "get_reg a reg_a1 s \<noteq> k"
  shows "result_all (spares k s) (syscall_do_io U a s)"
proof (cases "get_reg a reg_a1 s = 0")
  case True
  then show ?thesis using pass_up_or_die_spares[OF assms(1)] lock_wordD(1)[OF assms(5)] by (simp add: syscall_do_io_def)
next
  case False
  have M: "sems_ok U" "lines_ok U" "DEV_REG_SIZE U \<noteq> 0" using assms(4) by (simp_all add: machine_ok_def)
  note L = lock_wordD[OF assms(5)]
  show ?thesis
  proof (cases rule: get_iodev_cases[OF M(2,3), of "get_reg a reg_a1 s" s])
    case 1
    then show ?thesis using False by (simp add: syscall_do_io_def scheduler_panic_def)
  next
    case (2 dev j)
    have d: "semaphore dev \<noteq> 0" "word_aligned (semaphore dev)" "k \<noteq> semaphore dev"
      using sem_addr_facts(1,2)[OF M(1), of j] L(3)[OF 2(2)] 2(2,3) by simp_all
    note D = do_io_unfold[OF assms(2) False 2(1) assms(1) d(1,2)]
    consider "waiting s v (semaphore dev) \<noteq> []" | "waiting s v (semaphore dev) = []" "sint (mem s (semaphore dev)) > 0"
      | (go) "waiting s v (semaphore dev) = []" "sint (mem s (semaphore dev)) \<le> 0" by linarith
    then show ?thesis
    proof cases
      case 1
      then show ?thesis using D(1) pass_up_or_die_spares[OF assms(1) L(1)] by simp
    next
      case 2
      then show ?thesis using D(2) by simp
    next
      case go
      show ?thesis unfolding D(3)[OF go]
        by (intro result_all_bind[OF P_keeps[OF assms(1,2) d(1,2) L(1) d(3)] _ keeps_spares])
          (use False assms(3,6) in \<open>auto simp: store_word_def same_kernel_def
             intro!: keeps_spares elim!: keeps_trans intro: same_kernel_keeps\<close>)
    qed
  qed
qed

text \<open>
  A system call that asks for a service of the word: the number of the call, and the word as its
  first argument, in the registers of a process that runs in kernel mode.
\<close>

definition asks :: "umps \<Rightarrow> kstate \<Rightarrow> int \<Rightarrow> u32 \<Rightarrow> bool" where
  "asks U s n k \<longleftrightarrow> CAUSE_GET_EXCCODE U (cp0_cause s) = 8 \<and> active_process s \<noteq> None
     \<and> drop_bit 31 (push_bit 28 (status (states s BIOSDATAPAGE))) = 0
     \<and> sint (gpr (states s BIOSDATAPAGE) reg_a0) = n \<and> gpr (states s BIOSDATAPAGE) reg_a1 = k"

lemma set_reg_result_spares:
  "result_all (spares k s) (Some (Ret (CONTROL_RESCHEDULE (set_reg a reg_v0 x s)) (set_reg a reg_v0 x s)))"
  by (simp add: keeps_spares same_kernel_keeps same_kernel_set_reg)

lemma syscall_handler_spares:
  assumes "kernel_ok s v" "active_process s = Some a" "syscall_args_ok (p_s (pcb_table s a))" "machine_ok U" "lock_word U k"
    and "is_user_mode s = Some 0 \<Longrightarrow> sint (get_reg a reg_a0 s) \<in> {PASSEREN, VERHOGEN, DOIO} \<Longrightarrow> get_reg a reg_a1 s \<noteq> k"
  shows "result_all (spares k s) (syscall_handler U s)"
proof -
  let ?id = "sint (get_reg a reg_a0 s)"
  note L = lock_wordD[OF assms(5)] and pud = pass_up_or_die_spares[OF _ lock_wordD(1)[OF assms(5)]]
  have M: "sems_ok U" using assms(4) by (simp add: machine_ok_def)
  obtain u where u: "is_user_mode s = Some u" using assms(2) by (simp add: is_user_mode_def)
  note S = syscall_handler_def assms(2) u Let_def
  consider (user) "?id \<le> 0" "u \<noteq> 0" | (kernel) "\<not> (?id \<le> 0 \<and> u \<noteq> 0)" by blast
  then show ?thesis
  proof cases
    case user
    let ?s = "upd_pcb a (\<lambda>p. p\<lparr>p_s := (p_s p)\<lparr>cause := cause_reserved_instruction U (cause (p_s p))\<rparr>\<rparr>)
      (upd_pcb a (\<lambda>p. p\<lparr>p_s := (p_s p)\<lparr>cause := cause_clean (cause (p_s p))\<rparr>\<rparr>) s)"
    have same: "same_kernel s ?s" "active_process ?s = active_process s" "yield_process ?s = yield_process s" "mem ?s = mem s"
      by (simp_all add: same_kernel_def)
    have "keeps k s ?s" using same_kernel_keeps[OF same(1)] same(4) by simp
    then have "result_all (spares k s) (pass_up_or_die GENERALEXCEPT ?s)"
      using pud[OF kernel_ok_same[OF assms(1) same(1-3)]] keeps_spares_trans result_all_mono by blast
    then show ?thesis using user by (simp add: S)
  next
    case kernel
    have aligned: "word_aligned (get_reg a reg_a1 s)" if "?id \<in> {PASSEREN, VERHOGEN, DOIO}"
      using assms(3) that by (auto simp: syscall_args_ok_def get_reg_def)
    have other: "get_reg a reg_a1 s \<noteq> k" if "?id \<in> {PASSEREN, VERHOGEN, DOIO}"
      using assms(6)[OF _ that] kernel u that by auto
    have timer: "result_all (spares k s) (P (get_timer_semaphore U) (Some a) s)"
      by (rule result_all_mono[OF P_keeps[OF assms(1,2) timer_semaphore_facts[OF M] L(1,4)] keeps_spares])
    have yield: "spares k s (s\<lparr>yield_process := Some a\<rparr>)"
      by (rule keeps_spares[OF same_kernel_keeps]) (simp_all add: same_kernel_def)
    have unknown: "result_all (spares k s) (pandos_kprintf ''-----syscall not handled %d\<newline>'' [ArgInt (get_reg a reg_a0 s)] s
        \<bind> (\<lambda>s. pass_up_or_die GENERALEXCEPT s))"
    proof -
      have "fmt_ok ''-----syscall not handled %d\<newline>'' [ArgInt (get_reg a reg_a0 s)]" by simp
      from kernel_ok_kprintf[OF assms(1) this] obtain out where
        o: "pandos_kprintf ''-----syscall not handled %d\<newline>'' [ArgInt (get_reg a reg_a0 s)] s = Some (s\<lparr>kstdout := out\<rparr>)"
          "kernel_ok (s\<lparr>kstdout := out\<rparr>) v" by blast
      have "keeps k s (s\<lparr>kstdout := out\<rparr>)" by (simp add: keeps_def waits_for_def alive_def)
      then show ?thesis using o(1) result_all_mono[OF pud[OF o(2)]] keeps_spares_trans by simp
    qed
    note calls = create_process_spares[OF assms(1,2) L(1)] terminate_process_spares[OF assms(1,2) L(1)]
      passeren_spares[OF assms(1,2) aligned L(1) other] verhogen_spares[OF assms(1,2) aligned L(1) other]
      do_io_spares[OF assms(1,2) aligned assms(4,5) other]
    have "result_all (spares k s) (syscall_get_process_id a s)"
      using pud[OF assms(1)] set_reg_result_spares by (simp add: syscall_get_process_id_def Let_def)
    moreover have "result_all (spares k s) (syscall_get_cpu_time a s)" "result_all (spares k s) (syscall_get_support_data a s)"
      using set_reg_result_spares by (simp_all add: syscall_get_cpu_time_def syscall_get_support_data_def)
    ultimately show ?thesis
      using kernel calls timer yield unknown
      by (simp only: S option.case bind.bind_lunit syscall_wait_for_clock_def syscall_yield_def split: if_split) auto
  qed
qed

section \<open>The interrupts\<close>

lemma answer_keeps:
  assumes "c \<noteq> k"
  shows "keeps k s ((set_reg i reg_v0 x s)\<lparr>mem := (mem s)(c := y)\<rparr>)"
  by (rule same_kernel_keeps) (use assms in \<open>simp_all add: same_kernel_def set_reg_def\<close>)

lemma interrupt_generic_keeps:
  assumes "kernel_ok s v" "machine_ok U" "devices_ok U" "irq_ok U s" "lock_word U k"
  shows "result_all (keeps k s) (interrupt_generic U cau s)"
proof -
  define il where "il = pending_line U cau"
  define sem where "sem = (\<lambda>n. sem_addr_of U (int (sem_index U il n False)))"
  define r where "r = (\<lambda>n. devreg U (il - IL_DISK U) n)"
  have S: "sem n = sem_addr_of U (int (sem_index U il n False))" and R: "r n = devreg U (il - IL_DISK U) n" for n
    by (simp_all add: sem_def r_def)
  obtain n where n: "n < N_DEV_PER_IL U" "sem n \<noteq> 0" "word_aligned (sem n)" "mem s (sem n) \<noteq> 1"
    "\<And>x t. store_word (r n + RECV_COMMAND) x t = Some (t\<lparr>mem := (mem t)(r n + RECV_COMMAND := x)\<rparr>)"
    "interrupt_generic U cau s = (if mem s (r n + RECV_STATUS) AND TERMSTATMASK = DEV_STATUS_NOTINSTALLED
       then scheduler_panic ''Device is not installed!\<newline>'' s
       else kbind (V (sem n) s) (\<lambda>p s'. kbind (return_status p (mem s (r n + RECV_STATUS)) s') (\<lambda>ctrl s. do {
           s \<leftarrow> store_word (r n + RECV_COMMAND) DEV_C_ACK s;
           Some (Ret ctrl s)
         })))"
    by (rule interrupt_generic_steps[OF assms(2-4) il_def S R]) (rule that)
  have il: "IL_DISK U \<le> il" "il \<le> IL_TERMINAL U"
  proof -
    have "i \<in> set [IL_DISK U..<IL_PRINTER U + 1]" if "find (\<lambda>i. cau AND CAUSE_IP U i \<noteq> 0) [IL_DISK U..<IL_PRINTER U + 1] = Some i" for i
      using that by (metis find_Some_iff nth_mem)
    then show "IL_DISK U \<le> il" "il \<le> IL_TERMINAL U"
      using assms(3) by (auto simp: il_def pending_line_def devices_ok_def split: option.splits)
  qed
  have M: "lines_ok U" "n < DEVPERINT U" using assms(2,3) n(1) by (auto simp: machine_ok_def devices_ok_def)
  have k: "k \<noteq> sem n" "r n + RECV_COMMAND \<noteq> k"
    using lock_wordD(3)[OF assms(5) sem_index_bound[OF M(1) il M(2)]] lock_wordD(5)[OF assms(5) il n(1)] by (auto simp: S R)
  note V = V_interrupt_keeps[OF assms(1) n(4,2,3) lock_wordD(1)[OF assms(5)] k(1)]
  have "result_all (keeps k s') (kbind (return_status p x s') (\<lambda>ctrl s. do {
           s \<leftarrow> store_word (r n + RECV_COMMAND) DEV_C_ACK s;
           Some (Ret ctrl s)
         }))" for p x s'
    using answer_keeps[OF k(2)] n(5) by (auto simp: return_status_def Let_def split: option.split)
  from keeps_bind[OF V this] show ?thesis unfolding n(6) by simp
qed

lemma terminal_loop_keeps:
  assumes "kernel_ok s v" "k \<noteq> 0"
    and "\<And>stat cmd sem. (stat, cmd, sem) \<in> set halves \<Longrightarrow>
      cmd \<noteq> 0 \<and> word_aligned cmd \<and> sem \<noteq> 0 \<and> word_aligned sem \<and> mem s sem \<noteq> 1 \<and> cmd \<noteq> k \<and> k \<noteq> sem"
  shows "result_all (keeps k s) (terminal_loop halves s)"
  using assms(3)
proof (induction halves)
  case Nil
  then show ?case by simp
next
  case (Cons x halves)
  obtain stat cmd sem where x: "x = (stat, cmd, sem)" by (cases x)
  have h: "cmd \<noteq> 0" "word_aligned cmd" "sem \<noteq> 0" "word_aligned sem" "mem s sem \<noteq> 1" "cmd \<noteq> k" "k \<noteq> sem"
    using Cons.prems x by auto
  have IH: "result_all (keeps k s) (terminal_loop halves s)"
    by (rule Cons.IH) (use Cons.prems in auto)
  note V = V_interrupt_keeps[OF assms(1) h(5,3,4) assms(2) h(7)]
  have "store_word cmd y t = Some (t\<lparr>mem := (mem t)(cmd := y)\<rparr>)" for y t
    using h by (simp add: store_word_def)
  then have step: "result_all (keeps k s') (kbind (if p = None \<or> p = active_process s' then
              (case active_process s' of
                 None \<Rightarrow> scheduler_panic ''No active process (Interrupt Terminal)\<newline>'' s'
               | Some a \<Rightarrow> let s = set_reg a reg_v0 stat s' in Some (Ret (CONTROL_RESCHEDULE s) s))
            else case p of None \<Rightarrow> None
              | Some i \<Rightarrow> let s = set_reg i reg_v0 stat s' in Some (Ret (CONTROL_PRESERVE (active_process s)) s))
            (\<lambda>ctrl s. do {
              s \<leftarrow> store_word cmd DEV_C_ACK s;
              Some (Ret ctrl s)
            }))" for p s'
    using answer_keeps[OF h(6)] by (auto simp: Let_def split: option.split)
  from keeps_bind[OF V step] show ?case using IH by (simp add: x)
qed

lemma interrupt_terminal_keeps:
  assumes "kernel_ok s v" "machine_ok U" "devices_ok U" "irq_ok U s" "lock_word U k"
  shows "result_all (keeps k s) (interrupt_terminal U s)"
proof -
  define r where "r = (\<lambda>n. devreg U (IL_TERMINAL U - IL_DISK U) n)"
  define sem where "sem = (\<lambda>n w. sem_addr_of U (int (sem_index U (IL_TERMINAL U) n w)))"
  have R: "r n = devreg U (IL_TERMINAL U - IL_DISK U) n" and S: "sem n w = sem_addr_of U (int (sem_index U (IL_TERMINAL U) n w))" for n w
    by (simp_all add: r_def sem_def)
  obtain n where n: "n < N_DEV_PER_IL U" "\<And>w. sem n w \<noteq> 0 \<and> word_aligned (sem n w) \<and> mem s (sem n w) \<noteq> 1"
    "\<And>w. sem_index U (IL_TERMINAL U) n w < SEMAPHORES_NUM U - 1"
    "r n + TRANSM_COMMAND \<noteq> 0" "word_aligned (r n + TRANSM_COMMAND)" "r n + RECV_COMMAND \<noteq> 0" "word_aligned (r n + RECV_COMMAND)"
    "interrupt_terminal U s = terminal_loop [(mem s (r n + TRANSM_STATUS), r n + TRANSM_COMMAND, sem n True),
       (mem s (r n + RECV_STATUS), r n + RECV_COMMAND, sem n False)] s"
    by (rule interrupt_terminal_steps[OF assms(2-4) R S]) (rule that)
  have il: "IL_DISK U \<le> IL_TERMINAL U" using assms(3) by (simp add: devices_ok_def)
  have "k \<noteq> sem n w" for w using lock_wordD(3)[OF assms(5) n(3)] by (simp add: sem_def)
  moreover have "k \<noteq> r n + RECV_COMMAND" "k \<noteq> r n + TRANSM_COMMAND"
    using lock_wordD(5,6)[OF assms(5) il order.refl n(1)] by (simp_all add: r_def)
  ultimately show ?thesis unfolding n(8)
    by (intro terminal_loop_keeps[OF assms(1) lock_wordD(1)[OF assms(5)]]) (use n(2,4-7) in auto)
qed

lemma interrupt_timer_keeps:
  assumes "kernel_ok s v" "machine_ok U" "lock_word U k"
  shows "result_all (keeps k s) (interrupt_timer U s)"
proof -
  let ?s = "reset_timer s" and ?l = "get_timer_semaphore U"
  note L = lock_wordD[OF assms(3)]
  have M: "sems_ok U" using assms(2) by (simp add: machine_ok_def)
  have same: "same_kernel s ?s" "active_process ?s = active_process s" "yield_process ?s = yield_process s" "mem ?s = mem s"
    by (simp_all add: same_kernel_def reset_timer_def load_interval_timer_def)
  note ok = kernel_ok_same[OF assms(1) same(1-3)]
  have "result_all (keeps k ?s) (timer_loop U ?s)"
  proof (cases "mem ?s ?l = 1")
    case True
    then have "timer_loop U ?s = Some (Ret () ?s)"
      using timer_semaphore_facts[OF M] by (subst timer_loop.simps) (simp add: load_word_def)
    then show ?thesis by simp
  next
    case False
    then obtain s' v' where "timer_loop U ?s = Some (Ret () s')" "kernel_ok s' v'" "mem s' = (mem ?s)(?l := 1)"
      "waiting s' v' = (waiting ?s v)(?l := [])" "v_free v' = v_free v"
      using timer_loop_rel[OF ok refl timer_semaphore_facts[OF M]] by blast
    moreover from this have "keeps k ?s s'"
      using L(1,4) by (intro views_keep[OF kernel_okD(1)[OF ok] kernel_okD(1)]) (auto simp: live_def fun_eq_iff)
    ultimately show ?thesis by simp
  qed
  moreover have "keeps k s ?s" by (rule same_kernel_keeps) (use same in simp_all)
  ultimately show ?thesis unfolding interrupt_timer_def
    by (intro result_all_bind[where Q = "keeps k s"]) (auto intro: result_all_mono keeps_trans)
qed

lemma interrupt_handler_keeps:
  assumes "kernel_ok s v" "machine_ok U" "devices_ok U" "irq_ok U s" "lock_word U k"
  shows "result_all (keeps k s) (interrupt_handler U cau s)"
proof -
  have "keeps k s (reset_local_timer s)"
    by (rule same_kernel_keeps) (simp_all add: same_kernel_def reset_local_timer_def load_local_timer_def)
  then show ?thesis unfolding interrupt_handler_def
    using interrupt_timer_keeps[OF assms(1,2,5)] interrupt_generic_keeps[OF assms] interrupt_terminal_keeps[OF assms]
    by (simp add: interrupt_ipi_def interrupt_local_timer_def Let_def)
qed

section \<open>The exception handler spares a lock\<close>

lemma schedule_keeps:
  assumes "sched_inv s v" "handover pcb s v" "k \<noteq> 0"
  shows "result_all (keeps k s) (schedule U pcb enqueue s)"
proof (cases "pick pcb enqueue (yield_process s) (requeue (caller_queue pcb enqueue) s v)")
  case None
  have "keeps k s s'" if "scheduler_wait U s = Some (Exit WAIT s')" for s'
    by (rule same_kernel_keeps) (use that in
      \<open>auto simp: scheduler_wait_def Let_def same_kernel_def reset_timer_def load_interval_timer_def\<close>)
  then have "result_all (keeps k s) (scheduler_wait U s)" by (auto simp: scheduler_wait_def Let_def)
  then show ?thesis using schedule_idle[OF assms(1,2) None, of U] by simp
next
  case (Some x)
  obtain j w y where x: "pick pcb enqueue (yield_process s) (requeue (caller_queue pcb enqueue) s v) = Some (j, w, y)"
    using Some by (cases x) auto
  obtain s' where s': "schedule U pcb enqueue s = Some (Exit (LDST (p_s (pcb_table s' j))) s')"
    "sched_inv s' (requeue y s w)" "waiting s' (requeue y s w) = waiting s v" "live (requeue y s w) = live v" "mem s' = mem s"
    using schedule_dispatch[OF assms(1,2) x] by blast
  then show ?thesis using views_keep[OF assms(1) s'(2) assms(3)] by simp
qed

lemma settled_schedule_keeps:
  assumes "settled A M (Some (Ret ctrl s))" "k \<noteq> 0"
  shows "result_all (keeps k s) (schedule U (ctrl_pcb ctrl) (ctrl_enqueue ctrl) s)"
  using assms schedule_keeps by (auto simp: settled_def)

lemma after_syscall_keeps: "keeps k s (after_syscall U a s)"
  by (rule same_kernel_keeps[OF after_syscall_same(1)]) (simp add: after_syscall_same(4))

lemma syscall_exit_keeps:
  assumes "settled A M (Some (Ret ctrl s))" "k \<noteq> 0"
  shows "result_all (keeps k s) (syscall_exit U ctrl s)"
proof (cases "active_process s")
  case None
  then show ?thesis by (simp add: syscall_exit_def)
next
  case (Some a)
  note same = after_syscall_same[where U = U and p = a and s = s]
  from result_all_mono[OF settled_schedule_keeps[OF settled_same[OF assms(1) same(1-3)] assms(2)]
      keeps_trans[OF after_syscall_keeps]]
  show ?thesis using Some by (simp add: syscall_exit_def)
qed

text \<open>A system call, from the exception to the handler of the calls and out again.\<close>

lemma syscall_enters:
  assumes "CAUSE_GET_EXCCODE U (cp0_cause s) = 8" "active_process s = Some a"
  obtains t where "same_kernel s t" "active_process t = active_process s" "yield_process t = yield_process s"
    "mem t = mem s" "p_s (pcb_table t a) = states s BIOSDATAPAGE"
    "exception_handler U s = kbind (syscall_handler U t) (syscall_exit U)"
proof -
  obtain s2 where s2: "same_kernel s s2" "active_process s2 = active_process s" "yield_process s2 = yield_process s"
    "mem s2 = mem s" "cp0_cause s2 = cp0_cause s"
    and p: "\<And>a. active_process s = Some a \<Longrightarrow> p_s (pcb_table s2 a) = states s BIOSDATAPAGE"
    and eq: "exception_handler U s
      = kbind (handle_exception U s2) (\<lambda>ctrl s. schedule U (ctrl_pcb ctrl) (ctrl_enqueue ctrl) s)"
    by (rule exception_entry[where s = s and U = U]) (rule that)
  have c: "CAUSE_GET_EXCCODE U (cp0_cause s2) = 8" "active_process s2 = Some a" using assms s2 by simp_all
  obtain t where t: "same_kernel s2 t" "active_process t = active_process s2" "yield_process t = yield_process s2"
    "mem t = mem s2" "pcb_table t = pcb_table s2"
    and e: "handle_exception U s2 = kbind (syscall_handler U t) (\<lambda>ctrl s.
       (case active_process s of None \<Rightarrow> None | Some a \<Rightarrow> Some (Ret ctrl (after_syscall U a s))))"
    by (rule system_call_entry[OF c]) (rule that)
  have "exception_handler U s = kbind (syscall_handler U t) (syscall_exit U)"
    unfolding eq e kbind_assoc
    by (rule arg_cong[where f = "kbind _"]) (auto simp: syscall_exit_def fun_eq_iff split: option.split)
  from that[OF _ _ _ _ _ this] show thesis
    using s2 t p[OF assms(2)] by (simp add: same_kernel_def)
qed

text \<open>
  Every exception spares the word, but for the calls that name it: PASSEREN and VERHOGEN, and a
  DOIO that takes it for a device register.
\<close>

lemma exception_handler_spares:
  assumes "kernel_ok s v" "machine_ok U" "devices_ok U" "exception_ok U s" "lock_word U k"
    and "\<And>n. n \<in> {PASSEREN, VERHOGEN, DOIO} \<Longrightarrow> \<not> asks U s n k"
  shows "result_all (spares k s) (exception_handler U s)"
proof -
  note k = lock_wordD(1)[OF assms(5)]
  obtain s2 where same: "same_kernel s s2" "active_process s2 = active_process s" "yield_process s2 = yield_process s"
    and m: "mem s2 = mem s" "cp0_cause s2 = cp0_cause s" "states s2 = states s"
    and p: "\<And>a. active_process s = Some a \<Longrightarrow> p_s (pcb_table s2 a) = states s BIOSDATAPAGE"
    and eq: "exception_handler U s
      = kbind (handle_exception U s2) (\<lambda>ctrl s. schedule U (ctrl_pcb ctrl) (ctrl_enqueue ctrl) s)"
    by (rule exception_entry[where s = s and U = U]) (rule that)
  note ok = kernel_ok_same[OF assms(1) same]
  have ok2: "exception_ok U s2" using assms(4) m by (simp add: exception_ok_def irq_ok_def)
  have set: "settled (active_process s2) kernel_panics (handle_exception U s2)"
    by (rule handle_exception_settled[OF ok assms(2,3) ok2]) (use p same(2) m(3) in simp)
  let ?code = "CAUSE_GET_EXCCODE U (cp0_cause s2)"
  consider (irq) "?code = 0" | (tlb) "?code = 1 \<or> ?code = 2 \<or> ?code = 3" | (none) "?code = 8" "active_process s2 = None"
    | (sys) a where "?code = 8" "active_process s2 = Some a" | (other) "?code \<notin> {0, 1, 2, 3, 8}"
    by (cases "active_process s2") auto
  then have "result_all (spares k s2) (handle_exception U s2)"
  proof cases
    case irq
    then show ?thesis using result_all_mono[OF interrupt_handler_keeps[OF ok assms(2,3) _ assms(5)] keeps_spares] ok2
      by (simp add: handle_exception_def exception_ok_def)
  next
    case tlb
    then have "handle_exception U s2 = pass_up_or_die PGFAULTEXCEPT s2" by (auto simp: handle_exception_def Let_def)
    then show ?thesis using pass_up_or_die_spares[OF ok k] by simp
  next
    case none
    then show ?thesis by (simp add: handle_exception_def)
  next
    case sys
    obtain t where t: "same_kernel s2 t" "active_process t = active_process s2" "yield_process t = yield_process s2"
      "mem t = mem s2" "pcb_table t = pcb_table s2"
      and e: "handle_exception U s2 = kbind (syscall_handler U t) (\<lambda>ctrl s.
         (case active_process s of None \<Rightarrow> None | Some a \<Rightarrow> Some (Ret ctrl (after_syscall U a s))))"
      by (rule system_call_entry[OF sys]) (rule that)
    have r: "p_s (pcb_table t a) = states s BIOSDATAPAGE" "active_process t = Some a"
      using p same(2) sys(2) t(2,5) by simp_all
    have "result_all (spares k t) (syscall_handler U t)"
    proof (rule syscall_handler_spares[OF kernel_ok_same[OF ok t(1-3)] r(2) _ assms(2,5)])
      show "syscall_args_ok (p_s (pcb_table t a))" using ok2 sys(1) r(1) m(3) by (simp add: exception_ok_def)
      show "get_reg a reg_a1 t \<noteq> k" if "is_user_mode t = Some 0" "sint (get_reg a reg_a0 t) \<in> {PASSEREN, VERHOGEN, DOIO}"
        using assms(6)[OF that(2)] that(1) sys same(2) m(2) r by (auto simp: asks_def get_reg_def is_user_mode_def)
    qed
    moreover have "keeps k s2 t" using same_kernel_keeps[OF t(1)] t(4) by simp
    ultimately have "result_all (spares k s2) (syscall_handler U t)" using keeps_spares_trans result_all_mono by blast
    then show ?thesis unfolding e
      by (rule result_all_bind) (auto split: option.split intro: spares_keeps_trans after_syscall_keeps)
  next
    case other
    have "fmt_ok ''EXCP %d\<newline>'' [ArgInt (?code + 1)]" by simp
    from kernel_ok_kprintf[OF ok this] obtain out where
      o: "pandos_kprintf ''EXCP %d\<newline>'' [ArgInt (?code + 1)] s2 = Some (s2\<lparr>kstdout := out\<rparr>)" "kernel_ok (s2\<lparr>kstdout := out\<rparr>) v"
      by blast
    have "keeps k s2 (s2\<lparr>kstdout := out\<rparr>)" by (simp add: keeps_def waits_for_def alive_def)
    then show ?thesis using other o(1) result_all_mono[OF pass_up_or_die_spares[OF o(2) k]] keeps_spares_trans
      by (simp add: handle_exception_def)
  qed
  moreover have "keeps k s s2" using same_kernel_keeps[OF same(1)] m(1) by simp
  ultimately have h: "result_all (spares k s) (handle_exception U s2)" using keeps_spares_trans result_all_mono by blast
  show ?thesis unfolding eq
  proof (rule result_all_bind[OF h])
    fix ctrl t assume "handle_exception U s2 = Some (Ret ctrl t)" "spares k s t"
    then show "result_all (spares k s) (schedule U (ctrl_pcb ctrl) (ctrl_enqueue ctrl) t)"
      using result_all_mono[OF settled_schedule_keeps[OF set[unfolded \<open>handle_exception U s2 = Some (Ret ctrl t)\<close>] k]]
        spares_keeps_trans by blast
  qed
qed

section \<open>Taking the lock and giving it back\<close>

lemma asks_call:
  assumes "kernel_ok s v" "asks U s n k" "active_process s = Some a"
  obtains t where "kernel_ok t v" "active_process t = Some a" "keeps k s t" "mem t = mem s" "waiting t v = waiting s v"
    "is_user_mode t = Some 0" "sint (get_reg a reg_a0 t) = n" "get_reg a reg_a1 t = k"
    "exception_handler U s = kbind (syscall_handler U t) (syscall_exit U)"
proof -
  have c: "CAUSE_GET_EXCCODE U (cp0_cause s) = 8" using assms(2) by (simp add: asks_def)
  obtain t where t: "same_kernel s t" "active_process t = active_process s" "yield_process t = yield_process s"
    "mem t = mem s" "p_s (pcb_table t a) = states s BIOSDATAPAGE"
    "exception_handler U s = kbind (syscall_handler U t) (syscall_exit U)"
    by (rule syscall_enters[OF c assms(3)]) (rule that)
  show thesis
    by (rule that[OF kernel_ok_same[OF assms(1) t(1-3)] _ _ t(4) same_kernel_inv(2)[OF t(1)] _ _ _ t(6)])
      (use assms(2,3) t in \<open>simp_all add: asks_def get_reg_def is_user_mode_def same_kernel_keeps\<close>)
qed

lemma passeren_step:
  assumes "kernel_ok s v" "asks U s PASSEREN k" "active_process s = Some a" "k \<noteq> 0" "word_aligned k"
  shows "mem s k = 0 \<Longrightarrow> result_all (\<lambda>s'. mem s' k = 0 \<and> waits_for k s' = insert a (waits_for k s)) (exception_handler U s)"
    and "mem s k \<noteq> 0 \<Longrightarrow> waits_for k s = {} \<Longrightarrow>
      result_all (\<lambda>s'. mem s' k = mem s k - 1 \<and> waits_for k s' = {}) (exception_handler U s)"
proof -
  obtain t where t: "kernel_ok t v" "active_process t = Some a" "keeps k s t" "mem t = mem s" "waiting t v = waiting s v"
    "is_user_mode t = Some 0" "sint (get_reg a reg_a0 t) = PASSEREN" "get_reg a reg_a1 t = k"
    and e: "exception_handler U s = kbind (syscall_handler U t) (syscall_exit U)"
    by (rule asks_call[OF assms(1-3)]) (rule that)
  note K = kernel_okD[OF t(1)] and ws = waits_for_waiting[OF kernel_okD(1)[OF assms(1)] assms(4)]
  have h: "syscall_handler U t = P k (Some a) t"
    using t(2,6-8) assms(4) by (simp add: syscall_handler_def syscall_passeren_def)
  obtain xq r where x: "sem_P a (mem s k, waiting s v k) = (xq, r)" by fastforce
  with t(4,5) have x': "sem_P a (mem t k, waiting t v k) = (xq, r)" by simp
  obtain ctrl t' v' where P: "P k (Some a) t = Some (Ret ctrl t')" "sem_effect k xq r t v t' v'"
    using P_refines[OF K(1) K(3)[OF t(2)] assms(4,5) x'] by blast
  have "settled (Some a) {} (Some (Ret ctrl t'))"
    using P_settled[OF t(1,2) assms(4,5)] P(1) by auto
  then have exit: "result_all (keeps k t') (exception_handler U s)"
    unfolding e h P(1) using syscall_exit_keeps[OF _ assms(4)] by simp
  have t': "mem t' k = fst xq" "waits_for k t' = set (snd xq)"
    using P(2) waits_for_waiting[of t' v'] assms(4) by (simp_all add: sem_effect_def)
  show "result_all (\<lambda>s'. mem s' k = 0 \<and> waits_for k s' = insert a (waits_for k s)) (exception_handler U s)"
    if "mem s k = 0"
    using x that t' ws by (intro result_all_mono[OF exit]) (auto simp: keeps_def sem_P_def)
  show "result_all (\<lambda>s'. mem s' k = mem s k - 1 \<and> waits_for k s' = {}) (exception_handler U s)"
    if "mem s k \<noteq> 0" "waits_for k s = {}"
    using x that t' ws by (intro result_all_mono[OF exit]) (auto simp: keeps_def sem_P_def)
qed

lemma verhogen_step:
  assumes "kernel_ok s v" "asks U s VERHOGEN k" "active_process s = Some a" "k \<noteq> 0" "word_aligned k" "mem s k \<noteq> 1"
  shows "waits_for k s = {} \<Longrightarrow> result_all (\<lambda>s'. mem s' k = mem s k + 1 \<and> waits_for k s' = {}) (exception_handler U s)"
    and "waits_for k s \<noteq> {} \<Longrightarrow> result_all (\<lambda>s'. mem s' k = mem s k
      \<and> (\<exists>j\<in>waits_for k s. waits_for k s' = waits_for k s - {j})) (exception_handler U s)"
proof -
  obtain t where t: "kernel_ok t v" "active_process t = Some a" "keeps k s t" "mem t = mem s" "waiting t v = waiting s v"
    "is_user_mode t = Some 0" "sint (get_reg a reg_a0 t) = VERHOGEN" "get_reg a reg_a1 t = k"
    and e: "exception_handler U s = kbind (syscall_handler U t) (syscall_exit U)"
    by (rule asks_call[OF assms(1-3)]) (rule that)
  note K = kernel_okD[OF t(1)] and ws = waits_for_waiting[OF kernel_okD(1)[OF assms(1)] assms(4)]
  have h: "syscall_handler U t = syscall_verhogen a t" using t(2,6-8) by (simp add: syscall_handler_def)
  obtain xq r where x: "sem_V a (mem s k, waiting s v k) = (xq, r)" by fastforce
  with t(4,5) have x': "sem_V a (mem t k, waiting t v k) = (xq, r)" by simp
  obtain p t' v' where V: "V k t = Some (Ret p t')" "sem_effect k xq r t v t' v'"
    using V_refines[OF K(1) t(2) K(3)[OF t(2)] assms(4,5) x'] by blast
  obtain ctrl where c: "syscall_verhogen a t = Some (Ret ctrl t')"
    using V(1) t(8) assms(4) by (auto simp: syscall_verhogen_def)
  have "settled (Some a) {} (Some (Ret ctrl t'))"
    using verhogen_settled[OF t(1,2), of "{}"] c t(8) assms(5) by simp
  then have exit: "result_all (keeps k t') (exception_handler U s)"
    unfolding e h c using syscall_exit_keeps[OF _ assms(4)] by simp
  have t': "mem t' k = fst xq" "waits_for k t' = set (snd xq)"
    using V(2) waits_for_waiting[of t' v'] assms(4) by (simp_all add: sem_effect_def)
  show "result_all (\<lambda>s'. mem s' k = mem s k + 1 \<and> waits_for k s' = {}) (exception_handler U s)"
    if "waits_for k s = {}"
    using x that t' ws assms(6) by (intro result_all_mono[OF exit]) (auto simp: keeps_def sem_V_def)
  show "result_all (\<lambda>s'. mem s' k = mem s k \<and> (\<exists>j\<in>waits_for k s. waits_for k s' = waits_for k s - {j})) (exception_handler U s)"
    if "waits_for k s \<noteq> {}"
  proof -
    obtain j q where q: "waiting s v k = j # q" using \<open>waits_for k s \<noteq> {}\<close> ws by (cases "waiting s v k") auto
    have "distinct (j # q)" using waiting_queue(1)[OF sched_invD(1)[OF kernel_okD(1)[OF assms(1)]], of k] q by simp
    then have "waits_for k t' = waits_for k s - {j}" "mem t' k = mem s k" "j \<in> waits_for k s"
      using x q t' ws assms(6) by (auto simp: sem_V_def)
    then show ?thesis by (intro result_all_mono[OF exit]) (auto simp: keeps_def)
  qed
qed

section \<open>Mutual exclusion\<close>

text \<open>
  The processes \<open>C\<close> that have asked for the lock and not given it back, along a run of the machine from
  a moment when the lock is free. Nobody writes the word but the nucleus, nobody gives the lock back
  who did not ask for it, and nobody takes it for the register of a device; for the rest, processes
  call what they want and interrupts come in any order. A process that dies has no claim any more.
\<close>

inductive locking :: "umps \<Rightarrow> u32 \<Rightarrow> kstate \<Rightarrow> nat set \<Rightarrow> bool" for U :: umps and k :: u32 where
  free: "reachable U s \<Longrightarrow> outside s t \<Longrightarrow> mem t k = 1 \<Longrightarrow> waits_for k t = {} \<Longrightarrow> locking U k t {}"
| lock: "locking U k s C \<Longrightarrow> outside s t \<Longrightarrow> mem t k = mem s k \<Longrightarrow> exception_ok U t \<Longrightarrow>
    asks U t PASSEREN k \<Longrightarrow> active_process t = Some a \<Longrightarrow>
    exception_handler U t = Some (Exit e s') \<Longrightarrow> resumes e \<Longrightarrow> locking U k s' (insert a C)"
| unlock: "locking U k s C \<Longrightarrow> outside s t \<Longrightarrow> mem t k = mem s k \<Longrightarrow> exception_ok U t \<Longrightarrow>
    asks U t VERHOGEN k \<Longrightarrow> active_process t = Some a \<Longrightarrow> a \<in> C \<Longrightarrow>
    exception_handler U t = Some (Exit e s') \<Longrightarrow> resumes e \<Longrightarrow> locking U k s' (C - {a})"
| other: "locking U k s C \<Longrightarrow> outside s t \<Longrightarrow> mem t k = mem s k \<Longrightarrow> exception_ok U t \<Longrightarrow>
    (\<And>n. n \<in> {PASSEREN, VERHOGEN, DOIO} \<Longrightarrow> \<not> asks U t n k) \<Longrightarrow>
    exception_handler U t = Some (Exit e s') \<Longrightarrow> resumes e \<Longrightarrow> locking U k s' (C \<inter> alive s')"

text \<open>Those of them who have it: they do not wait for it.\<close>

definition holders :: "u32 \<Rightarrow> kstate \<Rightarrow> nat set \<Rightarrow> nat set" where
  "holders k s C = C - waits_for k s"

definition lock_ok :: "u32 \<Rightarrow> kstate \<Rightarrow> nat set \<Rightarrow> bool" where
  "lock_ok k s C \<longleftrightarrow> waits_for k s \<subseteq> C
     \<and> (mem s k = 1 \<and> C = {} \<or> mem s k = 0 \<and> (\<exists>h. holders k s C \<subseteq> {h}))"

lemma outside_same: "outside s t \<Longrightarrow> waits_for k t = waits_for k s \<and> alive t = alive s"
  by (simp add: outside_def waits_for_def alive_def)

lemma exception_handler_kernel_ok:
  assumes "kernel_ok s v" "machine_ok U" "devices_ok U" "exception_ok U s"
    and "exception_handler U s = Some (Exit e s')" "resumes e"
  shows "\<exists>v'. kernel_ok s' v'"
  using exception_handler_leaves[OF assms(1-4)] assms(5,6) leaves_ok_resumes by metis

lemma lock_ok_steps:
  assumes "kernel_ok s v" "lock_ok k s C" "lock_word U k" "exception_handler U s = Some (Exit e s')" "resumes e"
  shows "asks U s PASSEREN k \<Longrightarrow> active_process s = Some a \<Longrightarrow> lock_ok k s' (insert a C)"
    and "asks U s VERHOGEN k \<Longrightarrow> active_process s = Some a \<Longrightarrow> a \<in> C \<Longrightarrow> lock_ok k s' (C - {a})"
    and "machine_ok U \<Longrightarrow> devices_ok U \<Longrightarrow> exception_ok U s \<Longrightarrow>
      (\<And>n. n \<in> {PASSEREN, VERHOGEN, DOIO} \<Longrightarrow> \<not> asks U s n k) \<Longrightarrow> lock_ok k s' (C \<inter> alive s')"
proof -
  note k = lock_wordD(1,2)[OF assms(3)]
  note result = assms(4,5)
  have W: "waits_for k s \<subseteq> C" "mem s k = 1 \<Longrightarrow> C = {}" "mem s k \<noteq> 1 \<Longrightarrow> mem s k = 0 \<and> (\<exists>h. C - waits_for k s \<subseteq> {h})"
    using assms(2) by (auto simp: lock_ok_def holders_def)
  show "lock_ok k s' (insert a C)" if "asks U s PASSEREN k" "active_process s = Some a"
  proof (cases "mem s k = 1")
    case True
    then have "mem s k \<noteq> 0" "waits_for k s = {}" "C = {}" using W by auto
    from passeren_step(2)[OF assms(1) that k this(1,2)] this(3) True show ?thesis
      using result by (auto simp: lock_ok_def holders_def)
  next
    case False
    then have "mem s k = 0" using W(3) by simp
    from passeren_step(1)[OF assms(1) that k this] show ?thesis
      using result W(1) W(3)[OF False] by (auto simp: lock_ok_def holders_def)
  qed
  show "lock_ok k s' (C - {a})" if "asks U s VERHOGEN k" "active_process s = Some a" "a \<in> C"
  proof -
    have m: "mem s k \<noteq> 1" using W(2) that(3) by auto
    then obtain h where h: "mem s k = 0" "C - waits_for k s \<subseteq> {h}" using W(3) by blast
    have "\<not> queued v a" using kernel_okD(3)[OF assms(1) that(2)] by (simp add: off_lists_def)
    then have a: "a \<notin> waits_for k s"
      using waits_for_waiting[OF kernel_okD(1)[OF assms(1)] k(1)]
        waiting_sem_add(1)[OF sched_invD(1)[OF kernel_okD(1)[OF assms(1)]]] by (auto simp: queued_def)
    then have C: "C = insert a (waits_for k s)" using h(2) W(1) that(3) by auto
    show ?thesis
    proof (cases "waits_for k s = {}")
      case True
      from verhogen_step(1)[OF assms(1) that(1,2) k m True] show ?thesis
        using result C True h(1) by (auto simp: lock_ok_def)
    next
      case False
      from verhogen_step(2)[OF assms(1) that(1,2) k m False] show ?thesis
        using result C a h(1) by (auto simp: lock_ok_def holders_def)
    qed
  qed
  show "lock_ok k s' (C \<inter> alive s')" if "machine_ok U" "devices_ok U" "exception_ok U s"
    "\<And>n. n \<in> {PASSEREN, VERHOGEN, DOIO} \<Longrightarrow> \<not> asks U s n k"
    using exception_handler_spares[OF assms(1) that(1-3) assms(3) that(4)] result W
    by (cases "mem s k = 1") (auto simp: lock_ok_def holders_def spares_def)
qed

lemma locking_ok:
  assumes "locking U k s C" "machine_ok U" "devices_ok U" "lock_word U k"
  shows "(\<exists>v. kernel_ok s v) \<and> lock_ok k s C"
  using assms(1)
proof (induction rule: locking.induct)
  case (free s t)
  obtain v where "kernel_ok s v" using reachable_kernel_ok[OF free(1) assms(2,3)] by blast
  from kernel_ok_outside[OF this free(2)] show ?case using free(3,4) by (auto simp: lock_ok_def)
next
  case (lock s C t a e s')
  then obtain v where v: "kernel_ok t v" using kernel_ok_outside by blast
  have "lock_ok k t C" using lock outside_same[OF lock(2)] by (simp add: lock_ok_def holders_def)
  from lock_ok_steps(1)[OF v this assms(4)] exception_handler_kernel_ok[OF v assms(2,3)] show ?case using lock by blast
next
  case (unlock s C t a e s')
  then obtain v where v: "kernel_ok t v" using kernel_ok_outside by blast
  have "lock_ok k t C" using unlock outside_same[OF unlock(2)] by (simp add: lock_ok_def holders_def)
  from lock_ok_steps(2)[OF v this assms(4)] exception_handler_kernel_ok[OF v assms(2,3)] show ?case using unlock by blast
next
  case (other s C t e s')
  then obtain v where v: "kernel_ok t v" using kernel_ok_outside by blast
  have "lock_ok k t C" using other outside_same[OF other(2)] by (simp add: lock_ok_def holders_def)
  from lock_ok_steps(3)[OF v this assms(4)] exception_handler_kernel_ok[OF v assms(2,3)] show ?case
    using other assms(2,3) by blast
qed

end
