(* ===== verification/Worlds.thy ===== *)
theory Worlds
  imports Scenario Userland Provider Mutex
begin

text \<open>
  Concrete environments of the support level, on which its properties are witnessed: system calls
  that answer at once and leave the nucleus' state alone (\<open>W0\<close>), a terminal with a line of input
  (\<open>WT\<close>), a TLB of sixteen entries, and states with one or two user processes.
\<close>

section \<open>The TLB\<close>

abbreviation (input) TLB_SIZE :: nat where "TLB_SIZE \<equiv> 16"

definition tlbp :: "tlb_t \<Rightarrow> tlb_t" where
  "tlbp t = (case find (\<lambda>m. same_page (pte_entry_hi (tlb_entries t m)) (ENTRYHI t)) [0..<TLB_SIZE] of
     Some m \<Rightarrow> t\<lparr>INDEX := of_nat m\<rparr> | None \<Rightarrow> t\<lparr>INDEX := PRESENTFLAG\<rparr>)"

definition tlb0 :: tlb_t where
  "tlb0 = \<lparr>ENTRYHI = 0, ENTRYLO = 0, INDEX = 0,
     tlb_entries = (\<lambda>m. \<lparr>pte_entry_hi = of_nat m * PAGESIZE, pte_entry_lo = 0\<rparr>)\<rparr>"

section \<open>The world\<close>

definition sys_answers :: "(u32 \<Rightarrow> sstate \<Rightarrow> u32) \<Rightarrow> int \<Rightarrow> u32 \<Rightarrow> u32 \<Rightarrow> u32 \<Rightarrow> sstate \<Rightarrow> u32 sres option" where
  "sys_answers io n a1 a2 a3 s =
     (if n = TERMPROCESS then Some (SExit SGONE s)
      else Some (SRet (if n = GETSUPPORTPTR then 0x20004000 else if n = DOIO then io a2 s else 0) s))"

definition device_reg :: "u32 \<Rightarrow> u32 \<Rightarrow> u32" where
  "device_reg il n = 0x10000054 + push_bit 4 ((il - 3) * 8 + n)"

definition W0 :: world where
  "W0 = \<lparr>emu = U0, sys = sys_answers (\<lambda>_ _. DEV_STATUS_READY), TLBP = tlbp, TLBWR = (\<lambda>t. tlb_written t 0),
     TLBWI = (\<lambda>t. tlb_written t (unat (INDEX t))),
     DEV_REG_ADDR = device_reg, FLASHINT = 4, DTP_DATA0 = 8,
     sem_swap_pool_table = 0x20003000, sys3_semaphores = 0x20003010, sys4_semaphores = 0x20003040,
     sys5_semaphores = 0x20003070, master_semaphore = 0x200030A0, support_table = 0x20004000,
     sizeof_support_t = 0x400, header_data = 0x20008000, pstate_addr = 0x20009000,
     support_tlb_addr = 0x20000100, support_generic_addr = 0x20000200\<rparr>"

text \<open>The terminal answers every third call and every later one with a character: A, then newlines.\<close>

definition keys :: "nat \<Rightarrow> u32" where
  "keys n = (if n < 4 then 0x4105 else 0x0A05)"

definition WT :: world where
  "WT = W0\<lparr>sys := sys_answers (\<lambda>_ s. keys (length (calls s)))\<rparr>"

text \<open>A terminal that rejects the letter B.\<close>

definition no_B :: "u32 \<Rightarrow> u32" where
  "no_B cmd = (if cmd = 0x4202 then 4 else RECVD)"

definition WP :: world where
  "WP = W0\<lparr>sys := sys_answers (\<lambda>cmd _. no_B cmd)\<rparr>"

section \<open>States\<close>

definition sup_of :: "u32 \<Rightarrow> support_t" where
  "sup_of asid = \<lparr>sup_asid = asid,
     sup_except_state = (\<lambda>i. if i = PGFAULTEXCEPT then zero_regs\<lparr>entry_hi := 0x80003000 + 64 * asid\<rparr>
       else zero_regs\<lparr>cause := 0x20, gpr := (\<lambda>_. 0)(reg_a0 := - 2, reg_a1 := 0x80001000, reg_a2 := 3)\<rparr>),
     sup_except_context = (\<lambda>_. \<lparr>c_stack_ptr = 0, c_status = 0, c_pc = 0\<rparr>),
     sup_private_page_table = (\<lambda>j. if j < 31 then page_entry asid 0 j else stack_entry asid)\<rparr>"

definition level_kernel :: kstate where
  "level_kernel = zero_state\<lparr>active_process := Some 19,
     pcb_table := (\<lambda>i. (pcb_table zero_state i)\<lparr>p_support := 0x20004000\<rparr>),
     states := (\<lambda>_. zero_regs\<lparr>entry_hi := 0x80003040\<rparr>),
     supports := (\<lambda>a. if a = 0x20004400 then sup_of 2 else sup_of 1)\<rparr>"

definition S0 :: sstate where
  "S0 = \<lparr>kernel = level_kernel, supp_lh = \<lparr>l_next = (\<lambda>_. None), l_prev = (\<lambda>_. None)\<rparr>, swap_pool_addr = 0x20020000,
     swap_pool_batons = (\<lambda>_. False), swap_pool_table = (\<lambda>_. \<lparr>sw_asid = - 1, sw_page_no = 0, sw_pte = None\<rparr>),
     fifo_index = 0, tlb = tlb0, user_mem = (\<lambda>a. if a = 0x80001001 then 66 else 65),
     kstderr = kstdout zero_state, kdebug = kstdout zero_state, calls = []\<rparr>"

text \<open>The pool is full of pages of the second process: frame f holds page f + 1.\<close>

definition full_pool :: sstate where
  "full_pool = S0\<lparr>swap_pool_table := (\<lambda>f. \<lparr>sw_asid = 2, sw_page_no = 0x80000 + of_nat (f + 1),
       sw_pte = Some (0x20004400, of_nat (f + 1))\<rparr>),
     kernel := level_kernel\<lparr>supports := (\<lambda>a. if a = 0x20004400 then (sup_of 2)\<lparr>sup_private_page_table :=
         (\<lambda>j. if j < 31 then (page_entry 2 0 j)\<lparr>pte_entry_lo :=
             (if 1 \<le> j \<and> j \<le> 16 then (0x20020000 + of_nat (j - 1) * PAGESIZE) OR VALIDON OR DIRTYON else 0)\<rparr>
           else stack_entry 2)\<rparr> else sup_of 1)\<rparr>\<rparr>"

section \<open>Facts\<close>

text \<open>What the handlers may rely on: some process runs.\<close>

definition someone :: "kstate \<Rightarrow> bool" where
  "someone k \<longleftrightarrow> active_process k \<noteq> None"

lemma sys_answers_gives:
  assumes "sys W = sys_answers io" "n \<noteq> TERMPROCESS"
    and "\<And>s. r = (if n = GETSUPPORTPTR then 0x20004000 else if n = DOIO then io b s else 0)"
  shows "gives W I n a b c r"
  unfolding gives_to_def
proof (intro allI impI)
  fix s :: sstate assume "I (kernel s)"
  then show "\<exists>k. sys W n a b c s = Some (SRet r (s\<lparr>kernel := k\<rparr>)) \<and> I k \<and> supports k = supports (kernel s)"
    using assms(1,2) assms(3)[of s] by (intro exI[of _ "kernel s"]) (simp add: sys_answers_def)
qed

lemma W0_gives:
  "gives W0 I GETSUPPORTPTR 0 0 0 0x20004000" "gives W0 I PASSEREN a b c 0" "gives W0 I VERHOGEN a b c 0"
  "gives W0 I CREATEPROCESS a b c 0" "gives W0 I DOIO a b c DEV_STATUS_READY" "flash_gives W0 I (\<lambda>_ _. DEV_STATUS_READY)"
proof -
  have s: "sys W0 = sys_answers (\<lambda>_ _. DEV_STATUS_READY)" by (simp add: W0_def)
  show "gives W0 I GETSUPPORTPTR 0 0 0 0x20004000" "gives W0 I PASSEREN a b c 0" "gives W0 I VERHOGEN a b c 0"
    "gives W0 I CREATEPROCESS a b c 0" "gives W0 I DOIO a b c DEV_STATUS_READY" by (rule sys_answers_gives[OF s]; simp)+
  show "flash_gives W0 I (\<lambda>_ _. DEV_STATUS_READY)" unfolding flash_gives_def
    by (intro allI impI sys_answers_gives[OF s]; simp)
qed

lemma W0_fields [simp]:
  "emu W0 = U0" "FLASHINT W0 = 4" "DTP_DATA0 W0 = 8" "DEV_REG_ADDR W0 = device_reg"
  "support_slot W0 i = 0x20004000 + of_nat i * 0x400" "TLBP W0 = tlbp" "TLBWR W0 t = tlb_written t 0"
  "TLBWI W0 t = tlb_written t (unat (INDEX t))"
  by (simp_all add: W0_def support_slot_def)

lemma device_word: "device_reg il n + 8 \<noteq> 0" "word_aligned (device_reg il n + 8)"
proof -
  define q where "q = 0x1000005 + ((il - 3) * 8 + n)"
  have e: "device_reg il n + 8 = push_bit 4 q + 12"
    by (simp add: device_reg_def q_def push_bit_eq_mult algebra_simps)
  have "unat (push_bit 4 q) = take_bit 32 (16 * unat q)" by (simp add: push_bit_eq_mult unat_word_ariths take_bit_eq_mod mult.commute)
  also have "\<dots> = 16 * (unat q mod 2 ^ 28)" by (simp add: take_bit_eq_mod mult_mod_right)
  finally have u: "unat (push_bit 4 q) = 16 * (unat q mod 2 ^ 28)" .
  moreover have "unat q mod 2 ^ 28 < 2 ^ 28" by simp
  ultimately have "unat (push_bit 4 q + 12) = 16 * (unat q mod 2 ^ 28) + 12" by (simp add: unat_word_ariths)
  then show "device_reg il n + 8 \<noteq> 0" "word_aligned (device_reg il n + 8)"
    unfolding e word_aligned_mod by (auto simp: mod_add_eq[symmetric])
qed

lemma W0_undisturbed: "undisturbed W0 someone"
  unfolding undisturbed_def using device_word by (simp add: store_word_def someone_def)

lemma W0_memory: "own_memory someone" "keeps_registers someone" "data_register_ok W0 someone (DEV_REG_ADDR W0 il n)"
  "data_register_ok WP someone (DEV_REG_ADDR WP il n)"
  using device_word by (simp_all add: WP_def own_memory_def keeps_registers_def data_register_ok_def someone_def store_word_def upd_pcb_def)

lemma WP_gives:
  "gives WP I GETSUPPORTPTR 0 0 0 0x20004000" "gives WP I PASSEREN a b c 0" "gives WP I VERHOGEN a b c 0"
  "gives WP I DOIO a b c (no_B b)"
proof -
  have s: "sys WP = sys_answers (\<lambda>cmd _. no_B cmd)" by (simp add: WP_def)
  show "gives WP I GETSUPPORTPTR 0 0 0 0x20004000" "gives WP I PASSEREN a b c 0" "gives WP I VERHOGEN a b c 0"
    "gives WP I DOIO a b c (no_B b)" by (rule sys_answers_gives[OF s]; simp)+
qed

lemma WT_gives:
  "gives WT I GETSUPPORTPTR 0 0 0 0x20004000" "gives WT I PASSEREN a b c 0" "gives WT I VERHOGEN a b c 0"
  "terminal_gives WT I cmd keys"
proof -
  have s: "sys WT = sys_answers (\<lambda>_ s. keys (length (calls s)))" by (simp add: WT_def)
  show "gives WT I GETSUPPORTPTR 0 0 0 0x20004000" "gives WT I PASSEREN a b c 0" "gives WT I VERHOGEN a b c 0"
    by (rule sys_answers_gives[OF s]; simp)+
  have "sys WT DOIO cmd RECEIVE_CHAR 0 t = Some (SRet (keys (length (calls t))) (t\<lparr>kernel := kernel t\<rparr>))" for t :: sstate
    by (simp add: s sys_answers_def)
  then show "terminal_gives WT I cmd keys" unfolding terminal_gives_def by blast
qed

lemma tlb_ok_W0: "tlb_ok W0 TLB_SIZE"
proof -
  have "(\<exists>m. tlb_answers 16 t (ENTRYHI t) m \<and> tlbp t = t\<lparr>INDEX := of_nat m\<rparr>)
      \<or> (\<forall>m. \<not> tlb_answers 16 t (ENTRYHI t) m) \<and> (\<exists>x. tlbp t = t\<lparr>INDEX := x\<rparr> \<and> x AND PRESENTFLAG \<noteq> 0)" for t
  proof (cases "find (\<lambda>m. same_page (pte_entry_hi (tlb_entries t m)) (ENTRYHI t)) [0..<16]")
    case None
    then have "\<not> tlb_answers 16 t (ENTRYHI t) m" for m by (simp add: tlb_answers_def find_None_iff del: upt_rec_numeral)
    moreover have "tlbp t = t\<lparr>INDEX := PRESENTFLAG\<rparr>" using None by (simp add: tlbp_def del: upt_rec_numeral)
    ultimately show ?thesis by (intro disjI2 conjI exI[of _ PRESENTFLAG]) simp_all
  next
    case (Some m)
    then have "tlb_answers 16 t (ENTRYHI t) m" by (simp add: tlb_answers_def find_upt del: upt_rec_numeral)
    moreover have "tlbp t = t\<lparr>INDEX := of_nat m\<rparr>" using Some by (simp add: tlbp_def del: upt_rec_numeral)
    ultimately show ?thesis by blast
  qed
  moreover have "unat (of_nat m :: u32) = m" if "m < 16" for m using that by (simp add: unat_of_nat)
  ultimately show ?thesis unfolding tlb_ok_def by (auto simp: exI[of _ 0])
qed

lemma log_ok_empty: "log_ok (kstdout zero_state)"
  by (simp add: zero_state_def log_ok_def)

lemma S0_facts:
  "logs_ok S0" "someone (kernel S0)" "supports (kernel S0) 0x20004000 = sup_of 1" "pool_mapped S0"
  "kernel S0 = level_kernel" "calls S0 = []" "tlb S0 = tlb0" "swap_pool_addr S0 = 0x20020000"
  by (simp_all add: S0_def logs_ok_def log_ok_empty someone_def level_kernel_def pool_mapped_def check_frame_occupied_def)

lemma sup_of_facts:
  "sup_asid (sup_of asid) = asid" "page_of (entry_hi (sup_except_state (sup_of 1) PGFAULTEXCEPT)) = Some 3"
  "1 \<le> sint asid \<Longrightarrow> sint asid \<le> int UPROCMAX \<Longrightarrow> j < MAXPAGES \<Longrightarrow>
     page_of (pte_entry_hi (sup_private_page_table (sup_of asid) j)) = Some j"
  "pte_entry_lo (sup_private_page_table (sup_of asid) j) AND VALIDON = 0"
  "is_valid_asid 1" "is_valid_asid 2"
proof -
  show "sup_asid (sup_of asid) = asid" by (simp add: sup_of_def)
  show "page_of (entry_hi (sup_except_state (sup_of 1) PGFAULTEXCEPT)) = Some 3"
    by (simp add: sup_of_def page_of_def)
  show "1 \<le> sint asid \<Longrightarrow> sint asid \<le> int UPROCMAX \<Longrightarrow> j < MAXPAGES \<Longrightarrow>
     page_of (pte_entry_hi (sup_private_page_table (sup_of asid) j)) = Some j"
    using page_of_entry(1)[where asid = asid and n = 0 and i = j] page_of_entry(2)[where asid = asid and i = 0]
    by (auto simp: sup_of_def less_Suc_eq)
  show "pte_entry_lo (sup_private_page_table (sup_of asid) j) AND VALIDON = 0"
    by (simp add: sup_of_def page_entry_def stack_entry_def)
  show "is_valid_asid 1" "is_valid_asid 2" by (simp_all add: is_valid_asid_def)
qed

text \<open>The pool and the TLB of the first process, before its first fault.\<close>

lemma S0_pool:
  "pool_inv 0x20004000 (S0\<lparr>calls := c\<rparr>)" "tlb_unique TLB_SIZE (tlb (S0\<lparr>calls := c\<rparr>))"
  "tlb_coherent TLB_SIZE 0x20004000 (supports (kernel (S0\<lparr>calls := c\<rparr>))) (tlb (S0\<lparr>calls := c\<rparr>))"
proof -
  have pages: "j < MAXPAGES \<Longrightarrow> page_of (pte_entry_hi (sup_private_page_table (sup_of 1) j)) = Some j" for j
    by (rule sup_of_facts(3)) simp_all
  have free: "\<not> occupied (S0\<lparr>calls := c\<rparr>) f" for f by (simp add: occupied_def S0_def check_frame_occupied_def)
  show "pool_inv 0x20004000 (S0\<lparr>calls := c\<rparr>)"
    using pages free S0_facts(3) sup_of_facts(4) by (simp add: pool_inv_def)
  have hi: "unat (of_nat m * PAGESIZE :: u32) = 4096 * m" if "m < 16" for m
    using that by (simp add: unat_word_ariths unat_of_nat)
  have page: "page_of (of_nat m * PAGESIZE) = None" if "m < 16" for m
    using that hi[OF that] by (simp add: page_of_def)
  have same: "m = m'" if "same_page (of_nat m * PAGESIZE) (of_nat m' * PAGESIZE)" "m < 16" "m' < 16" for m m'
  proof -
    have "unat (drop_bit ASIDSHIFT (of_nat m * PAGESIZE :: u32)) = unat (drop_bit ASIDSHIFT (of_nat m' * PAGESIZE :: u32))"
      using that(1) by (simp only: same_page_def)
    then have "unat (of_nat m * PAGESIZE :: u32) div 64 = unat (of_nat m' * PAGESIZE :: u32) div 64"
      by (simp only: unat_drop_bit_eq drop_bit_eq_div unat_div) simp
    then show ?thesis using hi that(2,3) by simp
  qed
  show "tlb_unique TLB_SIZE (tlb (S0\<lparr>calls := c\<rparr>))"
    unfolding tlb_unique_def
  proof (intro allI impI)
    fix y m m' assume "tlb_answers TLB_SIZE (tlb (S0\<lparr>calls := c\<rparr>)) y m" "tlb_answers TLB_SIZE (tlb (S0\<lparr>calls := c\<rparr>)) y m'"
    then have m: "m < 16" "m' < 16" "same_page (of_nat m * PAGESIZE) y" "same_page (of_nat m' * PAGESIZE) y"
      by (simp_all add: tlb_answers_def S0_def tlb0_def)
    then have "same_page (of_nat m * PAGESIZE) (of_nat m' * PAGESIZE)" by (simp only: same_page_def)
    then show "m = m'" using same m(1,2) by blast
  qed
  have "\<not> tlb_answers TLB_SIZE tlb0 (pte_entry_hi (sup_private_page_table (sup_of 1) j)) m" if "j < MAXPAGES" for j m
    using page[of m] pages[OF that] same_page_page_of by (fastforce simp: tlb_answers_def tlb0_def)
  then show "tlb_coherent TLB_SIZE 0x20004000 (supports (kernel (S0\<lparr>calls := c\<rparr>))) (tlb (S0\<lparr>calls := c\<rparr>))"
    using S0_facts(3,7) by (simp add: tlb_coherent_def)
qed

text \<open>The full pool: every frame is mapped by the second process.\<close>

lemma full_pool_facts:
  "logs_ok (full_pool\<lparr>calls := c\<rparr>)" "pool_full (full_pool\<lparr>calls := c\<rparr>)" "pool_mapped (full_pool\<lparr>calls := c\<rparr>)"
  "supports (kernel full_pool) 0x20004000 = sup_of 1" "calls full_pool = []" "fifo_index full_pool = 0"
  "swap_pool_table full_pool 1 = \<lparr>sw_asid = 2, sw_page_no = 0x80002, sw_pte = Some (0x20004400, of_nat 2)\<rparr>"
  "swap_pool_addr full_pool = 0x20020000" "someone (kernel full_pool)"
  "pte_entry_lo (sup_private_page_table (supports (kernel full_pool) 0x20004400) 2) = 0x20021000 OR VALIDON OR DIRTYON"
proof -
  show "logs_ok (full_pool\<lparr>calls := c\<rparr>)" using S0_facts(1) by (simp add: full_pool_def logs_ok_def)
  show "pool_full (full_pool\<lparr>calls := c\<rparr>)" "calls full_pool = []" "fifo_index full_pool = 0"
    "supports (kernel full_pool) 0x20004000 = sup_of 1"
    "swap_pool_table full_pool 1 = \<lparr>sw_asid = 2, sw_page_no = 0x80002, sw_pte = Some (0x20004400, of_nat 2)\<rparr>"
    "swap_pool_addr full_pool = 0x20020000"
    "pte_entry_lo (sup_private_page_table (supports (kernel full_pool) 0x20004400) 2) = 0x20021000 OR VALIDON OR DIRTYON"
    by (simp_all add: full_pool_def S0_def pool_full_def)
  show "someone (kernel full_pool)" by (simp add: full_pool_def someone_def level_kernel_def)
  have "page_of (pte_entry_hi (page_entry 2 0 j)) = Some j" if "j < 31" for j
    using page_of_entry(1)[where asid = 2 and n = 0, of j] that by simp
  then have "frame_mapped (supports (kernel full_pool)) (swap_pool_table full_pool f)" if "f < 16" for f
    using that unfolding frame_mapped_def by (intro conjI exI[of _ "0x20004400"] exI[of _ "f + 1"]) (simp_all add: full_pool_def is_valid_asid_def)
  then show "pool_mapped (full_pool\<lparr>calls := c\<rparr>)" by (simp add: pool_mapped_def)
qed

text \<open>The first support structure is the only one in use, or all are free.\<close>

definition free_list :: "u32 list \<Rightarrow> snode lheap" where
  "free_list xs = (case xs of [] \<Rightarrow> \<lparr>l_next = (\<lambda>_. Some support_free), l_prev = (\<lambda>_. Some support_free)\<rparr>
     | [a] \<Rightarrow> \<lparr>l_next = (\<lambda>n. if n = support_free then Some (sup_p_list a) else Some support_free),
               l_prev = (\<lambda>n. if n = support_free then Some (sup_p_list a) else Some support_free)\<rparr>
     | _ \<Rightarrow> supp_lh S0)"

lemma free_list_facts: "free_supports (S0\<lparr>supp_lh := free_list []\<rparr>) []" "free_supports (S0\<lparr>supp_lh := free_list [a]\<rparr>) [a]"
  by (simp_all add: free_supports_def free_list_def ring_def)

section \<open>The nucleus below\<close>

text \<open>
  The flash device that was given a command finishes it: its bit is set in the bitmap of line 4, its
  status is 1, and the interrupt of line 4 is pending.
\<close>

abbreviation (input) flash_base :: u32 where "flash_base \<equiv> 0x100000D4"

definition flash_irq :: "u32 \<Rightarrow> kstate \<Rightarrow> kstate" where
  "flash_irq cmd k = k\<lparr>cp0_cause := 0x1000, mem := (\<lambda>x.
     if x = 0x10000044 then push_bit (unat (drop_bit 4 (cmd - RECV_COMMAND - flash_base))) 1
     else if x \<in> {0x10000040, 0x10000048, 0x1000004C, 0x10000050} then 0
     else if x = cmd - RECV_COMMAND then 1 else mem k x)\<rparr>"

definition call_state :: state_t where
  "call_state = zero_regs\<lparr>cause := 0x20\<rparr>"

definition WN :: world where
  "WN = nucleus_world U0 flash_irq call_state W0"

text \<open>The words that hold semaphores: those of the devices, and that of the swap pool.\<close>

definition sem_words :: "u32 set" where
  "sem_words = insert 0x20003000 (device_sems U0)"

text \<open>The first process, at run time, with a support structure and the semaphore of the swap pool free.\<close>

definition user_kernel :: kstate where
  "user_kernel = (upd_pcb 19 (\<lambda>p. p\<lparr>p_support := 0x20004000\<rparr>) running)
     \<lparr>mem := (mem running)(0x20003000 := 1), supports := (\<lambda>_. sup_of 1)\<rparr>"

definition SN :: sstate where
  "SN = S0\<lparr>kernel := user_kernel\<rparr>"

lemma sem_words_range:
  assumes "x \<in> sem_words"
  shows "0x20002000 \<le> unat x" "unat x < 0x20003004" "x \<noteq> 0" "word_aligned x" "x = 0x20003000 \<or> unat x < 0x20003000"
proof -
  have sem: "unat (sem_addr_of U0 (int j)) = 0x20002000 + 4 * j" if "j < 49" for j
    using unat_sem_addr[OF sems_ok_U0, of j] that by (simp add: SEMAPHORES_NUM_U0) (simp add: U0_def)
  have "word_aligned 0x20003000" by (simp add: word_aligned_def take_bit_eq_mod)
  moreover have "word_aligned (sem_addr_of U0 (int j))" if "j < 49" for j
    using sem_addr_facts(2)[OF sems_ok_U0, of j] that by (simp add: SEMAPHORES_NUM_U0)
  moreover have "x = 0x20003000 \<or> (\<exists>j<48. x = sem_addr_of U0 (int j))"
    using assms by (auto simp: sem_words_def device_sems_def SEMAPHORES_NUM_U0)
  ultimately have x: "word_aligned x \<and> (x = 0x20003000 \<or> (\<exists>j<48. unat x = 0x20002000 + 4 * j))" using sem by fastforce
  then show r: "0x20002000 \<le> unat x" "unat x < 0x20003004" "word_aligned x" "x = 0x20003000 \<or> unat x < 0x20003000" by auto
  then show "x \<noteq> 0" by auto
qed

lemma flash_done:
  assumes "n < 8"
  shows "device_done U0 sem_words 4 n 1 (flash_irq (flash_base + of_nat n * 16 + RECV_COMMAND))"
proof -
  let ?cmd = "flash_base + of_nat n * 16 + RECV_COMMAND"
  have n: "n \<in> {0, 1, 2, 3, 4, 5, 6, 7}" using assms by auto
  have idx: "unat (drop_bit 4 (?cmd - RECV_COMMAND - flash_base)) = n"
    using n by (elim insertE; simp add: drop_bit_eq_div)
  have line: "only_line U0 4 0x1000"
    by (simp add: only_line_def pending_line_def U0_def)
  have "device_loop 8 (push_bit n 1) 0 = n \<and> unat (push_bit n 1 :: u32) < 2 ^ 8"
    using n by (elim insertE; simp add: device_loop.simps push_bit_eq_mult drop_bit_eq_div)
  then have bit: "device_loop 8 (push_bit n 1) 0 = n" "unat (push_bit n 1 :: u32) < 2 ^ 8" by blast+
  have il: "j \<in> {3, 4, 5, 6, 7}" if "3 \<le> j" "j \<le> 7" for j :: nat using that by auto
  have U: "IL_DISK U0 = 3" "IL_TERMINAL U0 = 7" "N_DEV_PER_IL U0 = 8"
    "\<And>il. CDEV_BITMAP_ADDR U0 il = 0x10000040 + of_nat ((il - 3) * 4)"
    "\<And>i n. devreg U0 i n = 0x10000054 + of_nat (i * 128 + n * 16)" by (simp_all add: U0_def)
  have base: "devreg U0 (4 - 3) n = flash_base + of_nat n * 16" by (simp add: U(5))
  have away: "flash_base + of_nat n * 16 \<notin> {0x10000040, 0x10000044, 0x10000048, 0x1000004C, 0x10000050}"
    using n by (elim insertE; simp)
  have low: "unat (flash_base + of_nat n * 16 :: u32) < 0x20002000"
    using n by (elim insertE; simp)
  have keep: "mem (flash_irq ?cmd k) x = mem k x" if "x \<in> sem_words" for x k
  proof -
    have "x \<noteq> flash_base + of_nat n * 16" using low sem_words_range(1)[OF that] by auto
    moreover have "x \<notin> {0x10000040, 0x10000044, 0x10000048, 0x1000004C, 0x10000050}"
      using sem_words_range(1)[OF that] by auto
    ultimately show ?thesis by (simp add: flash_irq_def)
  qed
  show ?thesis
    unfolding device_done_def
  proof (intro allI conjI ballI impI)
    fix k
    show "outside k (flash_irq ?cmd k)" "supports (flash_irq ?cmd k) = supports k" by (simp_all add: flash_irq_def outside_def)
    show "only_line U0 4 (cp0_cause (flash_irq ?cmd k))" using line by (simp add: flash_irq_def)
    show "mem (flash_irq ?cmd k) x = mem k x" if "x \<in> sem_words" for x using keep[OF that] .
    have stat: "mem (flash_irq (b + RECV_COMMAND) k) b = 1"
      if "b \<notin> {0x10000040, 0x10000044, 0x10000048, 0x1000004C, 0x10000050}" for b
      using that by (simp add: flash_irq_def)
    show "mem (flash_irq ?cmd k) (devreg U0 (4 - IL_DISK U0) n + RECV_STATUS) = 1"
      unfolding U(1) base add_0_right by (rule stat[OF away])
    have "mem (flash_irq ?cmd k) 0x10000044 = push_bit n 1" using idx by (simp add: flash_irq_def)
    moreover have "CDEV_BITMAP_ADDR U0 4 = 0x10000044" by (simp add: U(4))
    ultimately show "find_device_number U0 (CDEV_BITMAP_ADDR U0 4) (flash_irq ?cmd k) = Some n"
      using bit(1) U(3) by (simp add: find_device_number_def load_word_def word_aligned_def take_bit_eq_mod)
    fix j assume "IL_DISK U0 \<le> j \<and> j \<le> IL_TERMINAL U0"
    then have "j \<in> {3, 4, 5, 6, 7}" using il U(1,2) by simp
    then show "unat (mem (flash_irq ?cmd k) (CDEV_BITMAP_ADDR U0 j)) < 2 ^ N_DEV_PER_IL U0"
      using idx bit(2) U(3,4) by (auto simp: flash_irq_def)
  qed
qed

lemma valid_asid_flash:
  assumes "is_valid_asid asid"
  obtains n where "n < 8" "asid = of_nat n + 1" "unat (asid - 1) = n"
proof -
  have "0 \<le> sint asid" "unat asid \<le> 8" "1 \<le> unat asid"
    using assms unat_sint[of asid] unfolding is_valid_asid_def by linarith+
  moreover have "asid = of_nat (unat asid - 1) + 1" using calculation(3)
    by (simp add: of_nat_diff)
  moreover have "unat (asid - 1) = unat asid - 1" using calculation(3) by (simp add: unat_sub_if')
  ultimately show thesis using that[of "unat asid - 1"] by simp
qed

lemma flash_ok_U0:
  assumes "is_valid_asid asid"
  shows "flash_ok U0 W0 flash_irq sem_words asid"
proof -
  obtain n where n: "n < 8" "asid = of_nat n + 1" "unat (asid - 1) = n" by (rule valid_asid_flash[OF assms])
  have cases: "n \<in> {0, 1, 2, 3, 4, 5, 6, 7}" using n(1) by auto
  have reg: "device_reg 4 (of_nat n) = flash_base + of_nat n * 16"
    using cases by (elim insertE; simp add: device_reg_def push_bit_eq_mult)
  have low: "unat (flash_base + of_nat n * 16 + 4 :: u32) < 0x20002000" "unat (flash_base + of_nat n * 16 + 8 :: u32) < 0x20002000"
    using cases by (elim insertE; simp)+
  have out: "x \<notin> sem_words" if "unat x < 0x20002000" for x using that sem_words_range(1)[of x] by auto
  have regs: "command_addr U0 4 n False = flash_base + of_nat n * 16 + 4" "devreg U0 1 n = flash_base + of_nat n * 16"
    using cases by (elim insertE; simp add: command_addr_def; simp add: U0_def)+
  have "IL_FLASH U0 = 4" "IL_DISK U0 = 3" "N_DEV_PER_IL U0 = 8" by (simp_all add: U0_def)
  then show ?thesis
    using n reg regs flash_done[OF n(1)] out[OF low(1)] out[OF low(2)] device_word[of 4 "of_nat n"]
    unfolding flash_ok_def Let_def by simp
qed

lemma level_env_U0: "level_env U0 W0 flash_irq call_state sem_words"
proof -
  have "registers_ok U0" "IL_DISK U0 \<le> IL_FLASH U0" "IL_FLASH U0 \<le> IL_PRINTER U0" by (simp_all add: registers_ok_def U0_def)
  moreover have "syscall_regs U0 call_state" by (simp add: syscall_regs_def call_state_def zero_regs_def U0_def drop_bit_eq_div)
  moreover have "sem_swap_pool_table W0 = 0x20003000" by (simp add: W0_def)
  moreover have "0x20003000 \<notin> device_sems U0"
  proof
    assume "0x20003000 \<in> device_sems U0"
    then obtain j where j: "j < 48" "0x20003000 = sem_addr_of U0 (int j)" by (auto simp: device_sems_def SEMAPHORES_NUM_U0)
    have "unat (sem_addr_of U0 (int j)) = 0x20002000 + 4 * j"
      using unat_sem_addr[OF sems_ok_U0, of j] j(1) by (simp add: SEMAPHORES_NUM_U0) (simp add: U0_def)
    then have "unat (0x20003000 :: u32) = 0x20002000 + 4 * j" unfolding j(2)[symmetric] .
    then show False using j(1) by simp
  qed
  ultimately show ?thesis
    using machine_ok_U0 devices_ok_U0 flash_ok_U0 sem_words_range(3,4) by (auto simp: level_env_def sem_words_def)
qed

lemma user_kernel_quiet: "quiet U0 W0 flash_irq call_state sem_words 19 0x20004000 1 user_kernel"
proof -
  have same: "same_kernel running user_kernel" "active_process user_kernel = active_process running"
    "yield_process user_kernel = yield_process running"
    by (simp_all add: user_kernel_def same_kernel_def)
  have "runs_alone 19 running view2" using running_kernel_ok running_facts(4) boot_lists(5,6) by (simp add: runs_alone_def)
  note r = runs_alone_same[OF this same]
  have "mem user_kernel y = 0" if "y \<in> device_sems U0" for y
  proof -
    obtain j where j: "j < 48" "y = sem_addr_of U0 (int j)" using \<open>y \<in> device_sems U0\<close> by (auto simp: device_sems_def SEMAPHORES_NUM_U0)
    have "y \<noteq> 0x20003000" using that level_env_U0 by (auto simp: level_env_def W0_def)
    then show ?thesis using running_facts(6)[of j] j by (simp add: user_kernel_def SEMAPHORES_NUM_U0)
  qed
  moreover have "p_support (pcb_table user_kernel 19) = 0x20004000" "mem user_kernel 0x20003000 = 1"
    by (simp_all add: user_kernel_def)
  moreover have "sem_swap_pool_table W0 = 0x20003000" by (simp add: W0_def)
  ultimately show ?thesis using r level_env_U0 running_facts(2) by (auto simp: quiet_def)
qed

lemma SN_paging: "paging_ok TLB_SIZE 0x20004000 SN"
proof -
  have "supports (kernel SN) 0x20004000 = supports (kernel S0) 0x20004000" using S0_facts(3) by (simp add: SN_def user_kernel_def)
  moreover have "swap_pool_table SN = swap_pool_table S0" "swap_pool_addr SN = swap_pool_addr S0" "tlb SN = tlb S0"
    "kstderr SN = kstderr S0" "kdebug SN = kdebug S0" by (simp_all add: SN_def)
  ultimately show ?thesis using S0_pool[of "calls S0"] S0_facts(1,3) sup_of_facts(1,5)
    by (simp add: paging_ok_def pool_inv_def occupied_def frame_entry_def logs_ok_def tlb_coherent_def)
qed

section \<open>The lock of the swap pool\<close>

lemma lock_word_U0: "lock_word U0 0x20003000"
proof -
  have "sem_addr_of U0 (int j) \<noteq> 0x20003000" if "j < 49" for j
  proof
    assume "sem_addr_of U0 (int j) = 0x20003000"
    then have "unat (0x20003000 :: u32) = 0x20002000 + 4 * j"
      using unat_sem_addr[OF sems_ok_U0, of j] that by (simp add: SEMAPHORES_NUM_U0) (simp add: U0_def)
    with that show False by simp
  qed
  moreover have "devreg U0 (il - 3) n + r \<noteq> 0x20003000" if "3 \<le> il" "il \<le> 7" "n < 8" "r \<in> {4, 12}" for il n r
  proof -
    have "il - 3 \<in> {0, 1, 2, 3, 4}" "n \<in> {0, 1, 2, 3, 4, 5, 6, 7}" using that by auto
    with that(4) show ?thesis by (elim insertE; simp add: U0_def)
  qed
  moreover have "IL_DISK U0 = 3" "IL_TERMINAL U0 = 7" "N_DEV_PER_IL U0 = 8" by (simp_all add: U0_def)
  ultimately show ?thesis
    unfolding lock_word_def SEMAPHORES_NUM_U0 by (simp only:) (simp add: word_aligned_def take_bit_eq_mod)
qed

text \<open>The first process takes the lock.\<close>

lemma lock_taken:
  "\<exists>s. locking U0 0x20003000 s {19} \<and> mem s 0x20003000 = 0 \<and> holders 0x20003000 s {19} = {19}"
proof -
  let ?k = "0x20003000 :: u32" and ?s = "running\<lparr>mem := (mem running)(0x20003000 := 1)\<rparr>"
  let ?t = "trap call_state PASSEREN ?k 0 0 ?s"
  have ok: "kernel_ok ?s view2" by (rule kernel_ok_mem[OF running_kernel_ok])
  have w: "waiting ?s view2 = (\<lambda>_. [])" using store_inv(2)[OF running_facts(1)] running_facts(2) by simp
  have o: "outside running ?s" "outside ?s ?t" by (simp_all add: outside_def trap_def)
  have "waits_for ?k ?s = {}" using waits_for_waiting[OF kernel_okD(1)[OF ok], of ?k] w by simp
  with o(1) have free: "locking U0 ?k ?s {}" by (intro locking.free[OF reachable_running]) simp_all
  have regs: "syscall_regs U0 call_state" using level_env_U0 by (simp add: level_env_def)
  have a: "active_process ?t = Some 19" "asks U0 ?t PASSEREN ?k" "exception_ok U0 ?t" "mem ?t ?k = mem ?s ?k"
    using running_facts(4) regs lock_wordD(2)[OF lock_word_U0]
    by (simp_all add: asks_def trap_def syscall_regs_def exception_ok_def syscall_args_ok_def call_regs_def call_state_def)
  have "runs_alone 19 ?s view2" using ok running_facts(4) boot_lists(5,6) by (simp add: runs_alone_def)
  from nucleus_passeren[OF this regs, of ?k "\<lambda>_ k. k" 0 0] lock_wordD(2)[OF lock_word_U0] w
  obtain k' v' where k': "exception_handler U0 ?t = Some (Exit (LDST (p_s (pcb_table k' 19))) k')" "runs_alone 19 k' v'"
    "waiting k' v' = waiting ?s view2" "mem k' = (mem ?s)(?k := 0)" by auto
  have "locking U0 ?k k' (insert 19 {})" by (rule locking.lock[OF free o(2) a(4,3,2,1) k'(1)]) simp
  moreover have "waits_for ?k k' = {}" using waits_for_waiting[of k' v' ?k] k'(2,3) w
    by (simp add: runs_alone_def kernel_ok_def)
  ultimately show ?thesis using k'(4) by (intro exI[of _ k']) (simp add: holders_def)
qed

end
