(* ===== verification/Support_Level.thy ===== *)
theory Support_Level
  imports Worlds
begin

text \<open>
  The properties of the support level (\<^verbatim>\<open>phase3/\<close>): paging, the allocation of support structures, the
  calls of the user processes and the instantiator. Each is witnessed on an environment of \<open>Worlds\<close>.
\<close>

section \<open>Paging\<close>



text \<open>
  C4 (invariant). A process that has the swap pool for itself: a fault on a page that is not mapped keeps
  the invariant of the pool (the frames in use hold different pages of its table, their entries map
  them, no other entry is valid) and the TLB in step with the page table.
\<close>

theorem page_fault_keeps_pool:
  assumes calls: "SYSCALL W GETSUPPORTPTR 0 0 0 s = Some (SRet a s1)" "SYSCALL W PASSEREN (sem_swap_pool_table W) 0 0 s1 = Some (SRet r s2)"
    and fault: "cause (sup_except_state (supports (kernel s1) a) PGFAULTEXCEPT) \<noteq> CAUSE_TLB_MOD"
      "st = sup_except_state (supports (kernel s2) a) PGFAULTEXCEPT" "page_of (entry_hi st) = Some i"
      "pte_entry_lo (sup_private_page_table (supports (kernel s2) a) i) AND VALIDON = 0"
    and inv: "pool_inv a s2" "tlb_unique n (tlb s2)" "tlb_coherent n a (supports (kernel s2)) (tlb s2)"
    and proc: "is_valid_asid (sup_asid (supports (kernel s2) a))" "logs_ok s2"
    and env: "tlb_ok W n" "undisturbed W I" "I (kernel s2)" "flash_gives W I (\<lambda>_ _. DEV_STATUS_READY)"
      "gives_to W I J VERHOGEN (sem_swap_pool_table W) 0 0 q"
  shows "\<exists>s'. support_tlb W s = Some (SExit (SLDST st) s') \<and> pool_inv a s' \<and> tlb_unique n (tlb s')
    \<and> tlb_coherent n a (supports (kernel s')) (tlb s')
    \<and> pte_entry_lo (sup_private_page_table (supports (kernel s') a) i) AND VALIDON \<noteq> 0"
proof -
  let ?asid = "sup_asid (supports (kernel s2) a)"
  obtain f s3 where pick: "pick_page s2 = (f, s3)" by (cases "pick_page s2")
  let ?e = "swap_pool_table s2 f" and ?addr = "swap_pool_addr s2 + of_nat f * PAGESIZE"
  note I = pool_invD[OF inv(1)]
  have i: "i < MAXPAGES" by (rule page_of_less[OF fault(3)])
  have f: "f < POOLSIZE" by (rule pick_page_less[OF pick])
  from support_tlb_fault[OF calls fault(1-3) I(1) proc(1) refl proc(2) pool_inv_mapped[OF inv(1)] pick refl refl env(2-5)]
  obtain s' where s': "support_tlb W s = Some (SExit (SLDST st) s')" "supports (kernel s') = faulted a i ?addr ?e (supports (kernel s2))"
    "swap_pool_table s' = (swap_pool_table s2)(f := \<lparr>sw_asid = ?asid, sw_page_no = drop_bit VPNSHIFT (entry_hi st),
          sw_pte = Some (a, of_nat i)\<rparr>)"
    "swap_pool_addr s' = swap_pool_addr s2" "tlb s' = faulted_tlb W a i ?addr ?e (supports (kernel s2)) (tlb s2)" by blast
  have e: "check_frame_occupied ?e \<Longrightarrow> \<exists>j<MAXPAGES. sw_pte ?e = Some (a, of_nat j)"
    using I(3)[of f] f by (auto simp: occupied_def)
  have "pool_inv a s'" by (rule pool_inv_fault[OF inv(1) i fault(4) f refl refl proc(1) s'(3,4,2)])
  moreover have "pte_entry_lo (sup_private_page_table (supports (kernel s') a) i) = frame_entry s2 f"
    unfolding s'(2) by (simp add: faulted_def frame_entry_def)
  ultimately show ?thesis
    using s'(1,2,5) faulted_coherent[OF env(1) inv(2,3) i I(2) e] frame_entry_valid[of s2 f] by auto
qed

theorem page_fault_keeps_pool_witness:
  "\<exists>s' st. support_tlb W0 S0 = Some (SExit (SLDST st) s') \<and> pool_inv 0x20004000 s'
    \<and> tlb_coherent TLB_SIZE 0x20004000 (supports (kernel s')) (tlb s')"
proof -
  let ?s1 = "S0\<lparr>calls := [(GETSUPPORTPTR, 0, 0, 0)]\<rparr>"
  let ?s2 = "S0\<lparr>calls := [(GETSUPPORTPTR, 0, 0, 0), (PASSEREN, sem_swap_pool_table W0, 0, 0)]\<rparr>"
  have c: "SYSCALL W0 GETSUPPORTPTR 0 0 0 S0 = Some (SRet 0x20004000 ?s1)"
    "SYSCALL W0 PASSEREN (sem_swap_pool_table W0) 0 0 ?s1 = Some (SRet 0 ?s2)"
    using S0_facts(6) by (simp_all add: SYSCALL_def) (simp_all add: W0_def sys_answers_def)
  have "cause (sup_except_state (sup_of 1) PGFAULTEXCEPT) \<noteq> CAUSE_TLB_MOD" by (simp add: sup_of_def zero_regs_def)
  with page_fault_keeps_pool[OF c _ refl _ _ S0_pool(1) S0_pool(2) S0_pool(3) _ _ tlb_ok_W0 W0_undisturbed _ W0_gives(6) W0_gives(3), of 3]
  show ?thesis using S0_facts(1-6) sup_of_facts(1,2,4,5) by (simp add: logs_ok_def) blast
qed

text \<open>
  C19 (error). The page that is evicted keeps its mapping when another process owns it: the handler
  clears the entry in the page table of the process that faults, not in that of the owner. After
  the fault the entry of the owner and the entry of the new page both map the frame, valid and
  writable, so that the two processes write into each other's page.
\<close>

theorem eviction_keeps_owner_mapping:
  assumes calls: "SYSCALL W GETSUPPORTPTR 0 0 0 s = Some (SRet a s1)" "SYSCALL W PASSEREN (sem_swap_pool_table W) 0 0 s1 = Some (SRet r s2)"
    and fault: "cause (sup_except_state (supports (kernel s1) a) PGFAULTEXCEPT) \<noteq> CAUSE_TLB_MOD"
      "st = sup_except_state (supports (kernel s2) a) PGFAULTEXCEPT" "page_of (entry_hi st) = Some i"
    and proc: "a \<noteq> 0" "is_valid_asid (sup_asid (supports (kernel s2) a))"
    and pool: "logs_ok s2" "pool_mapped s2" "pick_page s2 = (f, s3)" "addr = swap_pool_addr s2 + of_nat f * PAGESIZE"
    and owner: "sw_pte (swap_pool_table s2 f) = Some (b, of_nat j)" "b \<noteq> a" "j < MAXPAGES"
      "pte_entry_lo (sup_private_page_table (supports (kernel s2) b) j) = addr OR VALIDON OR DIRTYON"
    and env: "undisturbed W I" "I (kernel s2)" "flash_gives W I (\<lambda>_ _. DEV_STATUS_READY)"
      "gives_to W I J VERHOGEN (sem_swap_pool_table W) 0 0 q"
  shows "\<exists>s'. support_tlb W s = Some (SExit (SLDST st) s')
    \<and> pte_entry_lo (sup_private_page_table (supports (kernel s') a) i) = addr OR VALIDON OR DIRTYON
    \<and> pte_entry_lo (sup_private_page_table (supports (kernel s') b) j) = addr OR VALIDON OR DIRTYON
    \<and> sw_pte (swap_pool_table s' f) = Some (a, of_nat i)"
proof -
  from support_tlb_fault[OF calls fault(1-3) proc(1,2) refl pool(1-3) refl pool(4) env] obtain s' where
    "support_tlb W s = Some (SExit (SLDST st) s')"
    "supports (kernel s') = faulted a i addr (swap_pool_table s2 f) (supports (kernel s2))"
    "swap_pool_table s' = (swap_pool_table s2)(f := \<lparr>sw_asid = sup_asid (supports (kernel s2) a),
       sw_page_no = drop_bit VPNSHIFT (entry_hi st), sw_pte = Some (a, of_nat i)\<rparr>)" by blast
  then show ?thesis using owner by (intro exI[of _ s']) (simp add: faulted_def evicted_def)
qed

theorem eviction_keeps_owner_mapping_witness:
  "\<exists>s' st. support_tlb W0 full_pool = Some (SExit (SLDST st) s')
    \<and> pte_entry_lo (sup_private_page_table (supports (kernel s') 0x20004000) 3) = 0x20021000 OR VALIDON OR DIRTYON
    \<and> pte_entry_lo (sup_private_page_table (supports (kernel s') 0x20004400) 2) = 0x20021000 OR VALIDON OR DIRTYON"
proof -
  let ?s1 = "full_pool\<lparr>calls := [(GETSUPPORTPTR, 0, 0, 0)]\<rparr>"
  let ?s2 = "full_pool\<lparr>calls := [(GETSUPPORTPTR, 0, 0, 0), (PASSEREN, sem_swap_pool_table W0, 0, 0)]\<rparr>"
  have c: "SYSCALL W0 GETSUPPORTPTR 0 0 0 full_pool = Some (SRet 0x20004000 ?s1)"
    "SYSCALL W0 PASSEREN (sem_swap_pool_table W0) 0 0 ?s1 = Some (SRet 0 ?s2)"
    using full_pool_facts(5) by (simp_all add: SYSCALL_def) (simp_all add: W0_def sys_answers_def)
  have pick: "pick_page ?s2 = (1, ?s2\<lparr>fifo_index := 1\<rparr>)"
    using pick_page_full[OF full_pool_facts(2)] full_pool_facts(6) by simp
  have "cause (sup_except_state (sup_of 1) PGFAULTEXCEPT) \<noteq> CAUSE_TLB_MOD" by (simp add: sup_of_def zero_regs_def)
  with eviction_keeps_owner_mapping[OF c _ refl _ _ _ full_pool_facts(1,3) pick refl _ _ _ _ W0_undisturbed _ W0_gives(6) W0_gives(3),
      of 3 "0x20004400" 2]
  show ?thesis using full_pool_facts(4-10) sup_of_facts(1,2,5) by (simp del: One_nat_def) blast
qed





text \<open>
  C33 (functional). The choice of the frame: the first free one, as long as there is one; when all are in
  use, the frames in turn, so that sixteen faults in a row use every frame once.
\<close>

theorem frames_chosen_in_turn:
  "(f < POOLSIZE \<and> sw_asid (swap_pool_table s f) = - 1 \<and> (\<forall>g<f. sw_asid (swap_pool_table s g) \<noteq> - 1) \<longrightarrow> pick_page s = (f, s))
   \<and> (pool_full s \<longrightarrow> picks n s = map (\<lambda>k. (unat (fifo_index s) + 1 + k) mod POOLSIZE) [0..<n]
      \<and> set (picks POOLSIZE s) = {..<POOLSIZE})"
proof -
  have p: "pool_full s \<Longrightarrow> picks n s = map (\<lambda>k. (unat (fifo_index s) + 1 + k) mod POOLSIZE) [0..<n]" for n
    by (rule picks_full)
  have "\<exists>k<16. (c + k) mod 16 = g" if "g < 16" for c g :: nat
  proof (intro exI conjI)
    show "(g + 16 - c mod 16) mod 16 < 16" by simp
    have "(c + (g + 16 - c mod 16) mod 16) mod 16 = (c mod 16 + (g + 16 - c mod 16)) mod 16" by (simp only: mod_simps)
    moreover have "c mod 16 < 16" by simp
    then have "c mod 16 + (g + 16 - c mod 16) = g + 16" by linarith
    ultimately show "(c + (g + 16 - c mod 16) mod 16) mod 16 = g" using that by simp
  qed
  then have "g \<in> (\<lambda>k. (c + k) mod 16) ` {..<16}" if "g < 16" for c g :: nat using that by fastforce
  then have "(\<lambda>k. (c + k) mod 16) ` {..<16} = {..<16}" for c :: nat by auto
  then have "pool_full s \<Longrightarrow> set (picks POOLSIZE s) = {..<POOLSIZE}"
    by (simp only: p set_map set_upt lessThan_atLeast0)
  then show ?thesis using p pick_page_free[of f s] by blast
qed

theorem frames_chosen_in_turn_witness:
  "pick_page S0 = (0, S0) \<and> set (picks POOLSIZE full_pool) = {..<POOLSIZE} \<and> picks 3 full_pool = [1, 2, 3]"
proof -
  have f: "pool_full full_pool" using full_pool_facts(2)[of "calls full_pool"] by simp
  have "sw_asid (swap_pool_table S0 0) = - 1" by (simp add: S0_def)
  then show ?thesis using frames_chosen_in_turn[of 0 S0] frames_chosen_in_turn[of 0 full_pool 3] f full_pool_facts(6)
    by (simp add: upt_rec)
qed

text \<open>
  C30 (equivalence). The translation of an address to an index of the page table is the one of the
  specification, page_of, on every one of the 2^32 addresses: the 31 pages from the start of the
  user segment, and the page below its end for the stack; any other address is rejected.
\<close>

theorem page_index_exact:
  assumes "logs_ok s"
  shows "case page_of addr of Some i \<Rightarrow> i < MAXPAGES \<and> entryhi_to_index addr s = Some (SRet (of_nat i) s)
    | None \<Rightarrow> panics (entryhi_to_index addr s)"
  using entryhi_to_index_page[OF assms] page_of_less by (auto split: option.split)

theorem page_index_exact_witness:
  "entryhi_to_index 0x8001E123 S0 = Some (SRet 30 S0) \<and> panics (entryhi_to_index 0x8001F000 S0)
    \<and> entryhi_to_index 0xBFFFF040 S0 = Some (SRet 31 S0)"
  using page_index_exact[OF S0_facts(1), of "0x8001E123"] page_index_exact[OF S0_facts(1), of "0x8001F000"]
    page_index_exact[OF S0_facts(1), of "0xBFFFF040"] by (simp add: page_of_def)

text \<open>
  C32 (functional). A TLB refill: for an address of page i of the running process, the handler enters that
  process' page table entry i into the TLB, changes nothing else but the log, and retries the
  interrupted instruction.
\<close>

theorem tlb_refill_loads_entry:
  assumes "tlb_ok W n" "logs_ok s" "active_process (kernel s) = Some p" "p_support (pcb_table (kernel s) p) = a" "a \<noteq> 0"
    and "st = states (kernel s) BIOSDATAPAGE" "page_of (entry_hi st) = Some i"
  shows "\<exists>m<n. \<exists>t d. tlb_refill_handler W s = Some (SExit (SLDST st) (s\<lparr>tlb := t, kdebug := d\<rparr>))
    \<and> tlb_entries t = (tlb_entries (tlb s))(m := sup_private_page_table (supports (kernel s) a) i) \<and> log_ok d"
  by (rule refill[OF assms])

theorem tlb_refill_loads_entry_witness:
  "\<exists>m s' st. tlb_refill_handler W0 S0 = Some (SExit (SLDST st) s')
    \<and> tlb_entries (tlb s') m = sup_private_page_table (sup_of 1) 3"
proof -
  have "active_process (kernel S0) = Some 19" "p_support (pcb_table (kernel S0) 19) = 0x20004000"
    "page_of (entry_hi (states (kernel S0) BIOSDATAPAGE)) = Some 3" "supports (kernel S0) 0x20004000 = sup_of 1"
    by (simp_all add: S0_def level_kernel_def page_of_def zero_regs_def)
  from tlb_refill_loads_entry[OF tlb_ok_W0 S0_facts(1) this(1,2) _ refl this(3)] this(4) show ?thesis by fastforce
qed

text \<open>
  C31 (roundtrip). A new page table: entry j of the table that init_page_table sets up leads back to index
  j, is not valid, and is writable exactly if the page lies beyond the text of the program, whose
  length the header on the flash device of the process gives.
\<close>

theorem new_page_table_roundtrip:
  assumes env: "undisturbed W I" "flash_gives W I (\<lambda>_ _. DEV_STATUS_READY)" "I (kernel s)" "logs_ok s"
    and a: "a \<noteq> 0" "is_valid_asid asid" and h: "header_data W + 20 \<noteq> 0" "word_aligned (header_data W + 20)"
  shows "\<exists>s'. init_page_table W (Some a) asid s = Some (SRet True s') \<and> calls s' = calls s @ [read_call W asid 0]
    \<and> (\<forall>j<MAXPAGES. \<exists>p. pte_at (Some a) (of_nat j) s' = Some p \<and> entryhi_to_index (pte_entry_hi p) s' = Some (SRet (of_nat j) s')
        \<and> pte_entry_lo p = (if j < MAXPAGES - 1 \<and> of_nat j < mem (kernel s') (header_data W + 20) div PAGESIZE then 0 else DIRTYON))
    \<and> (\<forall>b. b \<noteq> a \<longrightarrow> supports (kernel s') b = supports (kernel s) b)"
proof -
  from init_page_table_ready[OF env(1-3) a h] obtain \<kappa> n where
    t: "init_page_table W (Some a) asid s = Some (SRet True (s\<lparr>kernel := \<kappa>,
      swap_pool_batons := (swap_pool_batons s)(unat (asid - 1) := False), calls := calls s @ [read_call W asid 0]\<rparr>))"
    "n = mem \<kappa> (header_data W + 20) div PAGESIZE"
    "supports \<kappa> = (supports (kernel s))(a := (supports (kernel s) a)\<lparr>sup_private_page_table :=
        (new_table asid n (MAXPAGES - 1) (sup_private_page_table (supports (kernel s) a)))(MAXPAGES - 1 := stack_entry asid)\<rparr>)"
    by blast
  let ?t = "(new_table asid n (MAXPAGES - 1) (sup_private_page_table (supports (kernel s) a)))(MAXPAGES - 1 := stack_entry asid)"
  define s' where "s' = s\<lparr>kernel := \<kappa>,
      swap_pool_batons := (swap_pool_batons s)(unat (asid - 1) := False), calls := calls s @ [read_call W asid 0]\<rparr>"
  have s': "logs_ok s'" "supports (kernel s') a = (supports (kernel s) a)\<lparr>sup_private_page_table := ?t\<rparr>" "mem (kernel s') = mem \<kappa>"
    "\<forall>b. b \<noteq> a \<longrightarrow> supports (kernel s') b = supports (kernel s) b" "calls s' = calls s @ [read_call W asid 0]"
    using env(4) t(3) by (simp_all add: s'_def logs_ok_def)
  have "pte_at (Some a) (of_nat j) s' = Some (?t j) \<and> entryhi_to_index (pte_entry_hi (?t j)) s' = Some (SRet (of_nat j) s')
      \<and> pte_entry_lo (?t j) = (if j < MAXPAGES - 1 \<and> of_nat j < n then 0 else DIRTYON)" if j: "j < MAXPAGES" for j
    using pte_at_Some[OF a(1) j] s'(2) entryhi_to_index_page(1)[OF s'(1) new_table_ready(1)[OF a(2) refl j]] j
    by (simp add: new_table_def page_entry_def stack_entry_def)
  moreover have "n = mem (kernel s') (header_data W + 20) div PAGESIZE" using t(2) s'(3) by simp
  ultimately show ?thesis using t(1)[folded s'_def] s'(4,5) by blast
qed

theorem new_page_table_roundtrip_witness:
  "\<exists>s' p. init_page_table W0 (Some 0x20004000) 1 S0 = Some (SRet True s') \<and> pte_at (Some 0x20004000) 31 s' = Some p
    \<and> entryhi_to_index (pte_entry_hi p) s' = Some (SRet 31 s')"
proof -
  have h: "header_data W0 + 20 \<noteq> 0" "word_aligned (header_data W0 + 20)" by (simp_all add: W0_def word_aligned_def take_bit_eq_mod)
  from new_page_table_roundtrip[OF W0_undisturbed W0_gives(6) S0_facts(2,1) _ sup_of_facts(5) h, of "0x20004000"] obtain s' where
    s': "init_page_table W0 (Some 0x20004000) 1 S0 = Some (SRet True s')"
    "\<forall>j<32. \<exists>p. pte_at (Some 0x20004000) (of_nat j) s' = Some p \<and> entryhi_to_index (pte_entry_hi p) s' = Some (SRet (of_nat j) s')"
    by fastforce
  from s'(2)[rule_format, of 31] s'(1) show ?thesis by auto
qed

section \<open>Support structures\<close>

text \<open>
  C35 (roundtrip). Allocation of support structures: with some structure free, allocate returns the first of the free list
  and takes it out; giving it back restores the list, and giving it back again panics. With none
  free, allocate panics.
\<close>

theorem support_structure_roundtrip:
  assumes "free_supports s xs" "logs_ok s" "0 \<notin> set xs"
  shows "case xs of [] \<Rightarrow> panics (allocate W s)
    | a # ys \<Rightarrow> (\<exists>s1 s2. allocate W s = Some (SRet a s1) \<and> free_supports s1 ys
        \<and> deallocate_support W a s1 = Some (SRet () s2) \<and> free_supports s2 xs \<and> panics (deallocate_support W a s2))"
proof (cases xs)
  case Nil
  then show ?thesis using allocate_none assms(1,2) by simp
next
  case (Cons a ys)
  note fs = assms(1)[unfolded Cons]
  have a: "a \<noteq> 0" "a \<notin> set ys" using assms(3) fs unfolding Cons free_supports_def ring_def by auto
  obtain h d where al: "allocate W s = Some (SRet a (s\<lparr>supp_lh := h, kdebug := d\<rparr>))" "log_ok d"
    "free_supports (s\<lparr>supp_lh := h, kdebug := d\<rparr>) ys" using allocate_free[OF fs assms(2)] by blast
  have l: "logs_ok (s\<lparr>supp_lh := h, kdebug := d\<rparr>)" using assms(2) al(2) by (simp add: logs_ok_def)
  obtain h' d' where de: "deallocate W a (s\<lparr>supp_lh := h, kdebug := d\<rparr>) = Some (SRet () (s\<lparr>supp_lh := h', kdebug := d'\<rparr>))" "log_ok d'"
    "free_supports (s\<lparr>supp_lh := h', kdebug := d'\<rparr>) (a # ys)" using deallocate_taken[OF al(3) l a, of W] by auto
  have "panics (deallocate W a (s\<lparr>supp_lh := h', kdebug := d'\<rparr>))"
    by (rule deallocate_free[OF de(3)]) (use assms(2) de(2) in \<open>simp_all add: logs_ok_def\<close>)
  then show ?thesis using al(1,3) de(1,3) unfolding Cons deallocate_support_def by auto
qed

theorem support_structure_roundtrip_witness:
  "panics (allocate W0 (S0\<lparr>supp_lh := free_list []\<rparr>))
   \<and> (\<exists>s1 s2. allocate W0 (S0\<lparr>supp_lh := free_list [7]\<rparr>) = Some (SRet 7 s1)
        \<and> deallocate_support W0 7 s1 = Some (SRet () s2) \<and> panics (deallocate_support W0 7 s2))"
proof -
  have l: "logs_ok (S0\<lparr>supp_lh := h\<rparr>)" for h using S0_facts(1) by (simp add: logs_ok_def)
  from support_structure_roundtrip[OF free_list_facts(1) l, of W0] support_structure_roundtrip[OF free_list_facts(2)[of 7] l, of W0]
  show ?thesis by auto
qed

text \<open>
  C34 (functional). Cleaning up after a process: its frames, and no others, become free, and if it holds the
  swap pool table (its baton is set) the semaphore of the table is released.
\<close>

theorem clean_after_uproc_frees_frames:
  assumes "is_valid_asid asid" "I (kernel s)" "gives W I VERHOGEN (sem_swap_pool_table W) 0 0 q"
  shows "\<exists>s'. clean_after_uproc W asid s = Some (SRet () s')
    \<and> (\<forall>f<POOLSIZE. check_frame_occupied (swap_pool_table s' f)
        \<longleftrightarrow> check_frame_occupied (swap_pool_table s f) \<and> sw_asid (swap_pool_table s f) \<noteq> asid)
    \<and> (\<forall>f. sw_asid (swap_pool_table s f) \<noteq> asid \<longrightarrow> swap_pool_table s' f = swap_pool_table s f)
    \<and> calls s' = calls s @ (if swap_pool_batons s (unat (asid - 1)) then [(VERHOGEN, sem_swap_pool_table W, 0, 0)] else [])
    \<and> supports (kernel s') = supports (kernel s)"
  using clean_after[OF assms] by (fastforce simp: check_frame_occupied_def)

theorem clean_after_uproc_frees_frames_witness:
  "\<exists>s'. clean_after_uproc W0 2 (full_pool\<lparr>swap_pool_batons := (\<lambda>_. True)\<rparr>) = Some (SRet () s')
    \<and> (\<forall>f<POOLSIZE. \<not> check_frame_occupied (swap_pool_table s' f)) \<and> calls s' = [(VERHOGEN, 0x20003000, 0, 0)]"
proof -
  let ?s = "full_pool\<lparr>swap_pool_batons := (\<lambda>_. True)\<rparr>"
  have "sw_asid (swap_pool_table ?s f) = 2" "calls ?s = []" "sem_swap_pool_table W0 = 0x20003000" for f
    by (simp_all add: full_pool_def S0_def W0_def)
  moreover have "someone (kernel ?s)" using full_pool_facts(9) by simp
  ultimately show ?thesis
    using clean_after_uproc_frees_frames[OF sup_of_facts(6) _ W0_gives(3), of someone ?s] by fastforce
qed



section \<open>Calls of the user processes\<close>



text \<open>
  C28 (termination). Reading a line from a terminal: the call ends with the first newline or the first failed read of
  the terminal, and not before. At a newline the line, with its newline and a null character, is in
  the buffer of the process and the result is its length; after a failed read the characters read
  so far are there, and the result is the status with its sign changed. The semaphore of the
  terminal is released in both cases. The length of the line is not limited.
\<close>

theorem line_is_read:
  assumes a: "gives W I GETSUPPORTPTR 0 0 0 a" "I (kernel s)" "a \<noteq> 0" "S = supports (kernel s) a"
    and arg: "buf = gpr (sup_except_state S GENERALEXCEPT) reg_a1" "KUSEG \<le> buf"
    and dv: "base = DEV_REG_ADDR W (of_nat (IL_TERMINAL (emu W))) (sup_asid S - 1)"
      "sem = sem_elem (sys5_semaphores W) (sup_asid S - 1)"
    and T: "terminal_gives W I (base + RECV_COMMAND) stat"
    and PV: "gives W I PASSEREN sem 0 0 q" "gives W I VERHOGEN sem 0 0 q'"
    and line: "m = length (calls s) + 3" "input_line stat m n"
  shows "\<exists>s'. sys_read_terminal W s = Some (SRet
        (if is_char (stat (m + n)) then of_nat (Suc n) else - RECEIVE_STATUS (stat (m + n))) s')
    \<and> user_mem s' = (if is_char (stat (m + n)) then (store_chars (user_mem s) buf (line_chars stat m (Suc n)))(buf + of_nat (Suc n) := 0)
            else store_chars (user_mem s) buf (line_chars stat m n))
    \<and> calls s' = calls s @ [(GETSUPPORTPTR, 0, 0, 0), (PASSEREN, sem, 0, 0)]
            @ replicate (Suc n) (DOIO, base + RECV_COMMAND, RECEIVE_CHAR, 0) @ [(VERHOGEN, sem, 0, 0)]"
proof -
  from sys_read_terminal_result[OF assms] obtain \<kappa> where k: "sys_read_terminal W s = Some (SRet
        (if is_char (stat (m + n)) then of_nat (Suc n) else - RECEIVE_STATUS (stat (m + n)))
        (s\<lparr>kernel := \<kappa>,
          user_mem := (if is_char (stat (m + n)) then (store_chars (user_mem s) buf (line_chars stat m (Suc n)))(buf + of_nat (Suc n) := 0)
            else store_chars (user_mem s) buf (line_chars stat m n)),
          calls := calls s @ [(GETSUPPORTPTR, 0, 0, 0), (PASSEREN, sem, 0, 0)]
            @ replicate (Suc n) (DOIO, base + RECV_COMMAND, RECEIVE_CHAR, 0) @ [(VERHOGEN, sem, 0, 0)]\<rparr>))" by blast
  show ?thesis unfolding k by (intro exI conjI, rule refl) (simp_all del: replicate_Suc of_nat_Suc fun_upd_apply)
qed

theorem line_is_read_witness:
  "\<exists>s'. sys_read_terminal WT S0 = Some (SRet 2 s') \<and> user_mem s' 0x80001000 = 65 \<and> user_mem s' 0x80001001 = 10
    \<and> user_mem s' 0x80001002 = 0"
proof -
  have S: "sup_of 1 = supports (kernel S0) 0x20004000" using S0_facts(3) by simp
  have arg: "gpr (sup_except_state (sup_of 1) GENERALEXCEPT) reg_a1 = 0x80001000" by (simp add: sup_of_def)
  have keys: "keys 3 = 0x4105" "keys 4 = 0x0A05" by (simp_all add: keys_def)
  have v: "is_char (keys 3)" "received (keys 3) = 65" "is_char (keys 4)" "received (keys 4) = 10"
    unfolding keys by (simp_all add: is_char_def received_def RECEIVE_STATUS_def RECEIVE_VALUE_def)
  have line: "input_line keys 3 1" "line_chars keys 3 (Suc 1) = [65, 10]"
    using v by (simp_all add: input_line_def line_chars_def)
  have m: "(3 :: nat) = length (calls S0) + 3" using S0_facts(6) by simp
  from line_is_read[where W = WT and I = someone and s = S0 and stat = keys and m = 3 and n = 1, OF WT_gives(1) S0_facts(2) _ S refl _ refl refl WT_gives(4) WT_gives(2) WT_gives(3) m line(1)] obtain s' where
    "sys_read_terminal WT S0 = Some (SRet 2 s')"
    "user_mem s' = (store_chars (user_mem S0) 0x80001000 [65, 10])(0x80001000 + of_nat (Suc 1) := 0)"
    unfolding arg line(2) using v(3) by auto
  then show ?thesis by (intro exI[of _ s']) simp
qed

section \<open>The instantiator\<close>



end
