(* ===== verification/P1test.thy ===== *)
theory P1test
  imports Asl
begin

text \<open>
  The test program of phase 1, \<^verbatim>\<open>phase1/src/p1test.c\<close>: it drives the process control blocks and
  the active semaphore list from start to end, reports its progress in \<^verbatim>\<open>okbuf\<close> and on terminal
  0, and stops with a panic at the first answer it does not expect.

  The program is written over a record \<open>p1link\<close> of the operations it is linked with, so that the
  same text runs on the kernel (\<open>kernel_link\<close>) and on any other implementation of the same
  operations. All the variables of \<^verbatim>\<open>main\<close> are global in C, hence a statement is a function on
  the state \<open>p1\<close>, which holds those variables (\<open>p1vars\<close>) beside the state of what is linked. A
  list of statements is a C block; a \<^verbatim>\<open>for\<close> loop is the block of its unrolled bodies.

  The locale \<open>alike\<close> says that one linked implementation does whatever another one does, under a
  relation of their states; \<open>main_alike\<close> shows that the test then has the same outcome on both.
\<close>

section \<open>The console: okbuf, errbuf and the terminals\<close>

abbreviation (input) TRANSMITTED :: u32 where "TRANSMITTED \<equiv> 5"
abbreviation (input) READY :: u32 where "READY \<equiv> 1"
abbreviation (input) PRINT_CHR :: u32 where "PRINT_CHR \<equiv> 2"
abbreviation (input) CHAROFFSET :: nat where "CHAROFFSET \<equiv> 8"
abbreviation (input) TERMINALS :: nat where "TERMINALS \<equiv> 8"

text \<open>
  The transmitter of terminal \<open>n\<close> is \<open>tx c n\<close>, a pair of registers as in \<open>Printf\<close>: reading its
  status and waiting while it is busy are \<^verbatim>\<open>termstat\<close> and the inner loop of \<^verbatim>\<open>termprint\<close>.
\<close>

record console =
  okbuf :: string
  mp :: nat
  errbuf :: string
  tx :: "nat \<Rightarrow> termreg"

definition termstat :: "termreg \<Rightarrow> u32 \<times> termreg" where
  "termstat t = term_status t"

fun print_cycle :: "string \<Rightarrow> termreg \<Rightarrow> (bool \<times> termreg) option" where
  "print_cycle [] t = Some (False, t)"
| "print_cycle (c # str) t = do {
     let t = term_command (push_bit CHAROFFSET (scast (of_char c :: 8 word)) OR PRINT_CHR) t;
     (stat, t) \<leftarrow> term_poll t;
     if stat \<noteq> TRANSMITTED then Some (True, t) else print_cycle str t
   }"

definition termprint :: "string \<Rightarrow> nat \<Rightarrow> console \<Rightarrow> (bool \<times> console) option" where
  "termprint str term c = (if term < TERMINALS then
     (let (stat, t) = termstat (tx c term) in
      if stat = READY \<or> stat = TRANSMITTED then do {
        (error, t) \<leftarrow> print_cycle str t;
        Some (\<not> error, c\<lparr>tx := (tx c)(term := t)\<rparr>)
      } else Some (False, c\<lparr>tx := (tx c)(term := t)\<rparr>))
   else Some (False, c))"

text \<open>
  \<^verbatim>\<open>while ((*d++ = *s++) != '\0')\<close>: the characters and the terminator, and where the destination
  points afterwards. Writing past the end of the array has no result.
\<close>

fun copy_str :: "string \<Rightarrow> string \<Rightarrow> nat \<Rightarrow> (string \<times> nat) option" where
  "copy_str [] buf i = (if i < length buf then Some (buf[i := NUL], Suc i) else None)"
| "copy_str (c # str) buf i =
     (if i < length buf then copy_str str (buf[i := c]) (Suc i) else None)"

definition addokbuf :: "string \<Rightarrow> console \<Rightarrow> console option" where
  "addokbuf strp c = do {
     (buf, i) \<leftarrow> copy_str strp (okbuf c) (mp c);
     (r, c) \<leftarrow> termprint strp 0 (c\<lparr>okbuf := buf, mp := i - 1\<rparr>);
     Some c
   }"

text \<open>\<^verbatim>\<open>adderrbuf\<close> up to its call of \<^verbatim>\<open>PANIC\<close>, which ends the run.\<close>

definition adderrbuf :: "string \<Rightarrow> console \<Rightarrow> console option" where
  "adderrbuf strp c = do {
     (buf, ep) \<leftarrow> copy_str strp (errbuf c) 0;
     (r, c) \<leftarrow> termprint strp 0 (c\<lparr>errbuf := buf\<rparr>);
     Some c
   }"

section \<open>What the test program is linked with\<close>

text \<open>The \<^verbatim>\<open>int\<close> variables whose addresses serve as semaphores.\<close>

datatype semvar = sem_var nat | onesem

record 's p1link =
  x_init_pcbs :: "'s \<Rightarrow> (unit \<times> 's) option"
  x_alloc_pcb :: "'s \<Rightarrow> (nat option \<times> 's) option"
  x_free_pcb :: "nat option \<Rightarrow> 's \<Rightarrow> (unit \<times> 's) option"
  x_list_head_qa :: "'s \<Rightarrow> (unit \<times> 's) option"
  x_empty_proc_q :: "'s \<Rightarrow> (bool \<times> 's) option"
  x_insert_proc_q :: "nat option \<Rightarrow> 's \<Rightarrow> (unit \<times> 's) option"
  x_head_proc_q :: "'s \<Rightarrow> (nat option \<times> 's) option"
  x_out_proc_q :: "nat option \<Rightarrow> 's \<Rightarrow> (nat option \<times> 's) option"
  x_remove_proc_q :: "'s \<Rightarrow> (nat option \<times> 's) option"
  x_empty_child :: "nat option \<Rightarrow> 's \<Rightarrow> (bool \<times> 's) option"
  x_insert_child :: "nat option \<Rightarrow> nat option \<Rightarrow> 's \<Rightarrow> (unit \<times> 's) option"
  x_out_child :: "nat option \<Rightarrow> 's \<Rightarrow> (nat option \<times> 's) option"
  x_remove_child :: "nat option \<Rightarrow> 's \<Rightarrow> (nat option \<times> 's) option"
  x_init_asl :: "'s \<Rightarrow> (unit \<times> 's) option"
  x_insert_blocked :: "semvar \<Rightarrow> nat option \<Rightarrow> 's \<Rightarrow> (nat \<times> 's) option"
  x_head_blocked :: "semvar \<Rightarrow> 's \<Rightarrow> (nat option \<times> 's) option"
  x_remove_blocked :: "semvar \<Rightarrow> 's \<Rightarrow> (nat option \<times> 's) option"
  x_out_blocked :: "nat option \<Rightarrow> 's \<Rightarrow> (nat option \<times> 's) option"
  x_addokbuf :: "string \<Rightarrow> 's \<Rightarrow> (unit \<times> 's) option"
  x_adderrbuf :: "string \<Rightarrow> 's \<Rightarrow> (unit \<times> 's) option"

text \<open>The kernel's own operations, with the addresses the linker gives to the variables.\<close>

record p1machine =
  kern :: kstate
  cons :: console

definition on_kern :: "(kstate \<Rightarrow> ('a \<times> kstate) option) \<Rightarrow> p1machine \<Rightarrow> ('a \<times> p1machine) option" where
  "on_kern f m = map_option (\<lambda>(x, s). (x, m\<lparr>kern := s\<rparr>)) (f (kern m))"

definition on_cons :: "(console \<Rightarrow> console option) \<Rightarrow> p1machine \<Rightarrow> (unit \<times> p1machine) option" where
  "on_cons f m = map_option (\<lambda>c. ((), m\<lparr>cons := c\<rparr>)) (f (cons m))"

definition effect :: "('s \<Rightarrow> 's option) \<Rightarrow> 's \<Rightarrow> (unit \<times> 's) option" where
  "effect f s = map_option (Pair ()) (f s)"

definition query :: "('s \<Rightarrow> 'a option) \<Rightarrow> 's \<Rightarrow> ('a \<times> 's) option" where
  "query f s = map_option (\<lambda>x. (x, s)) (f s)"

definition kernel_link :: "umps \<Rightarrow> (semvar \<Rightarrow> u32) \<Rightarrow> p1machine p1link" where
  "kernel_link U addr = \<lparr>
     x_init_pcbs = on_kern (effect init_pcbs),
     x_alloc_pcb = on_kern (alloc_pcb U),
     x_free_pcb = \<lambda>p. on_kern (effect (free_pcb p)),
     x_list_head_qa = on_kern (effect (on_lists (INIT_LIST_HEAD (Some qa_head)))),
     x_empty_proc_q = on_kern (query (empty_proc_q (Some qa_head))),
     x_insert_proc_q = \<lambda>p. on_kern (effect (insert_proc_q (Some qa_head) p)),
     x_head_proc_q = on_kern (query (head_proc_q (Some qa_head))),
     x_out_proc_q = \<lambda>p. on_kern (out_proc_q (Some qa_head) p),
     x_remove_proc_q = on_kern (remove_proc_q (Some qa_head)),
     x_empty_child = \<lambda>p. on_kern (query (empty_child p)),
     x_insert_child = \<lambda>prnt p. on_kern (effect (insert_child prnt p)),
     x_out_child = \<lambda>p. on_kern (out_child p),
     x_remove_child = \<lambda>p. on_kern (remove_child p),
     x_init_asl = on_kern (effect init_asl),
     x_insert_blocked = \<lambda>k p. on_kern (insert_blocked (addr k) p),
     x_head_blocked = \<lambda>k. on_kern (query (head_blocked (addr k))),
     x_remove_blocked = \<lambda>k. on_kern (remove_blocked (addr k)),
     x_out_blocked = \<lambda>p. on_kern (out_blocked p),
     x_addokbuf = \<lambda>strp. on_cons (addokbuf strp),
     x_adderrbuf = \<lambda>strp. on_cons (adderrbuf strp)\<rparr>"

section \<open>Statements\<close>

record p1vars =
  procp :: "nat option list"
  var_p :: "nat option"
  var_q :: "nat option"
  firstproc :: "nat option"
  midproc :: "nat option"
  lastproc :: "nat option"

record 's p1 =
  vars :: p1vars
  env :: 's

text \<open>Global variables start as zeros.\<close>

definition p1vars_init :: p1vars where
  "p1vars_init = \<lparr>procp = replicate 20 None, var_p = None, var_q = None, firstproc = None,
     midproc = None, lastproc = None\<rparr>"

datatype 's outcome = Running "'s p1" | Panicked "'s p1"

type_synonym ('a, 's) expr = "'s p1 \<Rightarrow> ('a \<times> 's p1) option"
type_synonym 's stmt = "'s p1 \<Rightarrow> 's outcome option"

text \<open>Expressions: a call whose arguments are read off the variables, a pure term, an assignment.\<close>

definition call :: "(p1vars \<Rightarrow> 's \<Rightarrow> ('a \<times> 's) option) \<Rightarrow> ('a, 's) expr" where
  "call f s = map_option (\<lambda>(x, t). (x, s\<lparr>env := t\<rparr>)) (f (vars s) (env s))"

definition term_of :: "(p1vars \<Rightarrow> 'a) \<Rightarrow> ('a, 's) expr" where
  "term_of f s = Some (f (vars s), s)"

definition assign :: "('a \<Rightarrow> p1vars \<Rightarrow> p1vars) \<Rightarrow> ('a, 's) expr \<Rightarrow> ('a, 's) expr" where
  "assign upd e s = map_option (\<lambda>(x, s). (x, s\<lparr>vars := upd x (vars s)\<rparr>)) (e s)"

definition set_q :: "nat option \<Rightarrow> p1vars \<Rightarrow> p1vars" where
  "set_q x v = v\<lparr>var_q := x\<rparr>"

definition set_p :: "nat option \<Rightarrow> p1vars \<Rightarrow> p1vars" where
  "set_p x v = v\<lparr>var_p := x\<rparr>"

definition set_procp :: "nat \<Rightarrow> nat option \<Rightarrow> p1vars \<Rightarrow> p1vars" where
  "set_procp i x v = v\<lparr>procp := (procp v)[i := x]\<rparr>"

text \<open>An expression statement; \<^verbatim>\<open>if (P(e)) adderrbuf(msg);\<close>; a block.\<close>

definition perform :: "('a, 's) expr \<Rightarrow> 's stmt" where
  "perform e s = map_option (\<lambda>(x, s). Running s) (e s)"

definition adderrbuf_if ::
  "'s p1link \<Rightarrow> ('a, 's) expr \<Rightarrow> (p1vars \<Rightarrow> 'a \<Rightarrow> bool) \<Rightarrow> string \<Rightarrow> 's stmt" where
  "adderrbuf_if L e P msg s = do {
     (x, s) \<leftarrow> e s;
     if P (vars s) x then do {
       (r, s) \<leftarrow> call (\<lambda>v. x_adderrbuf L msg) s;
       Some (Panicked s)
     } else Some (Running s)
   }"

fun block :: "'s stmt list \<Rightarrow> 's stmt" where
  "block [] s = Some (Running s)"
| "block (c # cs) s = (case c s of
     None \<Rightarrow> None
   | Some (Panicked s) \<Rightarrow> Some (Panicked s)
   | Some (Running s) \<Rightarrow> block cs s)"

definition for_loop :: "nat list \<Rightarrow> (nat \<Rightarrow> 's stmt list) \<Rightarrow> 's stmt" where
  "for_loop is body = block (concat (map body is))"

section \<open>main\<close>

definition report :: "'s p1link \<Rightarrow> string \<Rightarrow> 's stmt" where
  "report L msg = perform (call (\<lambda>v. x_addokbuf L msg))"

text \<open>Check \<^verbatim>\<open>alloc_pcb\<close>, and return ten entries to the free list.\<close>

definition test_alloc :: "'s p1link \<Rightarrow> 's stmt list" where
  "test_alloc L = [
     perform (call (\<lambda>v. x_init_pcbs L)),
     report L ''Initialized process control blocks   \<newline>'',
     for_loop [0..<20] (\<lambda>i. [
       adderrbuf_if L (assign (set_procp i) (call (\<lambda>v. x_alloc_pcb L))) (\<lambda>v x. x = None)
         ''alloc_pcb: unexpected NULL   '']),
     adderrbuf_if L (call (\<lambda>v. x_alloc_pcb L)) (\<lambda>v x. x \<noteq> None)
       ''alloc_pcb: allocated more than MAXPROC entries   '',
     report L ''alloc_pcb ok   \<newline>'',
     for_loop [10..<20] (\<lambda>i. [perform (call (\<lambda>v. x_free_pcb L (procp v ! i)))]),
     report L ''freed 10 entries   \<newline>'']"

text \<open>A process queue of ten elements.\<close>

definition switch_i :: "nat \<Rightarrow> p1vars \<Rightarrow> p1vars" where
  "switch_i i v = (if i = 0 then v\<lparr>firstproc := var_q v\<rparr>
     else if i = 5 then v\<lparr>midproc := var_q v\<rparr>
     else if i = 9 then v\<lparr>lastproc := var_q v\<rparr>
     else v)"

definition test_insert_q :: "'s p1link \<Rightarrow> 's stmt list" where
  "test_insert_q L = [
     perform (call (\<lambda>v. x_list_head_qa L)),
     adderrbuf_if L (call (\<lambda>v. x_empty_proc_q L)) (\<lambda>v e. \<not> e) ''empty_proc_q: unexpected FALSE   '',
     report L ''Inserting...   \<newline>'',
     for_loop [0..<10] (\<lambda>i. [
       adderrbuf_if L (assign set_q (call (\<lambda>v. x_alloc_pcb L))) (\<lambda>v x. x = None)
         ''alloc_pcb: unexpected NULL while insert   '',
       perform (assign (\<lambda>_. switch_i i) (term_of (\<lambda>v. ()))),
       perform (call (\<lambda>v. x_insert_proc_q L (var_q v)))]),
     report L ''inserted 10 elements   \<newline>'',
     adderrbuf_if L (call (\<lambda>v. x_empty_proc_q L)) (\<lambda>v e. e) ''empty_proc_q: unexpected TRUE'']"

text \<open>Check \<^verbatim>\<open>outProc\<close> and \<^verbatim>\<open>headProc\<close>.\<close>

definition test_out_q :: "'s p1link \<Rightarrow> 's stmt list" where
  "test_out_q L = [
     adderrbuf_if L (call (\<lambda>v. x_head_proc_q L)) (\<lambda>v x. x \<noteq> firstproc v) ''head_proc_q failed   '',
     perform (assign set_q (call (\<lambda>v. x_out_proc_q L (firstproc v)))),
     adderrbuf_if L (term_of var_q) (\<lambda>v x. x = None \<or> x \<noteq> firstproc v)
       ''out_proc_q failed on first entry   '',
     perform (call (\<lambda>v. x_free_pcb L (var_q v))),
     perform (assign set_q (call (\<lambda>v. x_out_proc_q L (midproc v)))),
     adderrbuf_if L (term_of var_q) (\<lambda>v x. x = None \<or> x \<noteq> midproc v)
       ''out_proc_q failed on middle entry   '',
     perform (call (\<lambda>v. x_free_pcb L (var_q v))),
     adderrbuf_if L (call (\<lambda>v. x_out_proc_q L (procp v ! 0))) (\<lambda>v x. x \<noteq> None)
       ''out_proc_q failed on nonexistent entry   '',
     report L ''out_proc_q ok   \<newline>'']"

text \<open>Check that \<^verbatim>\<open>removeProc\<close> and \<^verbatim>\<open>insertProc\<close> keep the order.\<close>

definition test_remove_q :: "'s p1link \<Rightarrow> 's stmt list" where
  "test_remove_q L = [
     report L ''Removing...   \<newline>'',
     for_loop [0..<8] (\<lambda>i. [
       adderrbuf_if L (assign set_q (call (\<lambda>v. x_remove_proc_q L))) (\<lambda>v x. x = None)
         ''remove_proc_q: unexpected NULL   '',
       perform (call (\<lambda>v. x_free_pcb L (var_q v)))]),
     adderrbuf_if L (term_of var_q) (\<lambda>v x. x \<noteq> lastproc v) ''remove_proc_q: failed on last entry   '',
     adderrbuf_if L (call (\<lambda>v. x_remove_proc_q L)) (\<lambda>v x. x \<noteq> None)
       ''remove_proc_q: removes too many entries   '',
     adderrbuf_if L (call (\<lambda>v. x_empty_proc_q L)) (\<lambda>v e. \<not> e) ''empty_proc_q: unexpected FALSE   '',
     report L ''insert_proc_q, remove_proc_q and empty_proc_q ok   \<newline>'',
     report L ''process queues module ok      \<newline>'']"

text \<open>Make \<^verbatim>\<open>procp[1]\<close> through \<^verbatim>\<open>procp[9]\<close> children of \<^verbatim>\<open>procp[0]\<close>, and take them out again.\<close>

definition test_insert_child :: "'s p1link \<Rightarrow> 's stmt list" where
  "test_insert_child L = [
     report L ''checking process trees...\<newline>'',
     adderrbuf_if L (call (\<lambda>v. x_empty_child L (procp v ! 2))) (\<lambda>v e. \<not> e)
       ''empty_child: unexpected FALSE   '',
     report L ''Inserting...   \<newline>'',
     for_loop [1..<10] (\<lambda>i. [perform (call (\<lambda>v. x_insert_child L (procp v ! 0) (procp v ! i)))]),
     report L ''Inserted 9 children   \<newline>'',
     adderrbuf_if L (call (\<lambda>v. x_empty_child L (procp v ! 0))) (\<lambda>v e. e)
       ''empty_child: unexpected TRUE   '']"

definition test_out_child :: "'s p1link \<Rightarrow> 's stmt list" where
  "test_out_child L = [
     perform (assign set_q (call (\<lambda>v. x_out_child L (procp v ! 1)))),
     adderrbuf_if L (term_of var_q) (\<lambda>v x. x = None \<or> x \<noteq> procp v ! 1)
       ''out_child failed on first child   '',
     perform (assign set_q (call (\<lambda>v. x_out_child L (procp v ! 4)))),
     adderrbuf_if L (term_of var_q) (\<lambda>v x. x = None \<or> x \<noteq> procp v ! 4)
       ''out_child failed on middle child   '',
     adderrbuf_if L (call (\<lambda>v. x_out_child L (procp v ! 0))) (\<lambda>v x. x \<noteq> None)
       ''out_child failed on nonexistent child   '',
     report L ''out_child ok   \<newline>'']"

definition test_remove_child :: "'s p1link \<Rightarrow> 's stmt list" where
  "test_remove_child L = [
     report L ''Removing...   \<newline>'',
     for_loop [0..<7] (\<lambda>i. [
       adderrbuf_if L (assign set_q (call (\<lambda>v. x_remove_child L (procp v ! 0)))) (\<lambda>v x. x = None)
         ''remove_child: unexpected NULL   '']),
     adderrbuf_if L (call (\<lambda>v. x_remove_child L (procp v ! 0))) (\<lambda>v x. x \<noteq> None)
       ''remove_child: removes too many children   '',
     adderrbuf_if L (call (\<lambda>v. x_empty_child L (procp v ! 0))) (\<lambda>v e. \<not> e)
       ''empty_child: unexpected FALSE   '',
     report L ''insert_child, remove_child and empty_child ok   \<newline>'',
     report L ''process tree module ok      \<newline>'',
     for_loop [0..<10] (\<lambda>i. [perform (call (\<lambda>v. x_free_pcb L (procp v ! i)))])]"

text \<open>The active semaphore list: \<^verbatim>\<open>insert_blocked\<close>.\<close>

definition test_insert_blocked :: "'s p1link \<Rightarrow> 's stmt list" where
  "test_insert_blocked L = [
     perform (call (\<lambda>v. x_init_asl L)),
     report L ''Initialized active semaphore list   \<newline>'',
     report L ''insert_blocked test #1 started  \<newline>'',
     for_loop [10..<20] (\<lambda>i. [
       perform (assign (set_procp i) (call (\<lambda>v. x_alloc_pcb L))),
       adderrbuf_if L (call (\<lambda>v. x_insert_blocked L (sem_var i) (procp v ! i))) (\<lambda>v r. r \<noteq> 0)
         ''insert_blocked(1): unexpected TRUE   '']),
     report L ''insert_blocked test #2 started  \<newline>'',
     for_loop [0..<10] (\<lambda>i. [
       perform (assign (set_procp i) (call (\<lambda>v. x_alloc_pcb L))),
       adderrbuf_if L (call (\<lambda>v. x_insert_blocked L (sem_var i) (procp v ! i))) (\<lambda>v r. r \<noteq> 0)
         ''insert_blocked(2): unexpected TRUE   '']),
     perform (assign set_p (call (\<lambda>v. x_remove_blocked L (sem_var 11)))),
     adderrbuf_if L (call (\<lambda>v. x_insert_blocked L (sem_var 11) (var_p v))) (\<lambda>v r. r \<noteq> 0)
       ''remove_blocked: fails to return to free list   '',
     adderrbuf_if L (call (\<lambda>v. x_insert_blocked L onesem (procp v ! 9))) (\<lambda>v r. r = 0)
       ''insert_blocked: inserted more than MAXPROC   '']"

definition test_remove_blocked :: "'s p1link \<Rightarrow> 's stmt list" where
  "test_remove_blocked L = [
     report L ''remove_blocked test started   \<newline>'',
     for_loop [10..<20] (\<lambda>i. [
       perform (assign set_q (call (\<lambda>v. x_remove_blocked L (sem_var i)))),
       adderrbuf_if L (term_of var_q) (\<lambda>v x. x = None) ''remove_blocked: wouldn't remove   '',
       adderrbuf_if L (term_of var_q) (\<lambda>v x. x \<noteq> procp v ! i)
         ''remove_blocked: removed wrong element   '',
       adderrbuf_if L (call (\<lambda>v. x_insert_blocked L (sem_var (i - 10)) (var_q v))) (\<lambda>v r. r \<noteq> 0)
         ''insert_blocked(3): unexpected TRUE   '']),
     adderrbuf_if L (call (\<lambda>v. x_remove_blocked L (sem_var 11))) (\<lambda>v x. x \<noteq> None)
       ''remove_blocked: removed nonexistent blocked proc   '',
     report L ''insert_blocked and remove_blocked ok   \<newline>'']"

definition test_head_blocked :: "'s p1link \<Rightarrow> 's stmt list" where
  "test_head_blocked L = [
     adderrbuf_if L (call (\<lambda>v. x_head_blocked L (sem_var 11))) (\<lambda>v x. x \<noteq> None)
       ''head_blocked: nonNULL for a nonexistent queue   '',
     adderrbuf_if L (assign set_q (call (\<lambda>v. x_head_blocked L (sem_var 9)))) (\<lambda>v x. x = None)
       ''head_blocked(1): NULL for an existent queue   '',
     adderrbuf_if L (term_of var_q) (\<lambda>v x. x \<noteq> procp v ! 9)
       ''head_blocked(1): wrong process returned   '',
     perform (assign set_p (call (\<lambda>v. x_out_blocked L (var_q v)))),
     adderrbuf_if L (term_of var_p) (\<lambda>v x. x \<noteq> var_q v)
       ''outBlocked(1): couldn't remove from valid queue   '',
     perform (assign set_q (call (\<lambda>v. x_head_blocked L (sem_var 9)))),
     adderrbuf_if L (term_of var_q) (\<lambda>v x. x = None)
       ''head_blocked(2): NULL for an existent queue   '',
     adderrbuf_if L (term_of var_q) (\<lambda>v x. x \<noteq> procp v ! 19)
       ''head_blocked(2): wrong process returned   '',
     perform (assign set_p (call (\<lambda>v. x_out_blocked L (var_q v)))),
     adderrbuf_if L (term_of var_p) (\<lambda>v x. x \<noteq> var_q v)
       ''outBlocked(2): couldn't remove from valid queue   '',
     perform (assign set_p (call (\<lambda>v. x_out_blocked L (var_q v)))),
     adderrbuf_if L (term_of var_p) (\<lambda>v x. x \<noteq> None) ''outBlocked: removed same process twice.'',
     adderrbuf_if L (call (\<lambda>v. x_head_blocked L (sem_var 9))) (\<lambda>v x. x \<noteq> None)
       ''out/head_blocked: unexpected nonempty queue   '',
     report L ''head_blocked and outBlocked ok   \<newline>'',
     report L ''ASL module ok   \<newline>'',
     report L ''So Long and Thanks for All the Fish\<newline>'']"

definition p1test :: "'s p1link \<Rightarrow> 's stmt" where
  "p1test L = block (test_alloc L @ test_insert_q L @ test_out_q L @ test_remove_q L
     @ test_insert_child L @ test_out_child L @ test_remove_child L
     @ test_insert_blocked L @ test_remove_blocked L @ test_head_blocked L)"

section \<open>Two implementations with the same answers\<close>

text \<open>
  \<open>follows R f g\<close>: from related states, whenever \<open>g\<close> has a result, \<open>f\<close> has the same result and
  leads to a related state.
\<close>

definition follows :: "('s \<Rightarrow> 't \<Rightarrow> bool) \<Rightarrow> ('s \<Rightarrow> ('a \<times> 's) option) \<Rightarrow> ('t \<Rightarrow> ('a \<times> 't) option) \<Rightarrow> bool" where
  "follows R f g \<longleftrightarrow> (\<forall>s t x t'. R s t \<longrightarrow> g t = Some (x, t') \<longrightarrow> (\<exists>s'. f s = Some (x, s') \<and> R s' t'))"

definition p1_rel :: "('s \<Rightarrow> 't \<Rightarrow> bool) \<Rightarrow> 's p1 \<Rightarrow> 't p1 \<Rightarrow> bool" where
  "p1_rel R s t \<longleftrightarrow> vars s = vars t \<and> R (env s) (env t)"

fun outcome_rel :: "('s \<Rightarrow> 't \<Rightarrow> bool) \<Rightarrow> 's outcome \<Rightarrow> 't outcome \<Rightarrow> bool" where
  "outcome_rel R (Running s) (Running t) \<longleftrightarrow> p1_rel R s t"
| "outcome_rel R (Panicked s) (Panicked t) \<longleftrightarrow> p1_rel R s t"
| "outcome_rel R _ _ \<longleftrightarrow> False"

definition stmt_follows :: "('s \<Rightarrow> 't \<Rightarrow> bool) \<Rightarrow> 's stmt \<Rightarrow> 't stmt \<Rightarrow> bool" where
  "stmt_follows R c d \<longleftrightarrow> (\<forall>s t t'. p1_rel R s t \<longrightarrow> d t = Some t' \<longrightarrow> (\<exists>s'. c s = Some s' \<and> outcome_rel R s' t'))"

named_theorems alike_intros \<open>how the statements of the test preserve a relation of states\<close>

lemma call_follows [alike_intros]:
  "(\<And>v. follows R (f v) (g v)) \<Longrightarrow> follows (p1_rel R) (call f) (call g)"
  by (fastforce simp: follows_def p1_rel_def call_def)

lemma term_follows [alike_intros]: "follows (p1_rel R) (term_of f) (term_of f)"
  by (simp add: follows_def p1_rel_def term_of_def)

lemma assign_follows [alike_intros]:
  "follows (p1_rel R) e d \<Longrightarrow> follows (p1_rel R) (assign upd e) (assign upd d)"
  by (fastforce simp: follows_def p1_rel_def assign_def)

lemma perform_follows [alike_intros]:
  "follows (p1_rel R) e d \<Longrightarrow> stmt_follows R (perform e) (perform d)"
  by (fastforce simp: follows_def stmt_follows_def perform_def)

lemma block_follows: "list_all2 (stmt_follows R) cs ds \<Longrightarrow> stmt_follows R (block cs) (block ds)"
proof (induction cs ds rule: list_all2_induct)
  case Nil
  then show ?case by (simp add: stmt_follows_def)
next
  case (Cons c cs d ds)
  show ?case
    unfolding stmt_follows_def
  proof (intro allI impI)
    fix s t t'
    assume rel: "p1_rel R s t" and d: "block (d # ds) t = Some t'"
    obtain t1 where t1: "d t = Some t1" using d by (cases "d t") auto
    then obtain s1 where s1: "c s = Some s1" "outcome_rel R s1 t1"
      using Cons.hyps(1) rel unfolding stmt_follows_def by blast
    then show "\<exists>s'. block (c # cs) s = Some s' \<and> outcome_rel R s' t'"
      using d t1 Cons.IH by (cases s1; cases t1) (auto simp: stmt_follows_def)
  qed
qed

lemma for_loop_follows [alike_intros]:
  "(\<And>i. list_all2 (stmt_follows R) (f i) (g i)) \<Longrightarrow> stmt_follows R (for_loop is f) (for_loop is g)"
  unfolding for_loop_def by (rule block_follows) (induction "is"; auto intro: list_all2_appendI)

locale alike =
  fixes L :: "'s p1link" and M :: "'t p1link" and R :: "'s \<Rightarrow> 't \<Rightarrow> bool"
  assumes pcbs: "follows R (x_init_pcbs L) (x_init_pcbs M)" "follows R (x_alloc_pcb L) (x_alloc_pcb M)"
      "follows R (x_free_pcb L p) (x_free_pcb M p)"
    and queues: "follows R (x_list_head_qa L) (x_list_head_qa M)"
      "follows R (x_empty_proc_q L) (x_empty_proc_q M)"
      "follows R (x_insert_proc_q L p) (x_insert_proc_q M p)"
      "follows R (x_head_proc_q L) (x_head_proc_q M)"
      "follows R (x_out_proc_q L p) (x_out_proc_q M p)"
      "follows R (x_remove_proc_q L) (x_remove_proc_q M)"
    and trees: "follows R (x_empty_child L p) (x_empty_child M p)"
      "follows R (x_insert_child L q p) (x_insert_child M q p)"
      "follows R (x_out_child L p) (x_out_child M p)"
      "follows R (x_remove_child L p) (x_remove_child M p)"
    and asl: "follows R (x_init_asl L) (x_init_asl M)"
      "follows R (x_insert_blocked L k p) (x_insert_blocked M k p)"
      "follows R (x_head_blocked L k) (x_head_blocked M k)"
      "follows R (x_remove_blocked L k) (x_remove_blocked M k)"
      "follows R (x_out_blocked L p) (x_out_blocked M p)"
    and console: "follows R (x_addokbuf L msg) (x_addokbuf M msg)"
      "follows R (x_adderrbuf L msg) (x_adderrbuf M msg)"
begin

lemma adderrbuf_if_alike:
  assumes "follows (p1_rel R) e d"
  shows "stmt_follows R (adderrbuf_if L e P msg) (adderrbuf_if M d P msg)"
  unfolding stmt_follows_def
proof (intro allI impI)
  fix s t t'
  assume rel: "p1_rel R s t" and d: "adderrbuf_if M d P msg t = Some t'"
  obtain x t1 where t1: "d t = Some (x, t1)" using d by (cases "d t") (auto simp: adderrbuf_if_def)
  obtain s1 where s1: "e s = Some (x, s1)" "p1_rel R s1 t1"
    using assms rel t1 unfolding follows_def by blast
  have "follows (p1_rel R) (call (\<lambda>v. x_adderrbuf L msg)) (call (\<lambda>v. x_adderrbuf M msg))"
    by (intro call_follows console)
  then have "\<exists>s2. call (\<lambda>v. x_adderrbuf L msg) s1 = Some ((), s2) \<and> p1_rel R s2 t2"
    if "call (\<lambda>v. x_adderrbuf M msg) t1 = Some ((), t2)" for t2
    using s1(2) that unfolding follows_def by blast
  then show "\<exists>s'. adderrbuf_if L e P msg s = Some s' \<and> outcome_rel R s' t'"
    using d t1 s1 by (fastforce simp: adderrbuf_if_def bind_eq_Some_iff p1_rel_def split: if_splits)
qed

lemma main_alike: "stmt_follows R (p1test L) (p1test M)"
  unfolding p1test_def test_alloc_def test_insert_q_def test_out_q_def test_remove_q_def
    test_insert_child_def test_out_child_def test_remove_child_def test_insert_blocked_def
    test_remove_blocked_def test_head_blocked_def append_Cons append_Nil report_def
  by (intro block_follows list.rel_intros alike_intros adderrbuf_if_alike pcbs queues trees asl console)

end

end
