(* ===== verification/P1rings.thy ===== *)
theory P1rings
  imports P1test "HOL-Library.AList"
begin

text \<open>
  An interpreter of the list code on rings. Its state knows, for some nodes, the ring they head,
  for some that their pointers are NULL, and for some table entries the fields that the data
  structures use; \<open>knows addr s a\<close> says that what \<open>a\<close> knows is true of the kernel state \<open>s\<close>.
  Each list primitive is computed on what is known, and has no result where too little is known.
  The operations of \<^verbatim>\<open>pcb.c\<close> and \<^verbatim>\<open>asl.c\<close> are then repeated over these primitives: whenever the
  interpreter has a result, the pointer code has the same one (the interpretation \<open>p1run\<close> of the
  locale \<open>alike\<close>). Nothing is required of the state the interpreter starts in, hence it also
  covers a kernel of which only some lists are initialised, as in phase 1.
\<close>

section \<open>What is known of a kernel state\<close>

record knowledge =
  k_rings :: "(lnode \<times> lnode list) list"
  k_nulled :: "lnode list"
  k_parent :: "(nat \<times> nat option) list"
  k_sem_add :: "(nat \<times> semvar option) list"
  k_key :: "(nat \<times> semvar) list"

definition unknown :: knowledge where
  "unknown = \<lparr>k_rings = [], k_nulled = [], k_parent = [], k_sem_add = [], k_key = []\<rparr>"

text \<open>The variables the test program has, and addresses that tell them apart.\<close>

fun semvar_ok :: "semvar \<Rightarrow> bool" where
  "semvar_ok (sem_var i) \<longleftrightarrow> i < 20"
| "semvar_ok onesem \<longleftrightarrow> True"

definition layout :: "(semvar \<Rightarrow> u32) \<Rightarrow> bool" where
  "layout addr \<longleftrightarrow> (\<forall>k. semvar_ok k \<longrightarrow> addr k \<noteq> 0 \<and> word_aligned (addr k))
     \<and> inj_on addr {k. semvar_ok k}"

definition addr_of :: "(semvar \<Rightarrow> u32) \<Rightarrow> semvar option \<Rightarrow> u32" where
  "addr_of addr k = (case k of None \<Rightarrow> 0 | Some k \<Rightarrow> addr k)"

definition knows :: "(semvar \<Rightarrow> u32) \<Rightarrow> kstate \<Rightarrow> knowledge \<Rightarrow> bool" where
  "knows addr s a \<longleftrightarrow>
     layout addr
   \<and> rings (lh s) (map_of (k_rings a))
   \<and> (\<forall>n\<in>set (k_nulled a). nulled (lh s) n)
   \<and> (\<forall>i q. map_of (k_parent a) i = Some q \<longrightarrow> p_parent (pcb_table s i) = q)
   \<and> (\<forall>i k. map_of (k_sem_add a) i = Some k \<longrightarrow>
        p_sem_add (pcb_table s i) = addr_of addr k \<and> pred_option semvar_ok k)
   \<and> (\<forall>j k. map_of (k_key a) j = Some k \<longrightarrow> semd_key s j = addr k \<and> semvar_ok k)"

section \<open>The primitives\<close>

text \<open>The head of the ring a node lies on.\<close>

fun owner :: "lnode \<Rightarrow> (lnode \<times> lnode list) list \<Rightarrow> lnode option" where
  "owner n [] = None"
| "owner n ((c, xs) # R) = (if n = c \<or> n \<in> set xs then Some c else owner n R)"

definition set_ring :: "lnode \<Rightarrow> lnode list \<Rightarrow> knowledge \<Rightarrow> knowledge" where
  "set_ring c xs a = a\<lparr>k_rings := AList.update c xs (k_rings a)\<rparr>"

definition forget_nulled :: "lnode \<Rightarrow> knowledge \<Rightarrow> knowledge" where
  "forget_nulled n a = a\<lparr>k_nulled := removeAll n (k_nulled a)\<rparr>"

definition ring_init :: "lnode \<Rightarrow> knowledge \<Rightarrow> knowledge option" where
  "ring_init c a = (if map_of (k_rings a) c \<noteq> None \<or> owner c (k_rings a) = None
     then Some (forget_nulled c (set_ring c [] a)) else None)"

definition ring_null :: "lnode \<Rightarrow> knowledge \<Rightarrow> knowledge option" where
  "ring_null n a = (if owner n (k_rings a) = None
     then Some (a\<lparr>k_nulled := List.insert n (k_nulled a)\<rparr>) else None)"

definition ring_add :: "bool \<Rightarrow> lnode \<Rightarrow> lnode \<Rightarrow> knowledge \<Rightarrow> knowledge option" where
  "ring_add tail n c a = (if owner n (k_rings a) \<noteq> None then None
     else do {
       xs \<leftarrow> map_of (k_rings a) c;
       Some (forget_nulled n (set_ring c (if tail then xs @ [n] else n # xs) a))
     })"

definition ring_del :: "lnode \<Rightarrow> knowledge \<Rightarrow> knowledge option" where
  "ring_del n a = do {
     c \<leftarrow> owner n (k_rings a);
     xs \<leftarrow> map_of (k_rings a) c;
     if n \<in> set xs then Some (set_ring c (remove1 n xs) a) else None
   }"

definition ring_sdel :: "lnode \<Rightarrow> knowledge \<Rightarrow> knowledge option" where
  "ring_sdel n a = (if n \<in> set (k_nulled a) then Some a
     else do {
       a \<leftarrow> ring_del n a;
       Some (a\<lparr>k_nulled := n # k_nulled a\<rparr>)
     })"

definition ring_empty :: "lnode \<Rightarrow> knowledge \<Rightarrow> bool option" where
  "ring_empty c a = map_option (\<lambda>xs. xs = []) (map_of (k_rings a) c)"

definition ring_contains :: "lnode \<Rightarrow> lnode \<Rightarrow> knowledge \<Rightarrow> bool option" where
  "ring_contains n c a = map_option (\<lambda>xs. n \<in> set xs) (map_of (k_rings a) c)"

definition ring_first :: "lnode \<Rightarrow> knowledge \<Rightarrow> lnode ptr option" where
  "ring_first c a = map_option (\<lambda>xs. Some (hd (xs @ [c]))) (map_of (k_rings a) c)"

definition ring_list_next :: "lnode \<Rightarrow> knowledge \<Rightarrow> lnode ptr option" where
  "ring_list_next c a =
     map_option (\<lambda>xs. if xs = [] then None else Some (hd xs)) (map_of (k_rings a) c)"

definition set_parent :: "nat \<Rightarrow> nat option \<Rightarrow> knowledge \<Rightarrow> knowledge" where
  "set_parent i q a = a\<lparr>k_parent := AList.update i q (k_parent a)\<rparr>"

definition set_sem_add :: "nat \<Rightarrow> semvar option \<Rightarrow> knowledge \<Rightarrow> knowledge" where
  "set_sem_add i k a = a\<lparr>k_sem_add := AList.update i k (k_sem_add a)\<rparr>"

definition set_key :: "nat \<Rightarrow> semvar \<Rightarrow> knowledge \<Rightarrow> knowledge" where
  "set_key j k a = a\<lparr>k_key := AList.update j k (k_key a)\<rparr>"

text \<open>The first active descriptor with a key: all the keys must be known.\<close>

fun first_key :: "(nat \<times> semvar) list \<Rightarrow> semvar \<Rightarrow> lnode list \<Rightarrow> nat option option" where
  "first_key keys k [] = Some None"
| "first_key keys k (s_link j # ns) = do {
     k' \<leftarrow> map_of keys j;
     r \<leftarrow> first_key keys k ns;
     Some (if k' = k then Some j else r)
   }"
| "first_key keys k (_ # ns) = None"

definition ring_find_semd :: "semvar \<Rightarrow> knowledge \<Rightarrow> nat option option" where
  "ring_find_semd k a = (if \<not> semvar_ok k then None else do {
     ns \<leftarrow> map_of (k_rings a) semd_h;
     first_key (k_key a) k ns
   })"

section \<open>The primitives are right\<close>

lemma knowsD:
  assumes "knows addr s a"
  shows "rings (lh s) (map_of (k_rings a))"
    and "n \<in> set (k_nulled a) \<Longrightarrow> nulled (lh s) n"
    and "map_of (k_parent a) i = Some q \<Longrightarrow> p_parent (pcb_table s i) = q"
    and "map_of (k_sem_add a) i = Some k \<Longrightarrow>
      p_sem_add (pcb_table s i) = addr_of addr k \<and> pred_option semvar_ok k"
    and "map_of (k_key a) j = Some k' \<Longrightarrow> semd_key s j = addr k' \<and> semvar_ok k'"
    and "layout addr"
  using assms by (auto simp: knows_def)

lemma owner_None: "owner n R = None \<Longrightarrow> n \<notin> ring_nodes (map_of R)"
proof (induction R)
  case Nil
  then show ?case by (simp add: ring_nodes_def)
next
  case (Cons r R)
  then show ?case by (cases r) (fastforce simp: ring_nodes_def split: if_splits)
qed

text \<open>
  A write to the nodes of some rings leaves alone every node that was NULL, unless it is one of
  the nodes newly linked.
\<close>

lemma knows_lists:
  assumes k: "knows addr s a" and f: "f (lh s) = Some h" and rings: "rings h (map_of R)"
    and same: "same_on (- (A \<union> ring_nodes (map_of (k_rings a)))) (lh s) h"
    and N: "\<And>n. n \<in> set N \<Longrightarrow> nulled h n \<or> (n \<in> set (k_nulled a) \<and> n \<notin> A)"
  shows "on_lists f s = Some (s\<lparr>lh := h\<rparr>)
    \<and> knows addr (s\<lparr>lh := h\<rparr>) (a\<lparr>k_rings := R, k_nulled := N\<rparr>)"
proof -
  have "nulled h n" if n: "n \<in> set N" for n
  proof (cases "nulled h n")
    case False
    then have "n \<in> set (k_nulled a)" "n \<notin> A" using N[OF n] by auto
    then have "nulled (lh s) n" using knowsD(2)[OF k] by blast
    then have "n \<notin> ring_nodes (map_of (k_rings a))"
      using rings_ring[OF knowsD(1)[OF k]] ring_not_nulled by (fastforce simp: ring_nodes_def)
    with \<open>n \<notin> A\<close> \<open>nulled (lh s) n\<close> show ?thesis using same_on_nulled[OF same, of n] by simp
  qed
  then show ?thesis using k f rings by (simp add: knows_def on_lists_Some)
qed

text \<open>
  \<open>leads R Q f g\<close>: from states related by \<open>R\<close>, whenever \<open>g\<close> has a result, \<open>f\<close> has one and the two
  are related by \<open>Q\<close>. The rules follow the text of a C function, statement by statement.
\<close>

definition leads ::
  "('s \<Rightarrow> 't \<Rightarrow> bool) \<Rightarrow> ('a \<Rightarrow> 'b \<Rightarrow> bool) \<Rightarrow> ('s \<Rightarrow> 'a option) \<Rightarrow> ('t \<Rightarrow> 'b option) \<Rightarrow> bool" where
  "leads R Q f g \<longleftrightarrow> (\<forall>s t y. R s t \<longrightarrow> g t = Some y \<longrightarrow> (\<exists>x. f s = Some x \<and> Q x y))"

definition same_answer :: "('s \<Rightarrow> 't \<Rightarrow> bool) \<Rightarrow> 'a \<times> 's \<Rightarrow> 'a \<times> 't \<Rightarrow> bool" where
  "same_answer R r r' \<longleftrightarrow> fst r = fst r' \<and> R (snd r) (snd r')"

abbreviation lists_follow ::
  "(lnode lheap \<Rightarrow> lnode lheap option) \<Rightarrow> (knowledge \<Rightarrow> knowledge option) \<Rightarrow> bool" where
  "lists_follow f g \<equiv> (\<forall>addr. leads (knows addr) (knows addr) (on_lists f) g)"

abbreviation asks :: "(kstate \<Rightarrow> 'a option) \<Rightarrow> (knowledge \<Rightarrow> 'a option) \<Rightarrow> bool" where
  "asks f g \<equiv> (\<forall>addr. leads (knows addr) (=) f g)"

named_theorems knowing \<open>the code does what the interpreter computes\<close>

lemma lists_followI:
  assumes "\<And>addr s a a'. knows addr s a \<Longrightarrow> g a = Some a' \<Longrightarrow>
    \<exists>h R N A. f (lh s) = Some h \<and> a' = a\<lparr>k_rings := R, k_nulled := N\<rparr> \<and> rings h (map_of R)
      \<and> same_on (- (A \<union> ring_nodes (map_of (k_rings a)))) (lh s) h
      \<and> (\<forall>n\<in>set N. nulled h n \<or> (n \<in> set (k_nulled a) \<and> n \<notin> A))"
  shows "lists_follow f g"
  unfolding leads_def
proof (intro allI impI)
  fix addr s a a'
  assume k: "knows addr s a" and "g a = Some a'"
  then obtain h R N A where h: "f (lh s) = Some h" "a' = a\<lparr>k_rings := R, k_nulled := N\<rparr>"
    "rings h (map_of R)" "same_on (- (A \<union> ring_nodes (map_of (k_rings a)))) (lh s) h"
    "\<forall>n\<in>set N. nulled h n \<or> (n \<in> set (k_nulled a) \<and> n \<notin> A)"
    using assms by blast
  then show "\<exists>s'. on_lists f s = Some s' \<and> knows addr s' a'"
    using knows_lists[of addr s a f h R A N] k by blast
qed

lemma map_of_set_ring [simp]:
  "map_of (k_rings (set_ring c xs a)) = (map_of (k_rings a))(c \<mapsto> xs)"
  "k_nulled (set_ring c xs a) = k_nulled a" "k_key (set_ring c xs a) = k_key a"
  by (simp_all add: set_ring_def update_conv')

lemma ring_in_nodes: "map_of R c = Some xs \<Longrightarrow> insert c (set xs) \<subseteq> ring_nodes (map_of R)"
  by (auto simp: ring_nodes_def)

lemma head_alone:
  assumes "rings h R"
  shows "c \<notin> ring_nodes (R(c := None)) \<or> R c = None"
proof (cases "R c")
  case (Some xs)
  have "c \<notin> insert b (set ys)" if "R b = Some ys" "b \<noteq> c" for b ys
    using rings_disjoint[OF assms Some that(1)] that(2) by auto
  then show ?thesis by (auto simp: ring_nodes_def)
qed simp

lemma init_knowing [knowing]: "lists_follow (INIT_LIST_HEAD (Some c)) (ring_init c)"
proof (rule lists_followI)
  fix addr s a a'
  assume k: "knows addr s a" and g: "ring_init c a = Some a'"
  let ?R = "map_of (k_rings a)"
  have "c \<notin> ring_nodes (?R(c := None))"
    using g owner_None[of c "k_rings a"] head_alone[OF knowsD(1)[OF k], of c]
    by (auto simp: ring_init_def ring_nodes_def split: if_splits)
  from rings_init[OF rings_drop[OF knowsD(1)[OF k], of c] this] obtain h where
    h: "INIT_LIST_HEAD (Some c) (lh s) = Some h" "rings h (?R(c \<mapsto> []))" "same_on (- {c}) (lh s) h"
    by auto
  have "a' = a\<lparr>k_rings := AList.update c [] (k_rings a), k_nulled := removeAll c (k_nulled a)\<rparr>"
    using g by (auto simp: ring_init_def forget_nulled_def set_ring_def split: if_splits)
  with h show "\<exists>h R N A. INIT_LIST_HEAD (Some c) (lh s) = Some h \<and> a' = a\<lparr>k_rings := R, k_nulled := N\<rparr>
      \<and> rings h (map_of R) \<and> same_on (- (A \<union> ring_nodes ?R)) (lh s) h
      \<and> (\<forall>n\<in>set N. nulled h n \<or> (n \<in> set (k_nulled a) \<and> n \<notin> A))"
    by (intro exI[of _ h] exI[of _ "AList.update c [] (k_rings a)"]
        exI[of _ "removeAll c (k_nulled a)"] exI[of _ "{c}"])
      (auto simp: update_conv' intro: same_on_subset)
qed

lemma null_knowing [knowing]: "lists_follow (LIST_HEAD_NULL (Some n)) (ring_null n)"
proof (rule lists_followI)
  fix addr s a a'
  assume k: "knows addr s a" and g: "ring_null n a = Some a'"
  let ?R = "map_of (k_rings a)"
  have "n \<notin> ring_nodes ?R" using g owner_None by (auto simp: ring_null_def split: if_splits)
  from LIST_HEAD_NULL_off[OF knowsD(1)[OF k] this] obtain h where
    h: "LIST_HEAD_NULL (Some n) (lh s) = Some h" "rings h ?R" "nulled h n" "same_on (- {n}) (lh s) h"
    by blast
  have "a' = a\<lparr>k_rings := k_rings a, k_nulled := List.insert n (k_nulled a)\<rparr>"
    using g by (auto simp: ring_null_def split: if_splits)
  with h show "\<exists>h R N A. LIST_HEAD_NULL (Some n) (lh s) = Some h \<and> a' = a\<lparr>k_rings := R, k_nulled := N\<rparr>
      \<and> rings h (map_of R) \<and> same_on (- (A \<union> ring_nodes ?R)) (lh s) h
      \<and> (\<forall>n\<in>set N. nulled h n \<or> (n \<in> set (k_nulled a) \<and> n \<notin> A))"
    by (intro exI[of _ h] exI[of _ "k_rings a"] exI[of _ "List.insert n (k_nulled a)"] exI[of _ "{n}"])
      (auto intro: same_on_subset)
qed

lemma add_knowing:
  "lists_follow (if tail then list_add_tail (Some n) (Some c) else list_add (Some n) (Some c))
     (ring_add tail n c)"
proof (rule lists_followI)
  fix addr s a a'
  assume k: "knows addr s a" and g: "ring_add tail n c a = Some a'"
  let ?f = "if tail then list_add_tail (Some n) (Some c) else list_add (Some n) (Some c)"
  let ?R = "map_of (k_rings a)"
  obtain xs where xs: "?R c = Some xs" and n: "n \<notin> ring_nodes ?R"
    and a': "a' = forget_nulled n (set_ring c (if tail then xs @ [n] else n # xs) a)"
    using g owner_None[of n "k_rings a"] by (auto simp: ring_add_def bind_eq_Some_iff split: if_splits)
  let ?ys = "if tail then xs @ [n] else n # xs"
  obtain h where h: "?f (lh s) = Some h" "rings h (?R(c \<mapsto> ?ys))"
    "same_on (- (insert n (insert c (set xs)))) (lh s) h"
    using rings_add_tail[OF knowsD(1)[OF k] xs n] rings_add[OF knowsD(1)[OF k] xs n]
    by (cases tail) auto
  have "insert c (set xs) \<subseteq> ring_nodes ?R" using ring_in_nodes[OF xs] .
  then have "same_on (- ({n} \<union> ring_nodes ?R)) (lh s) h" using h(3) by (auto intro: same_on_subset)
  with h(1,2) a' show "\<exists>h R N A. ?f (lh s) = Some h \<and> a' = a\<lparr>k_rings := R, k_nulled := N\<rparr>
      \<and> rings h (map_of R) \<and> same_on (- (A \<union> ring_nodes ?R)) (lh s) h
      \<and> (\<forall>n\<in>set N. nulled h n \<or> (n \<in> set (k_nulled a) \<and> n \<notin> A))"
    by (intro exI[of _ h] exI[of _ "AList.update c ?ys (k_rings a)"]
        exI[of _ "removeAll n (k_nulled a)"] exI[of _ "{n}"])
      (auto simp: update_conv' set_ring_def forget_nulled_def)
qed

lemmas add_knowings [knowing] =
  add_knowing[of True, unfolded if_True] add_knowing[of False, unfolded if_False]

lemma del_knowing [knowing]: "lists_follow (list_del (Some n)) (ring_del n)"
proof (rule lists_followI)
  fix addr s a a'
  assume k: "knows addr s a" and g: "ring_del n a = Some a'"
  let ?R = "map_of (k_rings a)"
  obtain c xs where xs: "?R c = Some xs" "n \<in> set xs" and a': "a' = set_ring c (remove1 n xs) a"
    using g by (auto simp: ring_del_def bind_eq_Some_iff split: if_splits)
  obtain h where h: "list_del (Some n) (lh s) = Some h" "rings h (?R(c \<mapsto> remove1 n xs))"
    "same_on (- (insert c (set xs - {n}))) (lh s) h"
    using rings_del[OF knowsD(1)[OF k] xs] by blast
  have "same_on (- ({} \<union> ring_nodes ?R)) (lh s) h"
    using h(3) ring_in_nodes[OF xs(1)] by (auto intro: same_on_subset)
  with h(1,2) a' show "\<exists>h R N A. list_del (Some n) (lh s) = Some h \<and> a' = a\<lparr>k_rings := R, k_nulled := N\<rparr>
      \<and> rings h (map_of R) \<and> same_on (- (A \<union> ring_nodes ?R)) (lh s) h
      \<and> (\<forall>n\<in>set N. nulled h n \<or> (n \<in> set (k_nulled a) \<and> n \<notin> A))"
    by (intro exI[of _ h] exI[of _ "AList.update c (remove1 n xs) (k_rings a)"]
        exI[of _ "k_nulled a"] exI[of _ "{}"])
      (simp add: update_conv' set_ring_def)
qed

lemma sdel_knowing [knowing]: "lists_follow (list_sdel (Some n)) (ring_sdel n)"
proof (rule lists_followI)
  fix addr s a a'
  assume k: "knows addr s a" and g: "ring_sdel n a = Some a'"
  let ?R = "map_of (k_rings a)"
  let ?goal = "\<exists>h R N A. list_sdel (Some n) (lh s) = Some h \<and> a' = a\<lparr>k_rings := R, k_nulled := N\<rparr>
      \<and> rings h (map_of R) \<and> same_on (- (A \<union> ring_nodes ?R)) (lh s) h
      \<and> (\<forall>n\<in>set N. nulled h n \<or> (n \<in> set (k_nulled a) \<and> n \<notin> A))"
  show ?goal
  proof (cases "n \<in> set (k_nulled a)")
    case True
    then show ?goal
      using g list_sdel_nulled[OF knowsD(2)[OF k True]] knowsD(1)[OF k]
      by (intro exI[of _ "lh s"] exI[of _ "k_rings a"] exI[of _ "k_nulled a"] exI[of _ "{}"])
        (simp add: ring_sdel_def same_on_def)
  next
    case False
    then obtain c xs where xs: "?R c = Some xs" "n \<in> set xs"
      and a': "a' = (set_ring c (remove1 n xs) a)\<lparr>k_nulled := n # k_nulled a\<rparr>"
      using g by (auto simp: ring_sdel_def ring_del_def bind_eq_Some_iff split: if_splits)
    obtain h where h: "list_sdel (Some n) (lh s) = Some h" "rings h (?R(c \<mapsto> remove1 n xs))"
      "nulled h n" "same_on (- (insert c (set xs))) (lh s) h"
      using rings_sdel[OF knowsD(1)[OF k] xs] by blast
    have "same_on (- ({} \<union> ring_nodes ?R)) (lh s) h"
      using h(4) ring_in_nodes[OF xs(1)] by (auto intro: same_on_subset)
    with h(1-3) a' show ?goal
      by (intro exI[of _ h] exI[of _ "AList.update c (remove1 n xs) (k_rings a)"]
          exI[of _ "n # k_nulled a"] exI[of _ "{}"])
        (simp add: update_conv' set_ring_def)
  qed
qed

text \<open>The queries.\<close>

lemma query_knowing [knowing]:
  "asks (\<lambda>s. list_empty (Some c) (lh s)) (ring_empty c)"
  "asks (\<lambda>s. list_contains n (Some c) (lh s)) (ring_contains n c)"
  "asks (\<lambda>s. get_next (Some c) (lh s)) (ring_first c)"
  "asks (\<lambda>s. list_next (Some c) (lh s)) (ring_list_next c)"
  using rings_ring[OF knowsD(1)] ring_next[OF rings_ring[OF knowsD(1)]]
  by (fastforce simp: leads_def ring_empty_def ring_contains_def ring_first_def ring_list_next_def
      ring_rules )+

lemma leads_follows: "leads R (same_answer R) f g \<Longrightarrow> follows R f g"
  by (fastforce simp: leads_def same_answer_def follows_def)

named_theorems leading \<open>one statement of the code and of the interpreter\<close>

lemma leads_answer [leading]:
  "(\<And>s t. R s t \<Longrightarrow> R (u s) (v t)) \<Longrightarrow> leads R (same_answer R) (\<lambda>s. Some (x, u s)) (\<lambda>t. Some (x, v t))"
  by (simp add: leads_def same_answer_def)

lemma leads_done [leading]: "(\<And>s t. R s t \<Longrightarrow> R (u s) (v t)) \<Longrightarrow> leads R R (\<lambda>s. Some (u s)) (\<lambda>t. Some (v t))"
  by (simp add: leads_def)

lemma leads_value [leading]: "leads R (=) (\<lambda>s. Some x) (\<lambda>t. Some x)"
  by (simp add: leads_def)

lemma leads_step [leading]:
  "lists_follow f g \<Longrightarrow> leads (knows addr) Q h k \<Longrightarrow>
     leads (knows addr) Q (\<lambda>s. on_lists f s \<bind> h) (\<lambda>a. g a \<bind> k)"
  by (fastforce simp: leads_def bind_eq_Some_iff)

lemma leads_last [leading]: "lists_follow f g \<Longrightarrow> leads (knows addr) (knows addr) (on_lists f) g"
  by blast

lemma leads_ask:
  "asks f g \<Longrightarrow> (\<And>x. leads (knows addr) Q (h x) (k x)) \<Longrightarrow>
     leads (knows addr) Q (\<lambda>s. f s \<bind> (\<lambda>x. h x s)) (\<lambda>a. g a \<bind> (\<lambda>x. k x a))"
  by (fastforce simp: leads_def bind_eq_Some_iff)

lemmas leads_asks [leading] = query_knowing [THEN leads_ask]

lemma leads_call:
  "leads R (same_answer R) f g \<Longrightarrow> (\<And>x. leads R Q (h x) (k x)) \<Longrightarrow>
     leads R Q (\<lambda>s. f s \<bind> (\<lambda>(x, s). h x s)) (\<lambda>a. g a \<bind> (\<lambda>(x, a). k x a))"
  by (fastforce simp: leads_def same_answer_def bind_eq_Some_iff split: prod.splits)

lemma leads_run:
  "leads R R f g \<Longrightarrow> leads R Q h k \<Longrightarrow> leads R Q (\<lambda>s. f s \<bind> h) (\<lambda>a. g a \<bind> k)"
  by (fastforce simp: leads_def bind_eq_Some_iff)

lemma leads_pure [leading]:
  "(\<And>x. leads R Q (h x) (k x)) \<Longrightarrow>
     leads R Q (\<lambda>s. m \<bind> (\<lambda>x. h x s)) (\<lambda>a. m \<bind> (\<lambda>x. k x a))"
  by (cases m) (simp_all add: leads_def)

lemma leads_if [leading]:
  "leads R Q f g \<Longrightarrow> leads R Q f' g' \<Longrightarrow>
     leads R Q (\<lambda>s. if b then f s else f' s) (\<lambda>a. if b then g a else g' a)"
  by (simp add: leads_def)

lemma leads_let [leading]:
  "(\<And>s t. R s t \<Longrightarrow> R (u s) (v t)) \<Longrightarrow> leads R Q h k \<Longrightarrow>
     leads R Q (\<lambda>s. let s = u s in h s) (\<lambda>t. let t = v t in k t)"
  unfolding leads_def Let_def by blast

lemma leads_option [leading]:
  "leads R Q f g \<Longrightarrow> (\<And>x. leads R Q (h x) (k x)) \<Longrightarrow>
     leads R Q (\<lambda>s. case p of None \<Rightarrow> f s | Some x \<Rightarrow> h x s) (\<lambda>a. case p of None \<Rightarrow> g a | Some x \<Rightarrow> k x a)"
  by (cases p) (simp_all add: leads_def)

lemma leads_for_each [leading]:
  assumes "\<And>i. leads R R (f i) (g i)"
  shows "leads R R (for_each is f) (for_each is g)"
proof (induction "is")
  case Nil
  then show ?case by (simp add: leads_def)
next
  case (Cons i "is")
  have "leads R R (\<lambda>s. f i s \<bind> for_each is f) (\<lambda>a. g i a \<bind> for_each is g)"
    by (rule leads_run[OF assms Cons.IH])
  then show ?case by (simp add: leads_def)
qed

section \<open>The operations, interpreted\<close>

definition r_init_pcbs :: "knowledge \<Rightarrow> knowledge option" where
  "r_init_pcbs a = do {
     a \<leftarrow> ring_init pcb_free a;
     for_each [0..<20] (\<lambda>i a. do {
       a \<leftarrow> ring_add False (p_list i) pcb_free a;
       Some a
     }) a
   }"

definition r_free_pcb :: "nat option \<Rightarrow> knowledge \<Rightarrow> knowledge option" where
  "r_free_pcb p a = (case p of None \<Rightarrow> Some a | Some i \<Rightarrow> do {
     c \<leftarrow> ring_contains (p_list i) pcb_free a;
     if c then Some a else do {
       let a = a;
       a \<leftarrow> ring_sdel (p_list i) a;
       ring_add False (p_list i) pcb_free a
     }
   })"

definition r_null_pcb :: "nat option \<Rightarrow> knowledge \<Rightarrow> (nat option \<times> knowledge) option" where
  "r_null_pcb t a = (case t of None \<Rightarrow> Some (None, a) | Some i \<Rightarrow> do {
     a \<leftarrow> ring_null (p_list i) a;
     a \<leftarrow> ring_init (p_child i) a;
     a \<leftarrow> ring_null (p_sib i) a;
     Some (Some i, set_sem_add i None (set_parent i None a))
   })"

definition r_alloc_pcb :: "knowledge \<Rightarrow> (nat option \<times> knowledge) option" where
  "r_alloc_pcb a = do {
     e \<leftarrow> ring_empty pcb_free a;
     if e then Some (None, a) else do {
       first \<leftarrow> ring_first pcb_free a;
       i \<leftarrow> container_of_p_list first;
       a \<leftarrow> ring_del (p_list i) a;
       r_null_pcb (Some i) a
     }
   }"

definition r_insert_proc_q :: "lnode \<Rightarrow> nat option \<Rightarrow> knowledge \<Rightarrow> knowledge option" where
  "r_insert_proc_q c p a = (case p of None \<Rightarrow> Some a | Some i \<Rightarrow> do {
     a \<leftarrow> ring_sdel (p_list i) a;
     ring_add True (p_list i) c a
   })"

definition r_head_proc_q :: "lnode \<Rightarrow> knowledge \<Rightarrow> nat option option" where
  "r_head_proc_q c a = do {
     e \<leftarrow> ring_empty c a;
     if e then Some None else do {
       first \<leftarrow> ring_list_next c a;
       i \<leftarrow> container_of_p_list first;
       Some (Some i)
     }
   }"

definition r_out_proc_q :: "lnode \<Rightarrow> nat option \<Rightarrow> knowledge \<Rightarrow> (nat option \<times> knowledge) option" where
  "r_out_proc_q c p a = (case p of None \<Rightarrow> Some (None, a) | Some i \<Rightarrow> do {
     e \<leftarrow> ring_empty c a;
     if e then Some (None, a) else do {
       d \<leftarrow> ring_contains (p_list i) c a;
       if \<not> d then Some (None, a) else do {
         a \<leftarrow> ring_sdel (p_list i) a;
         Some (Some i, a)
       }
     }
   })"

definition r_remove_proc_q :: "lnode \<Rightarrow> knowledge \<Rightarrow> (nat option \<times> knowledge) option" where
  "r_remove_proc_q c a = do {
     e \<leftarrow> ring_empty c a;
     if e then Some (None, a) else do {
       to_remove \<leftarrow> ring_list_next c a;
       i \<leftarrow> container_of_p_list to_remove;
       r_out_proc_q c (Some i) a
     }
   }"

definition r_empty_child :: "nat option \<Rightarrow> knowledge \<Rightarrow> bool option" where
  "r_empty_child p a = (case p of None \<Rightarrow> Some True | Some i \<Rightarrow> ring_empty (p_child i) a)"

definition r_insert_child :: "nat option \<Rightarrow> nat option \<Rightarrow> knowledge \<Rightarrow> knowledge option" where
  "r_insert_child prnt p a = (case prnt of None \<Rightarrow> Some a | Some q \<Rightarrow>
     (case p of None \<Rightarrow> Some a | Some i \<Rightarrow> do {
       r \<leftarrow> map_of (k_parent a) i;
       if r \<noteq> None then Some a else do {
         c \<leftarrow> ring_contains (p_sib i) (p_child q) a;
         if c then Some a else do {
           let a = set_parent i (Some q) a;
           ring_add True (p_sib i) (p_child q) a
         }
       }
     }))"

definition r_out_child :: "nat option \<Rightarrow> knowledge \<Rightarrow> (nat option \<times> knowledge) option" where
  "r_out_child p a = (case p of None \<Rightarrow> Some (None, a) | Some i \<Rightarrow> do {
     r \<leftarrow> map_of (k_parent a) i;
     case r of None \<Rightarrow> Some (None, a) | Some q \<Rightarrow> do {
       e \<leftarrow> ring_empty (p_child q) a;
       if e then Some (None, a) else do {
         c \<leftarrow> ring_contains (p_sib i) (p_child q) a;
         if \<not> c then Some (None, a) else do {
           a \<leftarrow> ring_sdel (p_sib i) a;
           Some (Some i, set_parent i None a)
         }
       }
     }
   })"

definition r_remove_child :: "nat option \<Rightarrow> knowledge \<Rightarrow> (nat option \<times> knowledge) option" where
  "r_remove_child p a = (case p of None \<Rightarrow> Some (None, a) | Some q \<Rightarrow> do {
     e \<leftarrow> ring_empty (p_child q) a;
     if e then Some (None, a) else do {
       first \<leftarrow> ring_list_next (p_child q) a;
       i \<leftarrow> container_of_p_sib first;
       r_out_child (Some i) a
     }
   })"

definition r_init_asl :: "knowledge \<Rightarrow> knowledge option" where
  "r_init_asl a = do {
     a \<leftarrow> ring_init semd_free a;
     a \<leftarrow> ring_init semd_h a;
     for_each [0..<20] (\<lambda>i. ring_add False (s_link i) semd_free) a
   }"

definition r_alloc_semd :: "semvar \<Rightarrow> knowledge \<Rightarrow> (nat option \<times> knowledge) option" where
  "r_alloc_semd k a = (if \<not> semvar_ok k then None else do {
     e \<leftarrow> ring_empty semd_free a;
     if e then Some (None, a) else do {
       first \<leftarrow> ring_first semd_free a;
       j \<leftarrow> container_of_s_link first;
       a \<leftarrow> ring_del (s_link j) a;
       a \<leftarrow> ring_add False (s_link j) semd_h a;
       let a = set_key j k a;
       a \<leftarrow> ring_init (s_procq j) a;
       Some (Some j, a)
     }
   })"

definition r_free_semd :: "nat option \<Rightarrow> knowledge \<Rightarrow> (bool \<times> knowledge) option" where
  "r_free_semd d a = (case d of None \<Rightarrow> Some (True, a) | Some j \<Rightarrow> do {
     e \<leftarrow> ring_empty (s_procq j) a;
     if \<not> e then Some (True, a) else do {
       a \<leftarrow> ring_del (s_link j) a;
       a \<leftarrow> ring_add False (s_link j) semd_free a;
       Some (False, a)
     }
   })"

definition r_insert_blocked :: "semvar \<Rightarrow> nat option \<Rightarrow> knowledge \<Rightarrow> (nat \<times> knowledge) option" where
  "r_insert_blocked k p a = (if \<not> semvar_ok k then None
   else case p of None \<Rightarrow> Some (2, a) | Some i \<Rightarrow> do {
     b \<leftarrow> map_of (k_sem_add a) i;
     if b \<noteq> None then Some (3, a) else do {
       found \<leftarrow> ring_find_semd k a;
       (j, a) \<leftarrow> (case found of Some j \<Rightarrow> Some (Some j, a) | None \<Rightarrow> r_alloc_semd k a);
       case j of None \<Rightarrow> Some (4, a) | Some j \<Rightarrow> do {
         a \<leftarrow> ring_add True (p_list i) (s_procq j) a;
         Some (0, set_sem_add i (Some k) a)
       }
     }
   })"

definition r_out_blocked :: "nat option \<Rightarrow> knowledge \<Rightarrow> (nat option \<times> knowledge) option" where
  "r_out_blocked p a = (case p of None \<Rightarrow> Some (None, a) | Some i \<Rightarrow> do {
     b \<leftarrow> map_of (k_sem_add a) i;
     found \<leftarrow> (case b of None \<Rightarrow> Some None | Some k \<Rightarrow> ring_find_semd k a);
     case found of None \<Rightarrow> Some (None, a) | Some j \<Rightarrow> do {
       c \<leftarrow> ring_contains (p_list i) (s_procq j) a;
       if \<not> c then Some (None, a) else do {
         a \<leftarrow> ring_sdel (p_list i) a;
         let a = set_sem_add i None a;
         e \<leftarrow> ring_empty (s_procq j) a;
         if e then do {
           (failed, a) \<leftarrow> r_free_semd (Some j) a;
           Some (if failed then None else Some i, a)
         } else Some (Some i, a)
       }
     }
   })"

definition r_head_blocked :: "semvar \<Rightarrow> knowledge \<Rightarrow> nat option option" where
  "r_head_blocked k a = (if \<not> semvar_ok k then None else do {
     found \<leftarrow> ring_find_semd k a;
     case found of None \<Rightarrow> Some None | Some j \<Rightarrow> do {
       first \<leftarrow> ring_first (s_procq j) a;
       i \<leftarrow> container_of_p_list first;
       Some (Some i)
     }
   })"

definition r_remove_blocked :: "semvar \<Rightarrow> knowledge \<Rightarrow> (nat option \<times> knowledge) option" where
  "r_remove_blocked k a = do {
     p \<leftarrow> r_head_blocked k a;
     r_out_blocked p a
   }"

section \<open>The operations are right\<close>

lemma knows_upd_pcb:
  assumes "knows addr s a" "\<And>p. p_parent (f p) = p_parent p \<and> p_sem_add (f p) = p_sem_add p"
  shows "knows addr (upd_pcb i f s) a"
  using assms by (auto simp: knows_def)

lemma knows_parent:
  assumes "knows addr s a" "\<And>p. p_parent (f p) = q \<and> p_sem_add (f p) = p_sem_add p"
  shows "knows addr (upd_pcb i f s) (set_parent i q a)"
  using assms by (auto simp: knows_def set_parent_def update_conv')

lemma knows_sem_add:
  assumes "knows addr s a" "pred_option semvar_ok k"
    "\<And>p. p_parent (f p) = p_parent p \<and> p_sem_add (f p) = addr_of addr k"
  shows "knows addr (upd_pcb i f s) (set_sem_add i k a)"
  using assms by (auto simp: knows_def set_sem_add_def update_conv')

lemma knows_null:
  assumes "knows addr s a" "\<And>p. p_parent (f p) = None \<and> p_sem_add (f p) = 0"
  shows "knows addr (upd_pcb i f s) (set_sem_add i None (set_parent i None a))"
  using assms by (auto simp: knows_def set_sem_add_def set_parent_def update_conv' addr_of_def)

lemma knows_key:
  assumes "knows addr s a" "semvar_ok k"
  shows "knows addr (upd_semd j (\<lambda>d. d\<lparr>s_key := addr k\<rparr>) s) (set_key j k a)"
  using assms by (auto simp: knows_def set_key_def update_conv')

lemma some_not_null: "(if Some c = None then x else y) = y"
  by simp

named_theorems operations \<open>the operations and their interpretations\<close>

lemma init_pcbs_leads [operations]: "leads (knows addr) (knows addr) init_pcbs r_init_pcbs"
  unfolding init_pcbs_def r_init_pcbs_def
  by (intro leading knowing knows_upd_pcb) simp_all

lemma free_pcb_leads [operations]: "leads (knows addr) (knows addr) (free_pcb p) (r_free_pcb p)"
  unfolding free_pcb_def r_free_pcb_def
  by (intro leading knowing knows_upd_pcb) simp_all

lemma null_pcb_leads: "leads (knows addr) (same_answer (knows addr)) (null_pcb U t) (r_null_pcb t)"
  unfolding null_pcb_def r_null_pcb_def
  by (intro leading knowing knows_null) simp_all

lemma insert_proc_q_leads [operations]:
  "leads (knows addr) (knows addr) (insert_proc_q (Some c) p) (r_insert_proc_q c p)"
  unfolding insert_proc_q_def r_insert_proc_q_def some_not_null
  by (intro leading knowing)

lemma head_proc_q_leads [operations]:
  "leads (knows addr) (=) (head_proc_q (Some c)) (r_head_proc_q c)"
  unfolding head_proc_q_def r_head_proc_q_def some_not_null
  by (intro leading knowing)

lemma out_proc_q_leads [operations]:
  "leads (knows addr) (same_answer (knows addr)) (out_proc_q (Some c) p) (r_out_proc_q c p)"
  unfolding out_proc_q_def r_out_proc_q_def some_not_null
  by (intro leading knowing)

lemma remove_proc_q_leads [operations]:
  "leads (knows addr) (same_answer (knows addr)) (remove_proc_q (Some c)) (r_remove_proc_q c)"
  unfolding remove_proc_q_def r_remove_proc_q_def some_not_null
  by (intro leading knowing out_proc_q_leads)

lemma init_asl_leads [operations]: "leads (knows addr) (knows addr) init_asl r_init_asl"
  unfolding init_asl_def r_init_asl_def
  by (intro leading knowing)

text \<open>What the code reads from the tables.\<close>

lemma leads_case_parent [leading]:
  "leads (knows addr) Q f g \<Longrightarrow> (\<And>x. leads (knows addr) Q (h x) (k x)) \<Longrightarrow>
     leads (knows addr) Q (\<lambda>s. case p_parent (pcb_table s i) of None \<Rightarrow> f s | Some x \<Rightarrow> h x s)
       (\<lambda>a. map_of (k_parent a) i \<bind> (\<lambda>r. case r of None \<Rightarrow> g a | Some x \<Rightarrow> k x a))"
  by (fastforce simp: leads_def bind_eq_Some_iff dest: knowsD(3) split: option.splits)

lemma leads_if_parent [leading]:
  "leads (knows addr) Q f g \<Longrightarrow> leads (knows addr) Q h k \<Longrightarrow>
     leads (knows addr) Q (\<lambda>s. if p_parent (pcb_table s i) \<noteq> None then f s else h s)
       (\<lambda>a. map_of (k_parent a) i \<bind> (\<lambda>r. if r \<noteq> None then g a else k a))"
  by (fastforce simp: leads_def bind_eq_Some_iff dest: knowsD(3) split: if_splits)

lemma layoutD:
  assumes "layout addr" "semvar_ok k"
  shows "addr k \<noteq> 0" "word_aligned (addr k)" "semvar_ok k' \<Longrightarrow> addr k = addr k' \<longleftrightarrow> k = k'"
  using assms by (auto simp: layout_def inj_on_def)

lemma addr_of_zero: "layout addr \<Longrightarrow> pred_option semvar_ok k \<Longrightarrow> addr_of addr k = 0 \<longleftrightarrow> k = None"
  using layoutD(1) by (cases k) (auto simp: addr_of_def)

lemma leads_if_sem_add [leading]:
  assumes "leads (knows addr) Q f g" "leads (knows addr) Q h k"
  shows "leads (knows addr) Q (\<lambda>s. if p_sem_add (pcb_table s i) \<noteq> 0 then f s else h s)
    (\<lambda>a. map_of (k_sem_add a) i \<bind> (\<lambda>b. if b \<noteq> None then g a else k a))"
  unfolding leads_def
proof (intro allI impI)
  fix s a y
  assume k: "knows addr s a" and g: "map_of (k_sem_add a) i \<bind> (\<lambda>b. if b \<noteq> None then g a else k a) = Some y"
  obtain b where b: "map_of (k_sem_add a) i = Some b" using g by (auto simp: bind_eq_Some_iff)
  have "p_sem_add (pcb_table s i) = 0 \<longleftrightarrow> b = None"
    using knowsD(4)[OF k b] addr_of_zero[OF knowsD(6)[OF k]] by simp
  then show "\<exists>x. (if p_sem_add (pcb_table s i) \<noteq> 0 then f s else h s) = Some x \<and> Q x y"
    using assms k g b by (auto simp: leads_def split: if_splits)
qed

lemma first_key_find:
  assumes k: "knows addr s a" "semvar_ok k" and f: "first_key (k_key a) k ns = Some y"
  shows "find (\<lambda>n. key_cmp s (addr k) dummy_link n = Some 0) ns = map_option s_link y
    \<and> (\<forall>n\<in>set ns. key_cmp s (addr k) dummy_link n \<noteq> None)
    \<and> (\<forall>j. y = Some j \<longrightarrow> s_link j \<in> set ns)"
  using f
proof (induction ns arbitrary: y)
  case Nil
  then show ?case by simp
next
  case (Cons n ns)
  obtain j k' r where n: "n = s_link j" and k': "map_of (k_key a) j = Some k'"
    and r: "first_key (k_key a) k ns = Some r" "y = (if k' = k then Some j else r)"
    using Cons.prems by (cases n) (auto simp: bind_eq_Some_iff)
  note key = knowsD(5)[OF k(1) k'] and lay = layoutD[OF knowsD(6)[OF k(1)]]
  have "key_cmp s (addr k) dummy_link n = Some 0 \<longleftrightarrow> k' = k"
    using word_ptr_diff_eq_0[OF lay(2)[OF k(2)] lay(2)[of k']] lay(3)[OF k(2), of k'] key
    by (auto simp: key_cmp_def n)
  moreover have "key_cmp s (addr k) dummy_link n \<noteq> None" by (simp add: key_cmp_def n)
  ultimately show ?case using Cons.IH[OF r(1)] r(2) n by auto
qed

lemma find_semd_leads:
  "leads (knows addr) (=) (find_semd (Some semd_h) (addr k)) (ring_find_semd k)"
  unfolding leads_def
proof (intro allI impI)
  fix s a y
  assume know: "knows addr s a" and g: "ring_find_semd k a = Some y"
  obtain ns where k: "semvar_ok k" and ns: "map_of (k_rings a) semd_h = Some ns"
    and y: "first_key (k_key a) k ns = Some y"
    using g by (auto simp: ring_find_semd_def bind_eq_Some_iff split: if_splits)
  note f = first_key_find[OF know k y]
  have "list_search dummy_link (Some semd_h) (key_cmp s (addr k)) (lh s) = Some (map_option s_link y)"
    using list_search_ring[OF rings_ring[OF knowsD(1)[OF know] ns], of "key_cmp s (addr k)" dummy_link]
      f by simp
  then show "\<exists>x. find_semd (Some semd_h) (addr k) s = Some x \<and> x = y"
    using layoutD(1)[OF knowsD(6)[OF know] k] by (cases y) (simp_all add: find_semd_def)
qed

lemma leads_find_semd [leading]:
  "(\<And>x. leads (knows addr) Q (h x) (k x)) \<Longrightarrow>
     leads (knows addr) Q (\<lambda>s. find_semd (Some semd_h) (addr v) s \<bind> (\<lambda>x. h x s))
       (\<lambda>a. ring_find_semd v a \<bind> (\<lambda>x. k x a))"
  using find_semd_leads[of addr v] by (fastforce simp: leads_def bind_eq_Some_iff)

lemma leads_find_own [leading]:
  assumes "\<And>x. leads (knows addr) Q (h x) (k x)"
  shows "leads (knows addr) Q
    (\<lambda>s. find_semd (Some semd_h) (p_sem_add (pcb_table s i)) s \<bind> (\<lambda>x. h x s))
    (\<lambda>a. map_of (k_sem_add a) i \<bind> (\<lambda>b. (case b of None \<Rightarrow> Some None | Some v \<Rightarrow> ring_find_semd v a)
       \<bind> (\<lambda>x. k x a)))"
  unfolding leads_def
proof (intro allI impI)
  fix s a y
  assume know: "knows addr s a" and g: "map_of (k_sem_add a) i \<bind> (\<lambda>b.
    (case b of None \<Rightarrow> Some None | Some v \<Rightarrow> ring_find_semd v a) \<bind> (\<lambda>x. k x a)) = Some y"
  then obtain b x where b: "map_of (k_sem_add a) i = Some b" and kx: "k x a = Some y"
    and x: "(case b of None \<Rightarrow> Some None | Some v \<Rightarrow> ring_find_semd v a) = Some x"
    by (auto simp: bind_eq_Some_iff)
  have "find_semd (Some semd_h) (p_sem_add (pcb_table s i)) s = Some x"
  proof (cases b)
    case None
    then show ?thesis using x knowsD(4)[OF know b] by (simp add: find_semd_def addr_of_def)
  next
    case (Some v)
    then show ?thesis
      using x knowsD(4)[OF know b] find_semd_leads[of addr v] know
      by (simp add: addr_of_def leads_def)
  qed
  then show "\<exists>x. find_semd (Some semd_h) (p_sem_add (pcb_table s i)) s \<bind> (\<lambda>x. h x s) = Some x \<and> Q x y"
    using assms[of x] know kx by (auto simp: leads_def)
qed

text \<open>Unlinking the first element of a list, through the pointer to it.\<close>

lemma leads_first_p_list [leading]:
  assumes "\<And>i. leads R Q (\<lambda>s. on_lists (list_del (Some (p_list i))) s \<bind> h i) (k i)"
  shows "leads R Q (\<lambda>s. container_of_p_list first \<bind> (\<lambda>i. on_lists (list_del first) s \<bind> h i))
    (\<lambda>a. container_of_p_list first \<bind> (\<lambda>i. k i a))"
  using assms by (cases first rule: container_of_p_list.cases) (simp_all add: leads_def)

lemma alloc_pcb_leads [operations]:
  "leads (knows addr) (same_answer (knows addr)) (alloc_pcb U) r_alloc_pcb"
  unfolding alloc_pcb_def r_alloc_pcb_def
  by (intro leading knowing null_pcb_leads)

lemma empty_proc_q_leads [operations]: "leads (knows addr) (=) (empty_proc_q (Some c)) (ring_empty c)"
  using query_knowing(1)[of c] by (simp add: leads_def empty_proc_q_def)

lemma empty_child_leads [operations]: "leads (knows addr) (=) (empty_child p) (r_empty_child p)"
  unfolding empty_child_def r_empty_child_def using query_knowing(1) by (intro leading) simp

lemma insert_child_leads [operations]:
  "leads (knows addr) (knows addr) (insert_child q p) (r_insert_child q p)"
  unfolding insert_child_def r_insert_child_def
  by (intro leading knowing knows_parent) simp_all

lemma out_child_leads [operations]:
  "leads (knows addr) (same_answer (knows addr)) (out_child p) (r_out_child p)"
  unfolding out_child_def r_out_child_def
  by (intro leading knowing knows_parent) simp_all

lemma remove_child_leads [operations]:
  "leads (knows addr) (same_answer (knows addr)) (remove_child p) (r_remove_child p)"
  unfolding remove_child_def r_remove_child_def
  by (intro leading knowing out_child_leads)

lemma leads_valid [leading]:
  assumes "semvar_ok k \<Longrightarrow> leads (knows addr) Q f g"
  shows "leads (knows addr) Q (\<lambda>s. if addr k = 0 then h s else f s)
    (\<lambda>a. if \<not> semvar_ok k then None else g a)"
  using assms layoutD(1)[of addr k] by (auto simp: leads_def dest: knowsD(6))

lemma alloc_semd_leads:
  "leads (knows addr) (same_answer (knows addr)) (alloc_semd (addr k)) (r_alloc_semd k)"
  unfolding alloc_semd_def r_alloc_semd_def
  by (intro leading knowing knows_key)

lemma free_semd_leads:
  "leads (knows addr) (same_answer (knows addr)) (free_semd d) (r_free_semd d)"
  unfolding free_semd_def r_free_semd_def
  by (intro leading knowing)

lemma insert_blocked_leads [operations]:
  "leads (knows addr) (same_answer (knows addr)) (insert_blocked (addr k) p) (r_insert_blocked k p)"
  unfolding insert_blocked_def r_insert_blocked_def
  by (intro leading knowing leads_call knows_sem_add alloc_semd_leads) (simp_all add: addr_of_def)

lemma out_blocked_leads [operations]:
  "leads (knows addr) (same_answer (knows addr)) (out_blocked p) (r_out_blocked p)"
  unfolding out_blocked_def r_out_blocked_def
  by (intro leading knowing leads_call knows_sem_add free_semd_leads) (simp_all add: addr_of_def)

lemma head_blocked_leads [operations]:
  "leads (knows addr) (=) (head_blocked (addr k)) (r_head_blocked k)"
  unfolding head_blocked_def r_head_blocked_def
  by (intro leading knowing)

lemma remove_blocked_leads [operations]:
  "leads (knows addr) (same_answer (knows addr)) (remove_blocked (addr k)) (r_remove_blocked k)"
  unfolding leads_def
proof (intro allI impI)
  fix s a y
  assume k: "knows addr s a" and r: "r_remove_blocked k a = Some y"
  obtain p where p: "r_head_blocked k a = Some p" "r_out_blocked p a = Some y"
    using r by (auto simp: r_remove_blocked_def bind_eq_Some_iff)
  then have "head_blocked (addr k) s = Some p" using head_blocked_leads k by (auto simp: leads_def)
  then show "\<exists>x. remove_blocked (addr k) s = Some x \<and> same_answer (knows addr) x y"
    using out_blocked_leads[of addr p] k p(2) by (cases y) (simp add: remove_blocked_def leads_def)
qed

end
