(* ===== verification/P1run.thy ===== *)
theory P1run
  imports P1rings
begin

text \<open>
  The test program run to its end. \<open>rings_link\<close> links it with the interpreter of \<open>P1rings\<close>; the
  interpretation \<open>p1run\<close> of the locale \<open>alike\<close> shows that the kernel answers as the interpreter
  does, console included. The run of the interpreter is evaluated section by section, and gives
  the outcome on the kernel from any initial state of it.
\<close>

section \<open>The test linked with the interpreter\<close>

text \<open>What was said so far, and the number of characters it takes.\<close>

record p1known =
  known :: knowledge
  said :: "string list"
  used :: int

definition on_known :: "(knowledge \<Rightarrow> ('a \<times> knowledge) option) \<Rightarrow> p1known \<Rightarrow> ('a \<times> p1known) option" where
  "on_known f m = map_option (\<lambda>(x, a). (x, m\<lparr>known := a\<rparr>)) (f (known m))"

fun int_length :: "string \<Rightarrow> int" where
  "int_length [] = 0"
| "int_length (c # cs) = int_length cs + 1"

definition r_addokbuf :: "string \<Rightarrow> p1known \<Rightarrow> (unit \<times> p1known) option" where
  "r_addokbuf msg m = (let n = used m + int_length msg in
     if n < 2048 then Some ((), m\<lparr>said := said m @ [msg], used := n\<rparr>) else None)"

definition rings_link :: "p1known p1link" where
  "rings_link = \<lparr>
     x_init_pcbs = on_known (effect r_init_pcbs),
     x_alloc_pcb = on_known r_alloc_pcb,
     x_free_pcb = \<lambda>p. on_known (effect (r_free_pcb p)),
     x_list_head_qa = on_known (effect (ring_init qa_head)),
     x_empty_proc_q = on_known (query (ring_empty qa_head)),
     x_insert_proc_q = \<lambda>p. on_known (effect (r_insert_proc_q qa_head p)),
     x_head_proc_q = on_known (query (r_head_proc_q qa_head)),
     x_out_proc_q = \<lambda>p. on_known (r_out_proc_q qa_head p),
     x_remove_proc_q = on_known (r_remove_proc_q qa_head),
     x_empty_child = \<lambda>p. on_known (query (r_empty_child p)),
     x_insert_child = \<lambda>prnt p. on_known (effect (r_insert_child prnt p)),
     x_out_child = \<lambda>p. on_known (r_out_child p),
     x_remove_child = \<lambda>p. on_known (r_remove_child p),
     x_init_asl = on_known (effect r_init_asl),
     x_insert_blocked = \<lambda>k p. on_known (r_insert_blocked k p),
     x_head_blocked = \<lambda>k. on_known (query (r_head_blocked k)),
     x_remove_blocked = \<lambda>k. on_known (r_remove_blocked k),
     x_out_blocked = \<lambda>p. on_known (r_out_blocked p),
     x_addokbuf = r_addokbuf,
     x_adderrbuf = \<lambda>msg m. None\<rparr>"

definition r_start :: "p1known p1" where
  "r_start = \<lparr>vars = p1vars_init, env = \<lparr>known = unknown, said = [], used = 0\<rparr>\<rparr>"

section \<open>The console\<close>

text \<open>The word that prints a character; a status register that is never busy for ever.\<close>

definition print_command :: "char \<Rightarrow> u32" where
  "print_command c = push_bit CHAROFFSET (scast (of_char c :: 8 word)) OR PRINT_CHR"

definition prompt :: "(nat \<Rightarrow> u32) \<Rightarrow> bool" where
  "prompt st \<longleftrightarrow> (\<forall>n. \<exists>k\<ge>n. st k AND TERM_STATUS_MASK \<noteq> ST_BUSY)"

definition transmitting :: "(nat \<Rightarrow> u32) \<Rightarrow> bool" where
  "transmitting st \<longleftrightarrow> (\<forall>n. st n AND TERM_STATUS_MASK = TRANSMITTED)"

lemma term_poll_ends:
  assumes "t_reads t \<le> k" "t_status t k AND TERM_STATUS_MASK \<noteq> ST_BUSY"
  shows "\<exists>n. term_poll t = Some (t_status t n AND TERM_STATUS_MASK, t\<lparr>t_reads := Suc n\<rparr>)"
  using assms
proof (induction "k - t_reads t" arbitrary: t)
  case 0
  then show ?case by (subst term_poll.simps) (auto simp: term_status_def)
next
  case (Suc d)
  show ?case
  proof (cases "t_status t (t_reads t) AND TERM_STATUS_MASK = ST_BUSY")
    case True
    have "\<exists>n. term_poll (t\<lparr>t_reads := Suc (t_reads t)\<rparr>)
        = Some (t_status t n AND TERM_STATUS_MASK, t\<lparr>t_reads := Suc n\<rparr>)"
      using Suc.hyps(1)[of "t\<lparr>t_reads := Suc (t_reads t)\<rparr>"] Suc.hyps(2) Suc.prems by simp
    with True show ?thesis by (subst term_poll.simps) (simp add: term_status_def)
  qed (subst term_poll.simps, auto simp: term_status_def)
qed

lemma print_cycle_ends:
  assumes "prompt (t_status t)"
  shows "\<exists>e t'. print_cycle str t = Some (e, t') \<and> t_status t' = t_status t
    \<and> (transmitting (t_status t) \<longrightarrow> t_commands t' = t_commands t @ map print_command str)"
  using assms
proof (induction str arbitrary: t)
  case Nil
  then show ?case by (intro exI[of _ False] exI[of _ t]) simp
next
  case (Cons c str)
  let ?t = "term_command (print_command c) t"
  obtain n where n: "term_poll ?t = Some (t_status t n AND TERM_STATUS_MASK, ?t\<lparr>t_reads := Suc n\<rparr>)"
    using term_poll_ends[of ?t] Cons.prems[unfolded prompt_def, rule_format, of "t_reads t"]
    by (fastforce simp: term_command_def)
  let ?t1 = "?t\<lparr>t_reads := Suc n\<rparr>"
  have t1: "t_status ?t1 = t_status t" "t_commands ?t1 = t_commands t @ [print_command c]"
    by (simp_all add: term_command_def)
  then obtain e t' where t': "print_cycle str ?t1 = Some (e, t')" "t_status t' = t_status t"
    "transmitting (t_status t) \<longrightarrow> t_commands t' = t_commands ?t1 @ map print_command str"
    using Cons.IH[of ?t1] Cons.prems by auto
  show ?case
    using n t' t1 by (auto simp: print_command_def [symmetric] transmitting_def)
qed

lemma termprint_ends:
  assumes "prompt (t_status (tx c 0))"
  shows "\<exists>r t'. termprint str 0 c = Some (r, c\<lparr>tx := (tx c)(0 := t')\<rparr>)
    \<and> t_status t' = t_status (tx c 0)
    \<and> (transmitting (t_status (tx c 0)) \<longrightarrow>
         t_commands t' = t_commands (tx c 0) @ map print_command str)"
proof -
  let ?t = "snd (term_status (tx c 0))"
  have t: "t_status ?t = t_status (tx c 0)" "t_commands ?t = t_commands (tx c 0)"
    by (simp_all add: term_status_def)
  obtain e t' where "print_cycle str ?t = Some (e, t')" "t_status t' = t_status (tx c 0)"
    "transmitting (t_status (tx c 0)) \<longrightarrow> t_commands t' = t_commands (tx c 0) @ map print_command str"
    using print_cycle_ends[of ?t str] assms t by auto
  then show ?thesis
    using t by (auto simp: termprint_def termstat_def transmitting_def term_status_def)
qed

lemma copy_str_fits:
  "i + length str < length buf \<Longrightarrow> copy_str str buf i
     = Some (take i buf @ str @ NUL # drop (i + length str + 1) buf, i + length str + 1)"
proof (induction str arbitrary: buf i)
  case Nil
  then show ?case by (simp add: upd_conv_take_nth_drop)
next
  case (Cons c str)
  have "take (Suc i) (buf[i := c]) = take i buf @ [c]"
    using Cons.prems by (simp add: take_Suc_conv_app_nth)
  with Cons show ?case by simp
qed

definition console_rel :: "(nat \<Rightarrow> u32) \<Rightarrow> u32 list \<Rightarrow> console \<Rightarrow> p1known \<Rightarrow> bool" where
  "console_rel st cmds c m \<longleftrightarrow>
     length (okbuf c) = 2048 \<and> prompt st \<and> t_status (tx c 0) = st
   \<and> used m = int (mp c) \<and> mp c < 2048 \<and> take (mp c) (okbuf c) = concat (said m)
   \<and> (said m \<noteq> [] \<longrightarrow> okbuf c ! mp c = NUL)
   \<and> (transmitting st \<longrightarrow> t_commands (tx c 0) = cmds @ map print_command (concat (said m)))"

lemma int_length: "int_length cs = int (length cs)"
  by (induction cs) simp_all

lemma addokbuf_rel:
  assumes rel: "console_rel st cmds c m" and r: "r_addokbuf msg m = Some ((), m')"
  shows "\<exists>c'. addokbuf msg c = Some c' \<and> console_rel st cmds c' m'"
proof -
  note d = rel[unfolded console_rel_def]
  have fits: "mp c + length msg < length (okbuf c)"
    and m': "m' = m\<lparr>said := said m @ [msg], used := used m + int (length msg)\<rparr>"
    using r d by (auto simp: r_addokbuf_def int_length Let_def split: if_splits)
  let ?buf = "take (mp c) (okbuf c) @ msg @ NUL # drop (mp c + length msg + 1) (okbuf c)"
  let ?c = "c\<lparr>okbuf := ?buf, mp := mp c + length msg\<rparr>"
  obtain q t' where t': "termprint msg 0 ?c = Some (q, ?c\<lparr>tx := (tx c)(0 := t')\<rparr>)"
    "t_status t' = st"
    "transmitting st \<longrightarrow> t_commands t' = t_commands (tx c 0) @ map print_command msg"
    using termprint_ends[of ?c msg] d by auto
  have "addokbuf msg c = Some (?c\<lparr>tx := (tx c)(0 := t')\<rparr>)"
    using t'(1) by (simp add: addokbuf_def copy_str_fits[OF fits])
  moreover have len: "length (concat (said m)) = mp c"
    using d by (metis length_take min.absorb4 min.commute)
  have "take (mp c + length msg) ?buf = concat (said m) @ msg" "?buf ! (mp c + length msg) = NUL"
    "length ?buf = 2048"
    using d fits len by (simp_all add: nth_append)
  then have "console_rel st cmds (?c\<lparr>tx := (tx c)(0 := t')\<rparr>) m'"
    using d t'(2,3) fits m' by (simp add: console_rel_def)
  ultimately show ?thesis by blast
qed

section \<open>The kernel answers as the interpreter does\<close>

definition machine_knows ::
  "(semvar \<Rightarrow> u32) \<Rightarrow> (nat \<Rightarrow> u32) \<Rightarrow> u32 list \<Rightarrow> p1machine \<Rightarrow> p1known \<Rightarrow> bool" where
  "machine_knows addr st cmds m a \<longleftrightarrow> knows addr (kern m) (known a) \<and> console_rel st cmds (cons m) a"

lemma on_kern_follows:
  assumes "follows (knows addr) f g"
  shows "follows (machine_knows addr st cmds) (on_kern f) (on_known g)"
  using assms
  by (fastforce simp: follows_def machine_knows_def on_kern_def on_known_def console_rel_def)

lemma effect_follows: "leads R R f g \<Longrightarrow> follows R (effect f) (effect g)"
  by (fastforce simp: leads_def follows_def effect_def)

lemma query_follows: "leads R (=) f g \<Longrightarrow> follows R (query f) (query g)"
  by (fastforce simp: leads_def follows_def query_def)

interpretation p1run: alike "kernel_link U addr" rings_link "machine_knows addr st cmds"
  for U addr st cmds
proof
  let ?R = "machine_knows addr st cmds"
  show "follows ?R (x_addokbuf (kernel_link U addr) msg) (x_addokbuf rings_link msg)" for msg
    using addokbuf_rel
    by (fastforce simp: follows_def kernel_link_def rings_link_def machine_knows_def on_cons_def
        r_addokbuf_def Let_def split: if_splits)
  show "follows ?R (x_adderrbuf (kernel_link U addr) msg) (x_adderrbuf rings_link msg)" for msg
    by (simp add: follows_def rings_link_def)
qed (simp_all add: kernel_link_def rings_link_def,
    (intro on_kern_follows effect_follows query_follows leads_follows operations leads_last knowing)+)

section \<open>The run\<close>

definition p1_report :: "string list" where
  "p1_report = [
     ''Initialized process control blocks   \<newline>'',
     ''alloc_pcb ok   \<newline>'',
     ''freed 10 entries   \<newline>'',
     ''Inserting...   \<newline>'',
     ''inserted 10 elements   \<newline>'',
     ''out_proc_q ok   \<newline>'',
     ''Removing...   \<newline>'',
     ''insert_proc_q, remove_proc_q and empty_proc_q ok   \<newline>'',
     ''process queues module ok      \<newline>'',
     ''checking process trees...\<newline>'',
     ''Inserting...   \<newline>'',
     ''Inserted 9 children   \<newline>'',
     ''out_child ok   \<newline>'',
     ''Removing...   \<newline>'',
     ''insert_child, remove_child and empty_child ok   \<newline>'',
     ''process tree module ok      \<newline>'',
     ''Initialized active semaphore list   \<newline>'',
     ''insert_blocked test #1 started  \<newline>'',
     ''insert_blocked test #2 started  \<newline>'',
     ''remove_blocked test started   \<newline>'',
     ''insert_blocked and remove_blocked ok   \<newline>'',
     ''head_blocked and outBlocked ok   \<newline>'',
     ''ASL module ok   \<newline>'',
     ''So Long and Thanks for All the Fish\<newline>'']"

text \<open>
  What is known after the tests of the process trees, when every control block is free again, and
  after the tests of \<^verbatim>\<open>insert_blocked\<close>, when each of the twenty semaphores has one process waiting.
\<close>

definition after_trees :: "p1known p1" where
  "after_trees = \<lparr>
     vars = \<lparr>procp = map Some (rev [0..<20]), var_p = None, var_q = Some 10, firstproc = Some 0,
       midproc = Some 5, lastproc = Some 9\<rparr>,
     env = \<lparr>
       known = \<lparr>
         k_rings = (pcb_free, map p_list ([10..<20] @ [9, 8, 7, 6, 4, 3, 2, 1, 5, 0]))
           # map (\<lambda>i. (p_child i, [])) (rev [0..<20]) @ [(qa_head, [])],
         k_nulled = map p_sib ([10..<15] @ [16, 17, 15, 18] @ [0..<10] @ [19]),
         k_parent = map (\<lambda>i. (i, None)) (rev [0..<20]),
         k_sem_add = map (\<lambda>i. (i, None)) (rev [0..<20]),
         k_key = []\<rparr>,
       said = take 16 p1_report,
       used = 403\<rparr>\<rparr>"

definition after_insert :: "p1known p1" where
  "after_insert = (let procs = [9, 8, 7, 6, 4, 3, 2, 1, 5, 0] @ [10..<20] in \<lparr>
     vars = \<lparr>procp = map Some procs, var_p = Some 11, var_q = Some 10, firstproc = Some 0,
       midproc = Some 5, lastproc = Some 9\<rparr>,
     env = \<lparr>
       known = \<lparr>
         k_rings = (pcb_free, []) # map (\<lambda>i. (p_child i, [])) (rev [0..<20])
           @ [(qa_head, []), (semd_free, []), (semd_h, map s_link (18 # [0..<18] @ [19]))]
           @ zip (map s_procq (rev [0..<20])) (map (\<lambda>i. [p_list i]) ([10..<20] @ take 10 procs)),
         k_nulled = map p_sib ([10..<15] @ [16, 17, 15, 18] @ [0..<10] @ [19]),
         k_parent = map (\<lambda>i. (i, None)) (rev [0..<20]),
         k_sem_add = zip (rev [0..<20])
           (map (\<lambda>k. Some (sem_var k)) (rev [10..<20] @ [0, 1, 2, 3, 8, 4, 5, 6, 7, 9])),
         k_key = zip (rev [0..<20]) (map sem_var ([10..<20] @ [0..<10]))\<rparr>,
       said = take 19 p1_report,
       used = 506\<rparr>\<rparr>)"

text \<open>
  At the end, nine semaphores have two processes waiting, the ones of the last round behind those
  of the second, and the tenth has none; all the process
  control blocks are in use.
\<close>

definition r_final :: "p1known outcome option \<Rightarrow> bool" where
  "r_final r = (case r of Some (Running s) \<Rightarrow>
       said (env s) = p1_report
     \<and> list_all (\<lambda>k. r_head_blocked (sem_var k) (known (env s)) = Some (procp (vars s) ! k)) [0..<9]
     \<and> r_head_blocked (sem_var 9) (known (env s)) = Some None
     \<and> ring_empty pcb_free (known (env s)) = Some True
   | _ \<Rightarrow> False)"

lemma r_run_trees:
  "block (test_alloc rings_link @ test_insert_q rings_link @ test_out_q rings_link
     @ test_remove_q rings_link @ test_insert_child rings_link @ test_out_child rings_link
     @ test_remove_child rings_link) r_start = Some (Running after_trees)"
  by code_simp

lemma r_run_insert: "block (test_insert_blocked rings_link) after_trees = Some (Running after_insert)"
  by code_simp

lemma r_run_rest:
  "r_final (block (test_remove_blocked rings_link @ test_head_blocked rings_link) after_insert)"
  by code_simp

lemma block_append:
  "block (cs @ ds) s = (case block cs s of
     None \<Rightarrow> None | Some (Panicked s) \<Rightarrow> Some (Panicked s) | Some (Running s) \<Rightarrow> block ds s)"
  by (induction cs arbitrary: s) (auto split: option.split outcome.split)

lemma r_run: "r_final (p1test rings_link r_start)"
proof -
  let ?A = "test_alloc rings_link @ test_insert_q rings_link @ test_out_q rings_link
     @ test_remove_q rings_link @ test_insert_child rings_link @ test_out_child rings_link
     @ test_remove_child rings_link"
  let ?B = "test_insert_blocked rings_link"
  let ?C = "test_remove_blocked rings_link @ test_head_blocked rings_link"
  have "p1test rings_link r_start = block (?A @ (?B @ ?C)) r_start"
    by (simp only: p1test_def append_assoc)
  also have "\<dots> = block (?B @ ?C) after_trees"
    by (simp only: block_append[of ?A "?B @ ?C"] r_run_trees option.case outcome.case)
  also have "\<dots> = block ?C after_insert"
    by (simp only: block_append[of ?B ?C] r_run_insert option.case outcome.case)
  finally show ?thesis using r_run_rest by simp
qed

text \<open>
  C16 (safety). P. The test of phase 1 passes, whatever the state the kernel's memory is in when it starts and
  wherever the linker puts the test's variables: \<^verbatim>\<open>main\<close> runs to its end with no access to NULL
  or outside an array, no unexpected answer and no panic. Then \<^verbatim>\<open>okbuf\<close> holds its 24 messages and
  a terminator, and a terminal that never refuses a character was sent all of them in order; the
  first nine semaphores have their process at the front of the queue, the tenth has no queue, and
  no process control block is free. All that is asked of the terminal is that it is not busy for
  ever.
\<close>

theorem phase1_test_passes:
  assumes "layout addr" "length (okbuf c) = 2048" "mp c = 0" "prompt (t_status (tx c 0))"
  shows "\<exists>m. p1test (kernel_link U addr) \<lparr>vars = p1vars_init, env = \<lparr>kern = s, cons = c\<rparr>\<rparr>
      = Some (Running m)
    \<and> take (mp (cons (env m))) (okbuf (cons (env m))) = concat p1_report
    \<and> okbuf (cons (env m)) ! mp (cons (env m)) = NUL
    \<and> (transmitting (t_status (tx c 0)) \<longrightarrow> t_commands (tx (cons (env m)) 0)
        = t_commands (tx c 0) @ map print_command (concat p1_report))
    \<and> (\<forall>k<9. head_blocked (addr (sem_var k)) (kern (env m)) = Some (procp (vars m) ! k))
    \<and> head_blocked (addr (sem_var 9)) (kern (env m)) = Some None
    \<and> alloc_pcb U (kern (env m)) = Some (None, kern (env m))"
proof -
  let ?st = "t_status (tx c 0)" and ?cmds = "t_commands (tx c 0)"
  let ?s = "\<lparr>vars = p1vars_init, env = \<lparr>kern = s, cons = c\<rparr>\<rparr>"
  let ?R = "machine_knows addr ?st ?cmds"
  have "p1_rel ?R ?s r_start"
    using assms by (simp add: p1_rel_def r_start_def machine_knows_def knows_def unknown_def
        console_rel_def)
  moreover obtain t where t: "p1test rings_link r_start = Some (Running t)"
    "r_final (Some (Running t))"
    using r_run by (auto simp: r_final_def split: option.splits outcome.splits)
  ultimately obtain r where r: "p1test (kernel_link U addr) ?s = Some r" "outcome_rel ?R r (Running t)"
    using p1run.main_alike[of addr ?st ?cmds U] unfolding stmt_follows_def by blast
  then obtain m where m: "r = Running m" "vars m = vars t" "?R (env m) (env t)"
    using r(2) by (cases r) (auto simp: p1_rel_def)
  have k: "knows addr (kern (env m)) (known (env t))" and c: "console_rel ?st ?cmds (cons (env m)) (env t)"
    using m(3) by (simp_all add: machine_knows_def)
  have f: "said (env t) = p1_report" "ring_empty pcb_free (known (env t)) = Some True"
    "r_head_blocked (sem_var 9) (known (env t)) = Some None"
    "\<And>k. k < 9 \<Longrightarrow> r_head_blocked (sem_var k) (known (env t)) = Some (procp (vars t) ! k)"
    using t(2) by (simp_all add: r_final_def list_all_iff)
  have head: "head_blocked (addr v) (kern (env m)) = Some x"
    if "r_head_blocked v (known (env t)) = Some x" for v x
    using head_blocked_leads[of addr v] k that by (simp add: leads_def)
  have "list_empty (Some pcb_free) (lh (kern (env m))) = Some True"
    using query_knowing(1)[of pcb_free] k f(2) by (simp add: leads_def)
  then have "alloc_pcb U (kern (env m)) = Some (None, kern (env m))"
    by (simp add: alloc_pcb_def)
  then show ?thesis
    using r(1) m(1,2) c f head by (simp add: console_rel_def p1_report_def)
qed

text \<open>A layout of the variables, and a terminal that takes every character.\<close>

definition some_addr :: "semvar \<Rightarrow> u32" where
  "some_addr k = (case k of sem_var i \<Rightarrow> 0x20010000 + 4 * of_nat i | onesem \<Rightarrow> 0x20010080)"

lemma some_layout: "layout some_addr"
proof -
  have range: "semvar_ok k \<Longrightarrow> \<exists>i\<le>32. some_addr k = 0x20010000 + 4 * of_nat i
      \<and> (case k of sem_var j \<Rightarrow> i = j | onesem \<Rightarrow> i = 32)" for k
    by (cases k) (auto simp: some_addr_def)
  have val: "unat (0x20010000 + 4 * of_nat i :: u32) = 0x20010000 + 4 * i" if "i \<le> 32" for i
    using that by (simp add: unat_word_ariths unat_of_nat)
  have "some_addr k \<noteq> 0 \<and> word_aligned (some_addr k)" if ok: "semvar_ok k" for k
  proof -
    obtain i where i: "i \<le> 32" "some_addr k = 0x20010000 + 4 * of_nat i" using range[OF ok] by blast
    have "uint (some_addr k) = int (unat (some_addr k))" by simp
    then have "uint (some_addr k) = 4 * (0x8004000 + int i)" using val[OF i(1)] i(2) by simp
    moreover have "take_bit 2 (4 * (0x8004000 + int i)) = 0"
      unfolding take_bit_eq_mod by simp
    ultimately show ?thesis by (auto simp: word_aligned_uint)
  qed
  moreover have "k = l" if k: "semvar_ok k" and l: "semvar_ok l" and eq: "some_addr k = some_addr l" for k l
  proof -
    obtain i j where i: "i \<le> 32" "some_addr k = 0x20010000 + 4 * of_nat i"
        "case k of sem_var m \<Rightarrow> i = m | onesem \<Rightarrow> i = 32"
      and j: "j \<le> 32" "some_addr l = 0x20010000 + 4 * of_nat j"
        "case l of sem_var m \<Rightarrow> j = m | onesem \<Rightarrow> j = 32"
      using range[OF k] range[OF l] by blast
    have "i = j" using val[OF i(1)] val[OF j(1)] i(2) j(2) eq by simp
    then show ?thesis using i(3) j(3) k l by (cases k; cases l) auto
  qed
  ultimately show ?thesis by (auto simp: layout_def intro: inj_onI)
qed

definition some_console :: console where
  "some_console = \<lparr>okbuf = replicate 2048 NUL, mp = 0, errbuf = replicate 128 NUL,
     tx = (\<lambda>_. \<lparr>t_status = (\<lambda>_. 5), t_reads = 0, t_commands = []\<rparr>)\<rparr>"

lemma some_console:
  "length (okbuf some_console) = 2048" "mp some_console = 0"
  "prompt (t_status (tx some_console 0))" "transmitting (t_status (tx some_console 0))"
  by (auto simp: some_console_def prompt_def transmitting_def)

theorem phase1_test_passes_witness:
  "\<forall>U s. \<exists>m. p1test (kernel_link U some_addr)
      \<lparr>vars = p1vars_init, env = \<lparr>kern = s, cons = some_console\<rparr>\<rparr> = Some (Running m)
    \<and> t_commands (tx (cons (env m)) 0) = map print_command (concat p1_report)
    \<and> head_blocked (some_addr (sem_var 3)) (kern (env m)) = Some (procp (vars m) ! 3)"
proof (intro allI)
  fix U s
  have "t_commands (tx some_console 0) = []" by (simp add: some_console_def)
  with phase1_test_passes[OF some_layout some_console(1-3), of U s] some_console(4)
  show "\<exists>m. p1test (kernel_link U some_addr)
      \<lparr>vars = p1vars_init, env = \<lparr>kern = s, cons = some_console\<rparr>\<rparr> = Some (Running m)
    \<and> t_commands (tx (cons (env m)) 0) = map print_command (concat p1_report)
    \<and> head_blocked (some_addr (sem_var 3)) (kern (env m)) = Some (procp (vars m) ! 3)"
    by force
qed

end
