(* ===== verification/Spec2Isabelle.thy ===== *)
theory Spec2Isabelle
  imports Scenario Support_Level P1run
begin

text \<open>
  A verification of PandOS+, an operating system for the uMPS3 educational machine: a nucleus
  (\<^verbatim>\<open>src/os\<close>, \<^verbatim>\<open>src/phase2\<close>) of processes, semaphores, a scheduler, device I/O and exception handling,
  and a support level (\<^verbatim>\<open>src/phase3\<close>) above it, of virtual memory and of system calls for user
  processes.

  \<^bold>\<open>How the program works, and how it is modelled.\<close> Every exception enters the nucleus at
  \<^verbatim>\<open>exception_handler\<close>, which charges the running process, copies its saved state into its control
  block, dispatches on the cause, and ends in \<^verbatim>\<open>schedule\<close>, which never returns: it loads the state of
  a process, waits for an interrupt, halts, or panics. A definition of the nucleus takes the state of
  the kernel (\<open>kstate\<close>: the static variables, the tables, memory words, the machine registers it
  uses) and gives an option: \<open>None\<close> where C has no defined behaviour or does not return, else a
  result \<open>Ret\<close> with the new state, or an exit of the nucleus (\<open>Exit\<close> with \<open>LDST\<close>, \<open>LDCXT\<close>, \<open>WAIT\<close>,
  \<open>HALT\<close> or \<open>PANIC\<close> and its message). That a theorem says \<open>Some\<close> is thus the claim that the code
  returns. Intrusive lists are a heap of next and previous links over a datatype of all the list
  heads the program has; pointers to table entries are indices, pointers to user memory are words.

  \<^item> \<open>Prelude\<close>: loops over counters, options, lists; the collections of rewrite rules.
  \<^item> \<open>Lists\<close> (\<^verbatim>\<open>os/include/os/list.h\<close>, list helpers of \<^verbatim>\<open>util.h\<close>): each operation on a ring of nodes is
    an operation on the list it holds, and leaves disjoint rings alone.
  \<^item> \<open>Printf\<close>, \<open>Numbers\<close> (\<^verbatim>\<open>os/src/util.c\<close>): the format interpreter over a writer, the writers to a
    string, to the log and to a serial line; formatting always ends; \<^verbatim>\<open>nitoa\<close> writes numerals.
  \<^item> \<open>Machine\<close> (\<^verbatim>\<open>os/types.h\<close>, \<^verbatim>\<open>os/const.h\<close>, \<^verbatim>\<open>arch/processor.h\<close>): the data model, \<open>kstate\<close>.
  \<^item> \<open>Interfaces\<close>: the contract of a first-in first-out queue, as a locale, with what follows from it;
    process queues and semaphore queues interpret it. The writers of \<open>Printf\<close> have one of their own.
  \<^item> \<open>Pcb\<close>, \<open>Asl\<close> (\<^verbatim>\<open>os/src/pcb.c\<close>, \<^verbatim>\<open>os/src/asl.c\<close>): control blocks, process queues and tree, the
    queues of semaphores. A \<open>view\<close> gives the abstract content of all lists; \<open>pcb_rel\<close> and \<open>asl_rel\<close>
    tie a state to its view, and every operation is an operation on views.
  \<^item> \<open>P1test\<close>, \<open>P1rings\<close>, \<open>P1run\<close> (\<^verbatim>\<open>phase1/src/p1test.c\<close>): the test program of phase 1, written over the
    operations it is linked with; an interpreter of the list code on rings, which needs nothing of the
    initial state; the locale \<open>alike\<close>, interpreted on the kernel and the interpreter, by which the run
    of the test on the interpreter is its run on the kernel.
  \<^item> \<open>Processor\<close> (\<^verbatim>\<open>phase2/src/processor.c\<close>, \<^verbatim>\<open>devices.c\<close>, \<^verbatim>\<open>semaphores.c\<close>): status words, device
    registers and their semaphores, timers.
  \<^item> \<open>Scheduler\<close>, \<open>Dispatch\<close> (\<^verbatim>\<open>os/src/scheduler.c\<close>): identifiers, creation and killing, the choice of
    the next process; the invariant \<open>sched_inv\<close> with its exact counters; the specification \<open>pick\<close>.
  \<^item> \<open>Semaphores\<close> (\<^verbatim>\<open>os/src/semaphores.c\<close>): P and V, and the abstract semaphore \<open>sem_P\<close>, \<open>sem_V\<close>.
  \<^item> \<open>Syscall\<close>, \<open>Exception\<close>, \<open>Init\<close> (\<^verbatim>\<open>os/src/puod.c\<close>, \<^verbatim>\<open>syscall.c\<close>, \<^verbatim>\<open>phase2/src/exception.c\<close>,
    \<^verbatim>\<open>os/src/init.c\<close>, \<^verbatim>\<open>phase2/src/main.c\<close>): the handlers and the start.
  \<^item> \<open>Safety\<close>, \<open>Behaviour\<close>: the nucleus as one machine, its invariant \<open>kernel_ok\<close>, the reachable
    states, and what single calls and interrupts do.
  \<^item> \<open>Level\<close>, \<open>Pager\<close>, \<open>Supports\<close>, \<open>Uproc\<close>, \<open>Instantiator\<close> (\<^verbatim>\<open>phase3/src\<close>: \<^verbatim>\<open>storage.c\<close>, \<^verbatim>\<open>pager.c\<close>,
    \<^verbatim>\<open>test.c\<close>, \<^verbatim>\<open>support.c\<close>): the support level. Its state \<open>sstate\<close> contains the kernel's; the effect of
    the SYSCALL instruction as its caller sees it, the TLB instructions and the addresses chosen by
    the linker form the parameter \<open>world\<close>, and \<open>calls\<close> logs the system calls made.
  \<^item> \<open>Paging\<close>, \<open>Userland\<close>, \<open>Support_Level\<close>: the specifications and properties of the support level.
  \<^item> \<open>Services\<close>: a system call followed from the SYSCALL instruction through the whole nucleus to the
    state it loads (\<open>nucleus_call\<close>), the wait for a device and its interrupt included.
  \<^item> \<open>Mutex\<close>: a word of memory as a lock between processes; what every handler does to a word that it
    is not about (\<open>spares\<close>), and the runs of the machine in which the lock is taken and given back.
  \<^item> \<open>Contract\<close>, \<open>Provider\<close>: what the pager needs of the nucleus, as the locale
    \<open>swap_pool_services\<close>, with page faults served from the contract alone; the nucleus of phase 2
    interprets it (\<open>nucleus_world\<close>), so that the two halves of the system are composed.
  \<^item> \<open>Scenario\<close>, \<open>Worlds\<close>: the concrete states and environments that witness the properties.

  \<^bold>\<open>What is shown.\<close> For the nucleus: the exception handler always leaves by a legitimate exit and the
  invariant holds in every reachable state; the scheduler, P and V refine their specifications;
  creation, termination, device I/O, the clock and the interrupts do what they promise, on the
  branches of success and of error; a semaphore excludes processes from each other under any
  interleaving of calls and interrupts; the test program of phase 1 passes from any initial memory. For
  the support level: a page fault brings the page in and, for a process that has the pool for itself,
  keeps page table, swap pool table and TLB consistent; demand paging works from end to end over the
  modelled nucleus; address translation is exact; allocation, clean-up, reading, writing and the
  start of the user processes do what they promise. The properties that state a defect say so: a page evicted from
  another process stays mapped there, and a user process that ends panics the machine.

  \<^bold>\<open>Loops and recursion.\<close> No fuel is used. Loops over list links, over the digits of a number, over
  the children of a process, over timer semaphores and over the input of a terminal are
  \<^verbatim>\<open>partial_function (option)\<close>, where not ending is the value \<open>None\<close>, and are proved to end where the
  properties say so; all other loops are structural recursion.

  \<^bold>\<open>Parameters and hypotheses.\<close> The constants of the emulator's headers (\<open>umps\<close>) and the linker's
  addresses are parameters, with what the code needs of them as predicates (\<open>machine_ok\<close>, \<open>devices_ok\<close>,
  \<open>sems_ok\<close>, \<open>slots_ok\<close>, ...), satisfied by the values of uMPS3 (\<open>U0\<close>, \<open>W0\<close>). A device is memory words
  with no behaviour of its own; what it does between two entries into the nucleus is any change of
  those words. In the support level \<open>gives\<close> states that a system call answers with a value and leaves
  the data of the support level alone, \<open>flash_gives\<close> and \<open>terminal_gives\<close> what devices answer, \<open>tlb_ok\<close>
  what the architecture documents of the TLB. Over the nucleus itself only the devices remain:
  \<open>device_done\<close> says that a device finishes a request and interrupts, \<open>quiet\<close> that nobody else is ready.

  \<^bold>\<open>Not modelled.\<close> \<^verbatim>\<open>list_print\<close> (a debugging aid); the text \<^verbatim>\<open>scheduler_panic\<close> prints on the terminal
  (the message is kept in the exit); the test driver \<^verbatim>\<open>phase2/test\<close> and the user programs of \<^verbatim>\<open>phase3\<close>,
  which run above the kernel and have no logic of it; the instructions of user programs; and, inside a
  handler of the support level, the interleaving with other processes: the code between two system
  calls runs as one step.
\<close>

section \<open>The nucleus as a machine\<close>









text \<open>
  C24 (functional). From a state as the loader leaves it, main initialises all lists and semaphores and starts the
  first process at its entry point, in an empty kernel: it is the only live process, on no queue,
  every other control block is free, and every device semaphore is 0.
\<close>

theorem main_starts_first_process:
  assumes "bss s" "sems_ok U"
  shows "\<exists>st s'. main U refill_pc exc pc s = Some (Exit (LDST st) s') \<and> pc_epc st = pc \<and> gpr st reg_t9 = pc
    \<and> active_process s' = Some (MAX_PROC - 1) \<and> sched_inv s' view2
    \<and> (\<forall>i. live view2 i \<longleftrightarrow> i = MAX_PROC - 1) \<and> off_lists view2 (MAX_PROC - 1)
    \<and> waiting s' view2 = (\<lambda>_. []) \<and> (\<forall>k<SEMAPHORES_NUM U. mem s' (sem_addr_of U (int k)) = 0)"
  using main_rel[OF assms, of refill_pc exc pc] view2_live(1) by blast

theorem main_starts_first_process_witness:
  "\<exists>st s'. main U0 0x1000 0x2000 0x3000 zero_state = Some (Exit (LDST st) s') \<and> pc_epc st = 0x3000 \<and> sched_inv s' view2"
  using main_starts_first_process[OF bss_zero_state sems_ok_U0, of "0x1000" "0x2000" "0x3000"] by blast

section \<open>Processes\<close>

text \<open>
  C10 (functional). Killing a live process ends, reports success, and kills exactly that process and its progeny:
  they leave the process table, every ready and semaphore queue and the process tree; every other
  process keeps its control block and its place in every queue; the counters stay exact; nothing
  else in the kernel changes.
\<close>

theorem kill_progeny_kills_subtree:
  assumes "sched_inv s v" "live v i"
  shows "\<exists>s' v'. kill_progeny (Some i) s = Some (0, s') \<and> killed (progeny v i) s v s' v'"
  by (rule kill_progeny_rel[OF assms])

theorem kill_progeny_kills_subtree_witness:
  "sched_inv family view_family \<and> 18 \<in> progeny view_family 19
   \<and> (\<exists>s' v'. kill_progeny (Some 19) family = Some (0, s') \<and> killed (progeny view_family 19) family view_family s' v')"
proof -
  have "child_of view_family 18 19" using family_facts(2,4) by (simp add: child_of_def)
  then have "18 \<in> progeny view_family 19" by (auto simp: progeny_def tree_rel_def)
  then show ?thesis using kill_progeny_kills_subtree[OF family_facts(1,2)] family_facts(1) by blast
qed

section \<open>Scheduling\<close>



text \<open>
  C27 (functional). A process that yields gives way to every ready process: the first of the high priority queue
  runs next, else the first of the low priority queue, and the yielding process goes last on the
  queue of its priority. It keeps the processor only if no process is ready.
\<close>

theorem yield_gives_way:
  assumes "kernel_ok s v" "active_process s = Some a" "j = hd (v_hi v @ v_lo v @ [a])"
  shows "\<exists>s' v'. kbind (syscall_yield s) (\<lambda>ctrl s. schedule U (ctrl_pcb ctrl) (ctrl_enqueue ctrl) s)
      = Some (Exit (LDST (p_s (pcb_table s' j))) s')
    \<and> active_process s' = Some j \<and> kernel_ok s' v'
    \<and> (v_hi v @ v_lo v \<noteq> [] \<longrightarrow>
        (if p_prio (pcb_table s a) = 0 then v_lo v' \<noteq> [] \<and> last (v_lo v') = a else v_hi v' \<noteq> [] \<and> last (v_hi v') = a))"
  by (rule yield_dispatch[OF assms])

theorem yield_gives_way_witness:
  "\<exists>s'. kbind (syscall_yield family) (\<lambda>ctrl s. schedule U0 (ctrl_pcb ctrl) (ctrl_enqueue ctrl) s)
      = Some (Exit (LDST (p_s (pcb_table s' 18))) s') \<and> active_process s' = Some 18"
proof -
  have "18 = hd (v_hi view_family @ v_lo view_family @ [19])" using family_facts(5) by simp
  from yield_gives_way[OF family_kernel_ok family_facts(7) this, of U0] show ?thesis by blast
qed

section \<open>Semaphores\<close>

text \<open>
  C5 (refinement). P implements the abstract binary semaphore: on the value 0 the process joins the end of the queue
  and its processor time ends; otherwise the first waiting process, if any, becomes ready and the
  value stays; if none waits the value goes down by one. Nothing else in the kernel changes.
\<close>

theorem P_refines_semaphore:
  assumes "sched_inv s v" "off_lists v i" "k \<noteq> 0" "word_aligned k"
    and "sem_P i (mem s k, waiting s v k) = (xq, r)"
  shows "\<exists>s' v'. P k (Some i) s
      = Some (Ret (if r = Blocks then CONTROL_BLOCK else CONTROL_RESCHEDULE s) s')
    \<and> sem_effect k xq r s v s' v'"
  by (rule P_refines[OF assms])

theorem P_refines_semaphore_witness:
  "\<exists>s' v'. P (sem_addr_of U0 0) (Some 19) running = Some (Ret CONTROL_BLOCK s')
    \<and> sched_inv s' v' \<and> waiting s' v' (sem_addr_of U0 0) = [19] \<and> mem s' (sem_addr_of U0 0) = 0"
proof -
  let ?k = "sem_addr_of U0 0"
  have k: "?k \<noteq> 0" "word_aligned ?k" using sem_addr_facts(1,2)[OF sems_ok_U0, of 0] SEMAPHORES_NUM_U0 by simp_all
  have "sem_P 19 (mem running ?k, waiting running view2 ?k) = ((0, [19]), Blocks)"
    using running_facts(2) running_facts(6)[of 0] SEMAPHORES_NUM_U0 by (simp add: sem_P_def)
  from P_refines_semaphore[OF running_facts(1) _ k this] running_facts(3)
  obtain s' v' where "P ?k (Some 19) running = Some (Ret CONTROL_BLOCK s')" "sem_effect ?k (0, [19]) Blocks running view2 s' v'"
    by auto
  then show ?thesis by (intro exI[of _ s'] exI[of _ v']) (simp add: sem_effect_def)
qed

text \<open>
  C6 (refinement). V implements the abstract binary semaphore for the running process: on the value 1 that process
  joins the end of the queue and no process is returned; otherwise the first waiting process becomes
  ready and is returned; if none waits the value goes up by one and the running process is returned.
\<close>

theorem V_refines_semaphore:
  assumes "sched_inv s v" "active_process s = Some i" "off_lists v i" "k \<noteq> 0" "word_aligned k"
    and "sem_V i (mem s k, waiting s v k) = (xq, r)"
  shows "\<exists>s' v'. V k s
      = Some (Ret (case r of Blocks \<Rightarrow> None | Wakes t \<Rightarrow> Some t | Passes \<Rightarrow> active_process s) s')
    \<and> sem_effect k xq r s v s' v'"
  by (rule V_refines[OF assms])

theorem V_refines_semaphore_witness:
  "\<exists>s' v'. V (sem_addr_of U0 0) running = Some (Ret (Some 19) s') \<and> sched_inv s' v' \<and> mem s' (sem_addr_of U0 0) = 1"
proof -
  let ?k = "sem_addr_of U0 0"
  have k: "?k \<noteq> 0" "word_aligned ?k" using sem_addr_facts(1,2)[OF sems_ok_U0, of 0] SEMAPHORES_NUM_U0 by simp_all
  have "sem_V 19 (mem running ?k, waiting running view2 ?k) = ((1, []), Passes)"
    using running_facts(2) running_facts(6)[of 0] SEMAPHORES_NUM_U0 by (simp add: sem_V_def)
  from V_refines_semaphore[OF running_facts(1) _ _ k this] running_facts(3,4) show ?thesis
    by (auto simp: sem_effect_def)
qed



text \<open>
  C26 (refinement). The processes blocked on one semaphore leave it in the order in which they came, whatever other
  semaphores are in use; when the last has left, the queue answers that it is empty.
\<close>

theorem semaphore_queue_fifo:
  assumes "holds_blocked s k xs" "distinct is" "\<forall>i\<in>set is. detached s i"
  shows "\<exists>s1 s2. ins_all block_on k is s = Some s1
    \<and> rem_all remove_blocked k (length xs + length is) s1 = Some (map Some (xs @ is), s2)
    \<and> holds_blocked s2 k [] \<and> remove_blocked k s2 = Some (None, s2)"
  by (rule sem_q.fifo_order[OF assms])

theorem semaphore_queue_fifo_witness:
  "\<exists>s1 s2. ins_all block_on (sem_addr_of U0 0) [19] running = Some s1
    \<and> rem_all remove_blocked (sem_addr_of U0 0) 1 s1 = Some ([Some 19], s2)"
proof -
  note asl = sched_invD(1)[OF running_facts(1)]
  have "holds_blocked running (sem_addr_of U0 0) []"
    using sem_addr_facts(1,2)[OF sems_ok_U0, of 0] SEMAPHORES_NUM_U0 asl running_facts(2)
    by (auto simp: holds_blocked_def)
  moreover have "detached running 19"
    using running_facts(3) detached_iff[OF asl_relD(1)[OF asl]] by (simp add: off_lists_def)
  ultimately show ?thesis using semaphore_queue_fifo[of running "sem_addr_of U0 0" "[]" "[19]"] by auto
qed

section \<open>System calls\<close>

text \<open>
  C13 (functional). CREATEPROCESS with a valid priority and state, while a control block is free: the child starts
  from the caller's state argument with the given priority and support structure, is the last child
  of the caller and last on the ready queue of its priority; the caller gets the child's identifier
  in v0 and keeps the processor.
\<close>

theorem create_process_makes_child:
  assumes "kernel_ok s v" "active_process s = Some a" "v_free v = c # fs"
    and "get_reg a reg_a2 s \<in> {0, 1}" "get_reg a reg_a1 s \<noteq> 0"
  shows "\<exists>s' v'. syscall_create_process U a s = Some (Ret (CONTROL_PRESERVE (Some a)) s') \<and> created s v a c s' v'"
  by (rule create_process_child[OF assms])

theorem create_process_makes_child_witness:
  "\<exists>s' v'. syscall_create_process U0 19 (set_reg 19 reg_a2 1 (set_reg 19 reg_a1 0x5000 running))
      = Some (Ret (CONTROL_PRESERVE (Some 19)) s')
    \<and> created (set_reg 19 reg_a2 1 (set_reg 19 reg_a1 0x5000 running)) view2 19 18 s' v'"
  by (rule create_process_makes_child[OF kernel_ok_set_reg[OF kernel_ok_set_reg[OF running_kernel_ok]] _ boot_lists(9)])
    (use running_facts(4) in \<open>simp_all add: get_reg_def set_reg_def\<close>)









text \<open>
  C21 (error). An exception of a process without a support structure kills it and its progeny, and nothing else.
\<close>

theorem exception_kills_unsupported:
  assumes "kernel_ok s v" "active_process s = Some a" "p_support (pcb_table s a) = 0"
  shows "\<exists>s' v'. pass_up_or_die type s = Some (Ret CONTROL_BLOCK s') \<and> killed (progeny v a) s v s' v'"
  by (rule die_rel[OF assms])

theorem exception_kills_unsupported_witness:
  "\<exists>s s' v'. pass_up_or_die GENERALEXCEPT s = Some (Ret CONTROL_BLOCK s') \<and> killed (progeny view_family 19) s view_family s' v'"
proof -
  let ?s = "upd_pcb 19 (\<lambda>p. p\<lparr>p_support := 0\<rparr>) family"
  have "kernel_ok ?s view_family"
    by (rule kernel_ok_same[OF family_kernel_ok]) (simp_all add: same_kernel_def)
  moreover have "active_process ?s = Some 19" "p_support (pcb_table ?s 19) = 0" using family_facts(7) by simp_all
  ultimately show ?thesis using exception_kills_unsupported[of ?s view_family 19 GENERALEXCEPT] by blast
qed

section \<open>Interrupts\<close>





text \<open>
  C15 (liveness). The interval timer: every process that waits for the clock becomes ready, in the order it came
  and on the queue of its priority; the loop over the clock's semaphore ends, and leaves it at 1.
\<close>

theorem timer_interrupt_wakes_all:
  assumes "kernel_ok s v" "machine_ok U" "k = get_timer_semaphore U" "mem s k \<noteq> 1"
  shows "\<exists>s' v'. interrupt_timer U s = Some (Ret (CONTROL_PRESERVE (active_process s)) s') \<and> kernel_ok s' v'
    \<and> mem s' = (mem s)(k := 1) \<and> waiting s' v' = (waiting s v)(k := [])
    \<and> v_lo v' = v_lo v @ filter (\<lambda>i. p_prio (pcb_table s i) = 0) (waiting s v k)
    \<and> v_hi v' = v_hi v @ filter (\<lambda>i. p_prio (pcb_table s i) \<noteq> 0) (waiting s v k)"
  by (rule interrupt_timer_rel[OF assms])

theorem timer_interrupt_wakes_all_witness:
  "\<exists>s' v'. interrupt_timer U0 (blocked_on (get_timer_semaphore U0)) = Some (Ret (CONTROL_PRESERVE None) s')
    \<and> kernel_ok s' v' \<and> set (v_lo v') \<union> set (v_hi v') = {19} \<and> waiting s' v' = (\<lambda>_. [])"
proof -
  let ?k = "get_timer_semaphore U0"
  have "?k = sem_addr_of U0 (int 48)" by (simp add: get_timer_semaphore_def SEMAPHORES_NUM_U0)
  then obtain v where v: "kernel_ok (blocked_on ?k) v" "waiting (blocked_on ?k) v = (\<lambda>_. [])(?k := [19])"
    "active_process (blocked_on ?k) = None" "mem (blocked_on ?k) ?k = 0" "v_lo v = []" "v_hi v = []"
    using blocked_on_facts[of 48 ?k] SEMAPHORES_NUM_U0 by auto
  obtain s' v' where "interrupt_timer U0 (blocked_on ?k) = Some (Ret (CONTROL_PRESERVE (active_process (blocked_on ?k))) s')"
    "kernel_ok s' v'" "waiting s' v' = (waiting (blocked_on ?k) v)(?k := [])"
    "v_lo v' = v_lo v @ filter (\<lambda>i. p_prio (pcb_table (blocked_on ?k) i) = 0) (waiting (blocked_on ?k) v ?k)"
    "v_hi v' = v_hi v @ filter (\<lambda>i. p_prio (pcb_table (blocked_on ?k) i) \<noteq> 0) (waiting (blocked_on ?k) v ?k)"
    using timer_interrupt_wakes_all[OF v(1) machine_ok_U0 refl] v(4) by auto
  then show ?thesis using v by (intro exI[of _ s'] exI[of _ v']) (auto simp: fun_eq_iff)
qed

section \<open>Devices\<close>



section \<open>Numbers and formatted output\<close>

text \<open>
  C36 (equivalence). nitoa writes what it should: into a buffer of at least twelve characters, the shortest decimal
  numeral of any 32-bit integer, the smallest one included, with its sign, or the hexadecimal
  numeral of a non-negative one; it answers with the number of characters.
\<close>

theorem nitoa_writes_numeral:
  assumes "b = 10 \<or> b = 16 \<and> 0 \<le> sint i" "12 \<le> len" "len \<le> length dest"
  shows "\<exists>buf. nitoa i (of_nat b) dest len
      = Some ((if sint i < 0 then 1 else 0) + length (number b (nat \<bar>sint i\<bar>)), buf)
    \<and> cstr buf = (if sint i < 0 then ''-'' else []) @ number b (nat \<bar>sint i\<bar>)"
  by (rule nitoa_number[OF assms])

theorem nitoa_writes_numeral_witness:
  "\<exists>buf buf'. nitoa 0x80000000 10 (replicate 16 CHR ''x'') 16 = Some (11, buf) \<and> cstr buf = ''-2147483648''
    \<and> nitoa 48879 16 (replicate 16 CHR ''x'') 16 = Some (4, buf') \<and> cstr buf' = ''beef''"
proof -
  have n: "number 10 2147483648 = ''2147483648''" "number 16 48879 = ''beef''" by (simp_all add: number.simps[of 10] number.simps[of 16] digit_of_def char_of_def bit_0)
  have l: "1 + length (number 10 2147483648) = 11" "length (number 16 48879) = 4" unfolding n by simp_all
  obtain buf where "nitoa 0x80000000 10 (replicate 16 CHR ''x'') 16 = Some (1 + length (number 10 2147483648), buf)"
    "cstr buf = ''-'' @ number 10 2147483648"
    using nitoa_writes_numeral[of 10 "0x80000000" 16 "replicate 16 CHR ''x''"] by auto
  moreover obtain buf' where "nitoa 48879 16 (replicate 16 CHR ''x'') 16 = Some (length (number 16 48879), buf')"
    "cstr buf' = number 16 48879"
    using nitoa_writes_numeral[of 16 "48879" 16 "replicate 16 CHR ''x''"] by auto
  ultimately show ?thesis unfolding l n by (intro exI[of _ buf] exI[of _ buf']) simp
qed



end
